(* ===== verification/Salpa_Prelude.thy ===== *)
theory Salpa_Prelude
  imports Main "HOL-Library.Word" "HOL-Library.Monad_Syntax"
begin

text \<open>
  Shared vocabulary of the Salpa development.

  The firmware is Rust compiled with \<^verbatim>\<open>overflow-checks = true\<close>, so an out-of-range
  slice, a failed assertion and an integer overflow all panic. The development models a
  function that may panic as a function into \<^typ>\<open>'a option\<close>, with \<^term>\<open>None\<close> for the
  panic, and a Rust \<^verbatim>\<open>Result\<close> as a sum with the error on the left. A \<^verbatim>\<open>u8\<close>,
  \<^verbatim>\<open>u16\<close>, \<^verbatim>\<open>u32\<close> or \<^verbatim>\<open>u64\<close> is a word of that width; slice lengths and array
  indices, which the target's \<^verbatim>\<open>usize\<close> always represents, are natural numbers.

  The theory holds the standard-library operations the sources use (checked and saturating
  arithmetic, slices, \<^verbatim>\<open>copy_from_slice\<close>, byte order conversions, \<^verbatim>\<open>zeroize\<close>), the two
  interfaces several components share (a fixed-width byte codec and a machine whose
  invariant excludes panics), and the list lemmas the component proofs rest on.
\<close>

unbundle bit_operations_syntax

type_synonym u8 = "8 word"
type_synonym u16 = "16 word"
type_synonym u32 = "32 word"
type_synonym u64 = "64 word"
type_synonym bytes = "u8 list"

named_theorems slice_simps \<open>evaluation of in-range slices and copies\<close>
named_theorems codec_simps \<open>byte order conversions and their inverses\<close>

section \<open>Arithmetic of the Rust standard library\<close>

definition checked_add :: "'a::len word \<Rightarrow> 'a word \<Rightarrow> 'a word option" where
  "checked_add a b = (if unat a + unat b < 2 ^ LENGTH('a) then Some (a + b) else None)"

definition checked_sub :: "'a::len word \<Rightarrow> 'a word \<Rightarrow> 'a word option" where
  "checked_sub a b = (if b \<le> a then Some (a - b) else None)"

definition saturating_sub :: "'a::len word \<Rightarrow> 'a word \<Rightarrow> 'a word" where
  "saturating_sub a b = (if b \<le> a then a - b else 0)"

definition saturating_add :: "'a::len word \<Rightarrow> 'a word \<Rightarrow> 'a word" where
  "saturating_add a b = (if unat a + unat b < 2 ^ LENGTH('a) then a + b else - 1)"

definition usize_sub :: "nat \<Rightarrow> nat \<Rightarrow> nat option" where
  "usize_sub a b = (if b \<le> a then Some (a - b) else None)"

definition u32_try_from :: "nat \<Rightarrow> u32 option" where
  "u32_try_from n = (if n < 2 ^ 32 then Some (of_nat n) else None)"

section \<open>Slices and fixed buffers\<close>

definition subslice :: "'a list \<Rightarrow> nat \<Rightarrow> nat \<Rightarrow> 'a list option" where
  "subslice xs a b = (if a \<le> b \<and> b \<le> length xs then Some (take (b - a) (drop a xs)) else None)"

definition index :: "'a list \<Rightarrow> nat \<Rightarrow> 'a option" where
  "index xs i = (if i < length xs then Some (xs ! i) else None)"

definition copy_from_slice :: "'a list \<Rightarrow> nat \<Rightarrow> nat \<Rightarrow> 'a list \<Rightarrow> 'a list option" where
  "copy_from_slice dst a b src =
     (if a \<le> b \<and> b \<le> length dst \<and> b - a = length src
      then Some (take a dst @ src @ drop b dst) else None)"

definition store :: "'a list \<Rightarrow> nat \<Rightarrow> 'a \<Rightarrow> 'a list option" where
  "store xs i v = (if i < length xs then Some (xs[i := v]) else None)"

definition zeroize :: "bytes \<Rightarrow> bytes" where
  "zeroize buf = replicate (length buf) 0"

section \<open>Byte order conversions\<close>

definition to_le16 :: "u16 \<Rightarrow> bytes" where
  "to_le16 w = [ucast w, ucast (drop_bit 8 w)]"

definition to_be16 :: "u16 \<Rightarrow> bytes" where
  "to_be16 w = [ucast (drop_bit 8 w), ucast w]"

definition to_le32 :: "u32 \<Rightarrow> bytes" where
  "to_le32 w = [ucast w, ucast (drop_bit 8 w), ucast (drop_bit 16 w), ucast (drop_bit 24 w)]"

definition to_be32 :: "u32 \<Rightarrow> bytes" where
  "to_be32 w = [ucast (drop_bit 24 w), ucast (drop_bit 16 w), ucast (drop_bit 8 w), ucast w]"

fun from_le16 :: "bytes \<Rightarrow> u16 option" where
  "from_le16 [a, b] = Some (ucast a OR push_bit 8 (ucast b))"
| "from_le16 _ = None"

fun from_be16 :: "bytes \<Rightarrow> u16 option" where
  "from_be16 [a, b] = Some (push_bit 8 (ucast a) OR ucast b)"
| "from_be16 _ = None"

fun from_le32 :: "bytes \<Rightarrow> u32 option" where
  "from_le32 [a, b, c, d] =
     Some (ucast a OR push_bit 8 (ucast b) OR push_bit 16 (ucast c) OR push_bit 24 (ucast d))"
| "from_le32 _ = None"

fun from_be32 :: "bytes \<Rightarrow> u32 option" where
  "from_be32 [a, b, c, d] =
     Some (push_bit 24 (ucast a) OR push_bit 16 (ucast b) OR push_bit 8 (ucast c) OR ucast d)"
| "from_be32 _ = None"

section \<open>Fallible operations on a device\<close>

text \<open>
  A Rust function with access to a mutable device \<^typ>\<open>'s\<close> that returns a \<^verbatim>\<open>Result\<close>:
  \<^term>\<open>None\<close> is a panic, \<^term>\<open>Inl e\<close> the error value, and the device keeps what was
  done to it on both. \<open>try_then\<close> is the \<^verbatim>\<open>?\<close> operator followed by the rest of the body.
\<close>

type_synonym ('s, 'e, 'a) rust = "'s \<Rightarrow> (('e + 'a) \<times> 's) option"

definition rust_ok :: "'a \<Rightarrow> ('s, 'e, 'a) rust" where "rust_ok a s = Some (Inr a, s)"

definition rust_err :: "'e \<Rightarrow> ('s, 'e, 'a) rust" where "rust_err e s = Some (Inl e, s)"

definition try_then :: "('s, 'e, 'a) rust \<Rightarrow> ('a \<Rightarrow> ('s, 'e, 'b) rust) \<Rightarrow> ('s, 'e, 'b) rust" where
  "try_then m f s = (case m s of
       None \<Rightarrow> None
     | Some (Inl e, s') \<Rightarrow> Some (Inl e, s')
     | Some (Inr a, s') \<Rightarrow> f a s')"

definition map_err :: "('e \<Rightarrow> 'd) \<Rightarrow> ('s, 'e, 'a) rust \<Rightarrow> ('s, 'd, 'a) rust" where
  "map_err g m s = (case m s of
       None \<Rightarrow> None
     | Some (Inl e, s') \<Rightarrow> Some (Inl (g e), s')
     | Some (Inr a, s') \<Rightarrow> Some (Inr a, s'))"

definition ok_or :: "'e \<Rightarrow> 'a option \<Rightarrow> ('s, 'e, 'a) rust" where
  "ok_or e x = (case x of None \<Rightarrow> rust_err e | Some a \<Rightarrow> rust_ok a)"

definition or_panic :: "'a option \<Rightarrow> ('s, 'e, 'a) rust" where
  "or_panic x s = map_option (\<lambda>a. (Inr a, s)) x"

definition guard_err :: "bool \<Rightarrow> 'e \<Rightarrow> ('s, 'e, unit) rust" where
  "guard_err b e = (if b then rust_err e else rust_ok ())"

section \<open>Runs of a machine that may panic\<close>

fun run_steps :: "('s \<Rightarrow> 'e \<Rightarrow> 's option) \<Rightarrow> 's \<Rightarrow> 'e list \<Rightarrow> 's option" where
  "run_steps step s [] = Some s"
| "run_steps step s (e # es) = Option.bind (step s e) (\<lambda>s'. run_steps step s' es)"

section \<open>Lemmas on arithmetic\<close>

lemma checked_add_Some [simp]:
  "unat a + unat b < 2 ^ LENGTH('a) \<Longrightarrow> checked_add a b = Some (a + (b :: 'a::len word))"
  by (simp add: checked_add_def)

lemma checked_add_SomeD:
  "checked_add a b = Some c \<Longrightarrow> unat c = unat a + unat (b :: 'a::len word)"
  by (auto simp: checked_add_def unat_word_ariths split: if_splits)

lemma checked_sub_SomeD:
  "checked_sub a b = Some c \<Longrightarrow> b \<le> a \<and> unat c = unat a - unat (b :: 'a::len word)"
  by (auto simp: checked_sub_def unat_sub split: if_splits)

lemma usize_sub_Some [simp]: "b \<le> a \<Longrightarrow> usize_sub a b = Some (a - b)"
  by (simp add: usize_sub_def)

lemma unat_saturating_sub: "unat (saturating_sub a b) = unat a - unat (b :: 'a::len word)"
  by (auto simp: saturating_sub_def unat_sub word_le_nat_alt)

lemma unat_saturating_add:
  "unat (saturating_add a b) = min (unat a + unat b) (2 ^ LENGTH('a) - 1)"
  for a b :: "'a::len word"
  by (auto simp: saturating_add_def unat_word_ariths unsigned_minus_1_eq_mask mask_eq_exp_minus_1
      split: if_splits)

lemma unat_align:
  assumes "n < LENGTH('a)"
  shows "unat (w AND NOT (mask n) :: 'a::len word) = unat w div 2 ^ n * 2 ^ n"
proof -
  have "w AND NOT (mask n) = push_bit n (drop_bit n w)"
    by (rule bit_word_eqI) (auto simp: bit_simps)
  moreover have "unat w div 2 ^ n * 2 ^ n < 2 ^ LENGTH('a)"
    by (rule order.strict_trans1 [OF div_times_less_eq_dividend]) simp
  ultimately show ?thesis
    by (simp only: unsigned_push_bit_eq unsigned_drop_bit_eq)
      (simp add: take_bit_nat_eq_self drop_bit_eq_div push_bit_eq_mult)
qed

lemma word_le_one: "w \<le> 1 \<longleftrightarrow> w = 0 \<or> w = (1 :: 'a::len word)"
proof
  assume "w \<le> 1"
  then have "unat w = unat (0 :: 'a word) \<or> unat w = unat (1 :: 'a word)"
    by (auto simp: word_le_nat_alt le_Suc_eq)
  then show "w = 0 \<or> w = 1" by (metis word_eq_iff_unsigned)
qed auto

lemma ucast_u8_inject: "(ucast a :: u32) = ucast b \<longleftrightarrow> a = (b :: u8)"
proof
  assume eq: "(ucast a :: u32) = ucast b"
  have "bit a n = bit b n" if "n < 8" for n
    using arg_cong [OF eq, of "\<lambda>w. bit w n"] that by (simp add: bit_simps)
  then show "a = b" by (intro bit_word_eqI) simp
qed simp

lemma bind_pair_Some: "Option.bind x (\<lambda>(a, b). Some (f a b)) = map_option (\<lambda>(a, b). f a b) x"
  by (cases x) auto

section \<open>Lemmas on fallible operations\<close>

lemma try_then_simps [simp]:
  "try_then (rust_ok a) f s = f a s" "try_then (rust_err e) f s = Some (Inl e, s)"
  "try_then (ok_or e None) f s = Some (Inl e, s)" "try_then (ok_or e (Some a)) f s = f a s"
  "try_then (or_panic (Some a)) f s = f a s" "try_then (or_panic None) f s = None"
  "try_then (guard_err b e) g s = (if b then Some (Inl e, s) else g () s)"
  by (simp_all add: try_then_def rust_ok_def rust_err_def ok_or_def or_panic_def guard_err_def)

lemma try_then_pure [simp]:
  "try_then (ok_or e (Some a)) f = f a" "try_then (guard_err False e) g = g ()"
  "try_then (rust_ok a) f = f a" "try_then (or_panic (Some a)) f = f a"
  by (simp_all add: fun_eq_iff)

lemma try_then_eq: "m s = Some (Inr a, s') \<Longrightarrow> try_then m f s = f a s'"
  "m s = Some (Inl e, s') \<Longrightarrow> try_then m f s = Some (Inl e, s')"
  by (simp_all add: try_then_def)

lemma try_then_split:
  "P (try_then m f s) \<longleftrightarrow> (m s = None \<longrightarrow> P None) \<and>
     (\<forall>e s'. m s = Some (Inl e, s') \<longrightarrow> P (Some (Inl e, s'))) \<and>
     (\<forall>a s'. m s = Some (Inr a, s') \<longrightarrow> P (f a s'))"
  by (auto simp: try_then_def split: option.splits sum.splits)

text \<open>
  Total correctness of a fallible operation from one device state: it does not panic, and its
  result and the device after it satisfy the postcondition, error results included.
\<close>

definition yields :: "('s, 'e, 'a) rust \<Rightarrow> 's \<Rightarrow> ('e + 'a \<Rightarrow> 's \<Rightarrow> bool) \<Rightarrow> bool" where
  "yields m s Q \<longleftrightarrow> (\<exists>r s'. m s = Some (r, s') \<and> Q r s')"

lemma yields_bind:
  assumes "yields m s P" and "\<And>e s'. P (Inl e) s' \<Longrightarrow> Q (Inl e) s'"
    and "\<And>a s'. P (Inr a) s' \<Longrightarrow> yields (f a) s' Q"
  shows "yields (try_then m f) s Q"
proof -
  obtain r s' where "m s = Some (r, s')" "P r s'" using assms(1) by (auto simp: yields_def)
  with assms(2,3) show ?thesis by (cases r) (fastforce simp: yields_def try_then_def)+
qed

lemma yields_mono: "yields m s P \<Longrightarrow> (\<And>r s'. P r s' \<Longrightarrow> Q r s') \<Longrightarrow> yields m s Q"
  by (auto simp: yields_def)

lemma yields_map_err:
  "yields (map_err g m) s Q \<longleftrightarrow> yields m s (\<lambda>r. Q (case r of Inl e \<Rightarrow> Inl (g e) | Inr a \<Rightarrow> Inr a))"
  by (auto simp: yields_def map_err_def split: option.splits sum.splits)

lemma yields_pure [simp]:
  "yields (rust_ok a) s Q = Q (Inr a) s" "yields (rust_err e) s Q = Q (Inl e) s"
  "yields (try_then (guard_err b e) g) s Q = (if b then Q (Inl e) s else yields (g ()) s Q)"
  "yields (try_then (ok_or e x) h) s Q = (case x of None \<Rightarrow> Q (Inl e) s | Some a \<Rightarrow> yields (h a) s Q)"
  "yields (or_panic (Some a)) s Q = Q (Inr a) s" "yields (try_then (rust_err e) h) s Q = Q (Inl e) s"
  by (simp_all add: yields_def rust_ok_def rust_err_def or_panic_def split: option.splits)

section \<open>Fixed-size chunks\<close>

text \<open>How a streaming loop with a buffer of \<open>n\<close> bytes cuts its input.\<close>

function chunks :: "nat \<Rightarrow> 'a list \<Rightarrow> 'a list list" where
  "chunks n xs = (if n = 0 \<or> xs = [] then [] else take n xs # chunks n (drop n xs))"
  by pat_completeness auto
termination by (relation "measure (\<lambda>(n, xs). length xs)") auto

declare chunks.simps [simp del]

lemma chunks_Nil [simp]: "chunks n [] = []"
  by (simp add: chunks.simps)

lemma concat_chunks: "0 < n \<Longrightarrow> concat (chunks n xs) = xs"
proof (induction n xs rule: chunks.induct)
  case (1 n xs)
  then show ?case by (subst chunks.simps) auto
qed

lemma length_in_chunks: "0 < n \<Longrightarrow> c \<in> set (chunks n xs) \<Longrightarrow> length c \<le> n"
proof (induction n xs rule: chunks.induct)
  case (1 n xs)
  then show ?case by (subst (asm) (2) chunks.simps) (auto split: if_splits)
qed

lemma length_chunks: "0 < n \<Longrightarrow> length xs mod n = 0 \<Longrightarrow> length (chunks n xs) * n = length xs"
proof (induction n xs rule: chunks.induct)
  case (1 n xs)
  show ?case
  proof (cases "xs = []")
    case False
    with 1(3) have "n \<le> length xs" by (metis leI length_0_conv mod_less)
    moreover from this 1 have "(length xs - n) mod n = 0" by (simp add: le_mod_geq)
    ultimately show ?thesis using 1 False by (subst chunks.simps) simp
  qed simp
qed

section \<open>Lemmas on slices\<close>

lemma subslice_Some [slice_simps]:
  "a \<le> b \<Longrightarrow> b \<le> length xs \<Longrightarrow> subslice xs a b = Some (take (b - a) (drop a xs))"
  by (simp add: subslice_def)

lemma subslice_length: "subslice xs a b = Some ys \<Longrightarrow> length ys = b - a"
  by (auto simp: subslice_def split: if_splits)

lemma index_Some [slice_simps]: "i < length xs \<Longrightarrow> index xs i = Some (xs ! i)"
  by (simp add: index_def)

lemma copy_from_slice_Some [slice_simps]:
  "a \<le> b \<Longrightarrow> b \<le> length dst \<Longrightarrow> b - a = length src \<Longrightarrow>
   copy_from_slice dst a b src = Some (take a dst @ src @ drop b dst)"
  by (simp add: copy_from_slice_def)

lemma copy_from_slice_length:
  "copy_from_slice dst a b src = Some r \<Longrightarrow> length r = length dst"
  by (auto simp: copy_from_slice_def split: if_splits)

lemma copy_from_slice_read:
  "copy_from_slice dst a b src = Some r \<Longrightarrow> subslice r a b = Some src"
  by (auto simp: copy_from_slice_def subslice_def split: if_splits)

lemma copy_from_slice_frame:
  assumes "copy_from_slice dst a b src = Some r" and "c \<le> a \<and> d \<le> a \<or> b \<le> c"
  shows "subslice r c d = subslice dst c d"
proof (cases "c \<le> d \<and> d \<le> length dst")
  case True
  from assms(1) have r: "a \<le> b" "b \<le> length dst" "r = take a dst @ src @ drop b dst"
    "length src = b - a"
    by (auto simp: copy_from_slice_def split: if_splits)
  from assms(2) show ?thesis
  proof
    assume "c \<le> a \<and> d \<le> a"
    with True r show ?thesis by (auto simp: subslice_def drop_take min_def)
  next
    assume "b \<le> c"
    with True r show ?thesis by (auto simp: subslice_def min_def)
  qed
next
  case False
  with assms(1) show ?thesis
    by (auto simp: subslice_def copy_from_slice_def split: if_splits)
qed

lemma store_Some [slice_simps]: "i < length xs \<Longrightarrow> store xs i v = Some (xs[i := v])"
  by (simp add: store_def)

lemma store_length: "store xs i v = Some r \<Longrightarrow> length r = length xs"
  by (auto simp: store_def split: if_splits)

text \<open>Filling a cleared buffer from the front, field by field.\<close>

lemma fill_copy:
  "length x \<le> n \<Longrightarrow> a = length pre \<Longrightarrow> b = a + length x \<Longrightarrow>
   copy_from_slice (pre @ replicate n z @ rest) a b x = Some ((pre @ x) @ replicate (n - length x) z @ rest)"
  by (simp add: copy_from_slice_def)

lemma fill_store:
  "0 < n \<Longrightarrow> i = length pre \<Longrightarrow>
   store (pre @ replicate n z @ rest) i v = Some ((pre @ [v]) @ replicate (n - 1) z @ rest)"
  by (cases n) (simp_all add: store_def list_update_append)

lemma length_zeroize [simp]: "length (zeroize buf) = length buf"
  by (simp add: zeroize_def)

lemma set_zeroize: "x \<in> set (zeroize buf) \<Longrightarrow> x = 0"
  by (simp add: zeroize_def)

lemma zeroize_idem [simp]: "zeroize (zeroize buf) = zeroize buf"
  by (simp add: zeroize_def)

section \<open>Fixed-width byte codecs\<close>

text \<open>
  The contract of \<^verbatim>\<open>to_le_bytes\<close>/\<^verbatim>\<open>from_le_bytes\<close> and their big-endian versions, which
  every wire format of the firmware relies on. The clients of the contract read a field
  back from a buffer it was copied into.
\<close>

locale fixed_codec =
  fixes enc :: "'a \<Rightarrow> bytes" and dec :: "bytes \<Rightarrow> 'a option" and width :: nat
  assumes length_enc: "length (enc x) = width"
    and dec_enc: "dec (enc x) = Some x"
    and dec_total: "length bs = width \<Longrightarrow> \<exists>x. dec bs = Some x \<and> enc x = bs"
    and dec_width: "dec bs = Some x \<Longrightarrow> length bs = width"
begin

lemma enc_inject: "enc x = enc y \<longleftrightarrow> x = y"
  by (metis dec_enc option.inject)

lemma dec_eq_Some_iff: "dec bs = Some x \<longleftrightarrow> bs = enc x"
  using dec_enc dec_total dec_width by (metis option.inject)

lemma field_read_back:
  assumes "copy_from_slice buf a (a + width) (enc x) = Some r"
  shows "Option.bind (subslice r a (a + width)) dec = Some x"
  using copy_from_slice_read [OF assms] by (simp add: dec_enc)

lemma slice_dec_total:
  assumes "a + width \<le> length buf"
  shows "\<exists>x. Option.bind (subslice buf a (a + width)) dec = Some x"
proof -
  have "length (take width (drop a buf)) = width" using assms by simp
  then obtain x where "dec (take width (drop a buf)) = Some x" using dec_total by blast
  then show ?thesis using assms by (auto simp: subslice_def)
qed

end

lemma length_conversions [simp]:
  "length (to_le16 h) = 2" "length (to_be16 h) = 2"
  "length (to_le32 w) = 4" "length (to_be32 w) = 4"
  by (simp_all add: to_le16_def to_be16_def to_le32_def to_be32_def)

lemma from_le32_to_le32 [codec_simps]: "from_le32 (to_le32 w) = Some w"
proof -
  have "bit (ucast (ucast w :: u8) OR push_bit 8 (ucast (ucast (drop_bit 8 w) :: u8)) OR
      push_bit 16 (ucast (ucast (drop_bit 16 w) :: u8)) OR
      push_bit 24 (ucast (ucast (drop_bit 24 w) :: u8)) :: u32) n = bit w n" if "n < 32" for n
    using that by (cases "n < 8"; cases "n < 16"; cases "n < 24") (auto simp: bit_simps)
  then show ?thesis by (simp add: to_le32_def) (rule bit_word_eqI, simp)
qed

lemma from_be32_to_be32 [codec_simps]: "from_be32 (to_be32 w) = Some w"
proof -
  have "from_be32 (to_be32 w) = from_le32 (to_le32 w)"
    by (simp add: to_be32_def to_le32_def or.commute or.left_commute)
  then show ?thesis by (simp add: from_le32_to_le32)
qed

lemma from_le16_to_le16 [codec_simps]: "from_le16 (to_le16 w) = Some w"
  by (auto simp: to_le16_def intro!: bit_word_eqI) (auto simp: bit_simps)

lemma from_be16_to_be16 [codec_simps]: "from_be16 (to_be16 w) = Some w"
  by (auto simp: to_be16_def intro!: bit_word_eqI) (auto simp: bit_simps)

lemma list_of_length_2: "length xs = 2 \<Longrightarrow> \<exists>a b. xs = [a, b]"
  by (auto simp: numeral_eq_Suc length_Suc_conv)

lemma list_of_length_4: "length xs = 4 \<Longrightarrow> \<exists>a b c d. xs = [a, b, c, d]"
  by (auto simp: numeral_eq_Suc length_Suc_conv)

lemma not_bit_u8 [simp]: "8 \<le> n \<Longrightarrow> \<not> bit (a :: u8) n"
  by (auto dest: bit_imp_le_length)

lemma to_le16_of_bytes: "to_le16 (ucast a OR push_bit 8 (ucast b)) = [a, b :: u8]"
  by (auto simp: to_le16_def intro!: bit_word_eqI) (auto simp: bit_simps)

lemma to_le32_of_bytes:
  "to_le32 (ucast a OR push_bit 8 (ucast b) OR push_bit 16 (ucast c) OR push_bit 24 (ucast d))
   = [a, b, c, d :: u8]"
  by (auto simp: to_le32_def intro!: bit_word_eqI) (auto simp: bit_simps)

lemma to_be_rev: "to_be16 h = rev (to_le16 h)" "to_be32 w = rev (to_le32 w)"
  by (simp_all add: to_be16_def to_le16_def to_be32_def to_le32_def)

lemma from_be_rev:
  "from_be16 [a, b] = from_le16 [b, a]" "from_be32 [a, b, c, d] = from_le32 [d, c, b, a]"
  by (simp_all add: or.commute or.left_commute)

interpretation le16: fixed_codec to_le16 from_le16 2
proof unfold_locales
  show "\<exists>x. from_le16 bs = Some x \<and> to_le16 x = bs" if "length bs = 2" for bs
    using list_of_length_2 [OF that] by (auto simp: to_le16_of_bytes)
  show "length bs = 2" if "from_le16 bs = Some x" for bs x
    using that by (cases bs rule: from_le16.cases) auto
qed (simp_all add: codec_simps)

interpretation be16: fixed_codec to_be16 from_be16 2
proof unfold_locales
  show "\<exists>x. from_be16 bs = Some x \<and> to_be16 x = bs" if "length bs = 2" for bs
    using list_of_length_2 [OF that]
    by (auto simp: to_be_rev from_be_rev to_le16_of_bytes simp del: from_be16.simps)
  show "length bs = 2" if "from_be16 bs = Some x" for bs x
    using that by (cases bs rule: from_be16.cases) auto
qed (simp_all add: codec_simps)

interpretation le32: fixed_codec to_le32 from_le32 4
proof unfold_locales
  show "\<exists>x. from_le32 bs = Some x \<and> to_le32 x = bs" if "length bs = 4" for bs
    using list_of_length_4 [OF that] by (auto simp: to_le32_of_bytes)
  show "length bs = 4" if "from_le32 bs = Some x" for bs x
    using that by (cases bs rule: from_le32.cases) auto
qed (simp_all add: codec_simps)

interpretation be32: fixed_codec to_be32 from_be32 4
proof unfold_locales
  show "\<exists>x. from_be32 bs = Some x \<and> to_be32 x = bs" if "length bs = 4" for bs
    using list_of_length_4 [OF that]
    by (auto simp: to_be_rev from_be_rev to_le32_of_bytes simp del: from_be32.simps)
  show "length bs = 4" if "from_be32 bs = Some x" for bs x
    using that by (cases bs rule: from_be32.cases) auto
qed (simp_all add: codec_simps)

section \<open>Machines whose invariant excludes panics\<close>

text \<open>
  A component that handles a sequence of events (packets, requests, samples): every event
  it can be given takes a state of the invariant to a state of the invariant, so no run
  over such events panics.
\<close>

locale panic_free_machine =
  fixes step :: "'s \<Rightarrow> 'e \<Rightarrow> 's option" and inv :: "'s \<Rightarrow> bool" and ok :: "'e \<Rightarrow> bool"
  assumes step_inv: "inv s \<Longrightarrow> ok e \<Longrightarrow> \<exists>s'. step s e = Some s' \<and> inv s'"
begin

lemma run_inv: "inv s \<Longrightarrow> list_all ok es \<Longrightarrow> \<exists>s'. run_steps step s es = Some s' \<and> inv s'"
proof (induction es arbitrary: s)
  case Nil
  then show ?case by simp
next
  case (Cons e es)
  then obtain s' where "step s e = Some s'" and "inv s'" using step_inv by force
  with Cons show ?case by auto
qed

end

end
