(* ===== verification/Flash_Encryption.thy ===== *)
theory Flash_Encryption
  imports Salpa_Prelude
begin

text \<open>
  \<^verbatim>\<open>src/platform/flash_encryption.rs\<close>: the transport of release builds to encrypted flash.
  Reads go through fixed pages of the DROM cache window, writes through the ROM's encrypting
  primitive in 32-byte blocks.

  The ROM and the SPI driver (crate \<^verbatim>\<open>esp_storage\<close>) are the record \<open>rom\<close> of functions on
  a hardware state \<^typ>\<open>'f\<close>; a memory load through the cache window is \<open>rom_load\<close>, a
  volatile register read \<open>rom_register\<close>, the monotonic clock \<open>rom_clock_ms\<close> and the ROM's
  signature check \<open>rom_rsa_pss_verify\<close>. The
  static \<^verbatim>\<open>INITIALIZED\<close> is a field of \<open>fe_state\<close>. What the proofs assume of the
  hardware is \<open>rom_contract\<close> below.
\<close>

section \<open>Hardware interface\<close>

record 'f rom =
  rom_unlock :: "'f \<Rightarrow> (u32 + unit) \<times> 'f"
  rom_spi_read :: "'f \<Rightarrow> u32 \<Rightarrow> nat \<Rightarrow> (u32 + bytes) \<times> 'f"
  rom_erase_sector :: "'f \<Rightarrow> u32 \<Rightarrow> (u32 + unit) \<times> 'f"
  rom_spi_write :: "'f \<Rightarrow> u32 \<Rightarrow> bytes \<Rightarrow> (u32 + unit) \<times> 'f"
  rom_write_encrypted :: "'f \<Rightarrow> u32 \<Rightarrow> bytes \<Rightarrow> u32 \<times> 'f"
  rom_cache_disable :: "'f \<Rightarrow> u32 \<times> 'f"
  rom_cache_enable :: "'f \<Rightarrow> u32 \<Rightarrow> 'f"
  rom_mmu_set :: "'f \<Rightarrow> u32 \<Rightarrow> u32 \<Rightarrow> u32 \<Rightarrow> u32 \<Rightarrow> u32 \<Rightarrow> u32 \<Rightarrow> u32 \<times> 'f"
  rom_invalidate :: "'f \<Rightarrow> u32 \<Rightarrow> u32 \<Rightarrow> 'f"
  rom_load :: "'f \<Rightarrow> u32 \<Rightarrow> nat \<Rightarrow> bytes"
  rom_register :: "'f \<Rightarrow> u32 \<Rightarrow> u32"
  rom_encryption_fuse :: "'f \<Rightarrow> bool"
  rom_clock_ms :: "'f \<Rightarrow> u64 \<times> 'f"
  rom_rsa_pss_verify :: "bytes \<Rightarrow> u32 \<Rightarrow> bytes \<Rightarrow> u32 \<Rightarrow> bytes \<Rightarrow> bytes \<Rightarrow> bool \<times> bytes"

record 'f fe_state =
  fe_initialized :: bool
  fe_hw :: 'f

definition on_hw :: "('f \<Rightarrow> 'a \<times> 'f) \<Rightarrow> 'f fe_state \<Rightarrow> 'a \<times> 'f fe_state" where
  "on_hw op s = (case op (fe_hw s) of (a, f) \<Rightarrow> (a, s\<lparr>fe_hw := f\<rparr>))"

definition hw_result :: "('f \<Rightarrow> ('e + 'a) \<times> 'f) \<Rightarrow> ('f fe_state, 'e, 'a) rust" where
  "hw_result op s = Some (on_hw op s)"

section \<open>Mappings\<close>

definition MMU_PAGE_SIZE :: u32 where "MMU_PAGE_SIZE = 0x10000"
definition RESERVED_DROM_START :: u32 where "RESERVED_DROM_START = 0x3f390000"
definition RESERVED_DROM_END :: u32 where "RESERVED_DROM_END = 0x3f3f0000"
definition MMU_ACCESS_FLASH :: u32 where "MMU_ACCESS_FLASH = push_bit 15 1"

record mapping =
  mp_virtual_start :: u32
  mp_physical_start :: u32
  mp_size :: u32

definition mapping_new :: "u32 \<Rightarrow> u32 \<Rightarrow> u32 \<Rightarrow> mapping" where
  "mapping_new v p n = \<lparr>mp_virtual_start = v, mp_physical_start = p, mp_size = n\<rparr>"

definition OTADATA_MAPPING :: mapping where
  "OTADATA_MAPPING = mapping_new 0x3f390000 0x00000000 0x00020000"
definition OTA0_DESCRIPTOR_MAPPING :: mapping where
  "OTA0_DESCRIPTOR_MAPPING = mapping_new 0x3f3b0000 0x00020000 MMU_PAGE_SIZE"
definition OTA1_DESCRIPTOR_MAPPING :: mapping where
  "OTA1_DESCRIPTOR_MAPPING = mapping_new 0x3f3c0000 0x00200000 MMU_PAGE_SIZE"
definition FIDO_STORE_MAPPING :: mapping where
  "FIDO_STORE_MAPPING = mapping_new 0x3f3d0000 0x003e0000 0x00020000"
definition MAPPINGS :: "mapping list" where
  "MAPPINGS = [OTADATA_MAPPING, OTA0_DESCRIPTOR_MAPPING, OTA1_DESCRIPTOR_MAPPING, FIDO_STORE_MAPPING]"

definition physical_range :: "mapping \<Rightarrow> u32 \<times> u32" where
  "physical_range m = (mp_physical_start m, mp_physical_start m + mp_size m)"

datatype flash_encryption_error =
    FE_Disabled | FE_MappingFailed u32 | FE_UnmappedRange | FE_NotAligned
  | FE_UnlockFailed u32 | FE_EraseFailed u32 | FE_WriteFailed u32

fun find_map :: "('a \<Rightarrow> 'b option) \<Rightarrow> 'a list \<Rightarrow> 'b option" where
  "find_map f [] = None"
| "find_map f (x # xs) = (case f x of None \<Rightarrow> find_map f xs | Some y \<Rightarrow> Some y)"

definition mapped_virtual_address :: "u32 \<Rightarrow> nat \<Rightarrow> u32 option" where
  "mapped_virtual_address address n = do {
     len \<leftarrow> u32_try_from n;
     e \<leftarrow> checked_add address len;
     find_map (\<lambda>m. case physical_range m of (lo, hi) \<Rightarrow>
       if lo \<le> address \<and> e \<le> hi
       then checked_add (mp_virtual_start m) (address - mp_physical_start m)
       else None) MAPPINGS
   }"

definition encrypted_write_is_aligned :: "u32 \<Rightarrow> nat \<Rightarrow> bool" where
  "encrypted_write_is_aligned address n \<longleftrightarrow> address mod 32 = 0 \<and> n mod 32 = 0"

section \<open>Initialization\<close>

definition map_drom :: "'f rom \<Rightarrow> u32 \<Rightarrow> u32 \<Rightarrow> u32 \<Rightarrow> 'f \<Rightarrow> u32 \<times> 'f" where
  "map_drom R virtual_address physical_address page_count f =
     (let (autoload, f) = rom_cache_disable R f;
        (result, f) = rom_mmu_set R f MMU_ACCESS_FLASH virtual_address physical_address
          (MMU_PAGE_SIZE div 1024) page_count 0;
        f = rom_cache_enable R f autoload
      in (result, f))"

fun map_regions :: "'f rom \<Rightarrow> mapping list \<Rightarrow> ('f fe_state, flash_encryption_error, unit) rust" where
  "map_regions R [] s = Some (Inr (), s)"
| "map_regions R (m # ms) s =
     (let (result, s) = on_hw (map_drom R (mp_virtual_start m) (mp_physical_start m)
          (mp_size m div MMU_PAGE_SIZE)) s
      in if result \<noteq> 0 then Some (Inl (FE_MappingFailed result), s) else map_regions R ms s)"

definition map_release_regions :: "'f rom \<Rightarrow> ('f fe_state, flash_encryption_error, unit) rust" where
  "map_release_regions R = map_regions R MAPPINGS"

definition initialize :: "'f rom \<Rightarrow> ('f fe_state, flash_encryption_error, unit) rust" where
  "initialize R s =
     (if \<not> rom_encryption_fuse R (fe_hw s) then Some (Inl FE_Disabled, s)
      else if fe_initialized s then Some (Inr (), s)
      else try_then (map_release_regions R) (\<lambda>_ s. Some (Inr (), s\<lparr>fe_initialized := True\<rparr>)) s)"

section \<open>Reads\<close>

definition fe_read :: "'f rom \<Rightarrow> u32 \<Rightarrow> nat \<Rightarrow> ('f fe_state, flash_encryption_error, bytes) rust" where
  "fe_read R address n s =
     (if \<not> fe_initialized s then Some (Inl FE_Disabled, s)
      else try_then (ok_or FE_UnmappedRange (mapped_virtual_address address n))
        (\<lambda>virtual_address s. Some (Inr (rom_load R (fe_hw s) virtual_address n), s)) s)"

definition map_update_page_and_copy ::
  "'f rom \<Rightarrow> u32 \<Rightarrow> u32 \<Rightarrow> nat \<Rightarrow> ('f fe_state, flash_encryption_error, bytes) rust" where
  "map_update_page_and_copy R physical_page page_offset n s =
     (let v = mp_virtual_start OTA0_DESCRIPTOR_MAPPING;
        (mapped, s) = on_hw (map_drom R v physical_page 1) s
      in if mapped \<noteq> 0 then Some (Inl (FE_MappingFailed mapped), s)
      else
        let s = s\<lparr>fe_hw := rom_invalidate R (fe_hw s) v MMU_PAGE_SIZE\<rparr>
        in case checked_add v page_offset of
          None \<Rightarrow> None
        | Some from \<Rightarrow>
            let out = rom_load R (fe_hw s) from n;
              (restored, s) = on_hw (map_drom R v (mp_physical_start OTA0_DESCRIPTOR_MAPPING) 1) s;
              s = s\<lparr>fe_hw := rom_invalidate R (fe_hw s) v MMU_PAGE_SIZE\<rparr>
            in if restored \<noteq> 0 then Some (Inl (FE_MappingFailed restored), s) else Some (Inr out, s))"

lemma unat_page: "unat (a AND NOT (MMU_PAGE_SIZE - 1)) = unat a div 0x10000 * 0x10000"
proof -
  have mask: "MMU_PAGE_SIZE - 1 = (mask 16 :: u32)" by (simp add: MMU_PAGE_SIZE_def mask_eq_exp_minus_1)
  show ?thesis using unat_align [of 16 a] unfolding mask by simp
qed

lemma unat_page_offset: "unat (a - (a AND NOT (MMU_PAGE_SIZE - 1))) = unat a mod 0x10000"
proof -
  have "a AND NOT (MMU_PAGE_SIZE - 1) \<le> a" by (rule word_and_le2)
  then show ?thesis by (simp add: unat_sub unat_page minus_div_mult_eq_mod)
qed

lemma page_left: "unat (MMU_PAGE_SIZE - (a - (a AND NOT (MMU_PAGE_SIZE - 1)))) = 0x10000 - unat a mod 0x10000"
  using unat_page_offset [of a]
  by (subst unat_sub) (simp_all add: word_le_nat_alt MMU_PAGE_SIZE_def less_imp_le)

function read_pages :: "'f rom \<Rightarrow> u32 \<Rightarrow> nat \<Rightarrow> ('f fe_state, flash_encryption_error, bytes) rust" where
  "read_pages R address n s =
     (if n = 0 then Some (Inr [], s)
      else
        let physical_page = address AND NOT (MMU_PAGE_SIZE - 1);
          page_offset = address - physical_page;
          count = min n (unat (MMU_PAGE_SIZE - page_offset))
        in case map_update_page_and_copy R physical_page page_offset count s of
          None \<Rightarrow> None
        | Some (Inl e, s) \<Rightarrow> Some (Inl e, s)
        | Some (Inr current, s) \<Rightarrow>
            (case checked_add address (of_nat count) of
               None \<Rightarrow> None
             | Some address \<Rightarrow>
                 (case read_pages R address (n - count) s of
                    None \<Rightarrow> None
                  | Some (Inl e, s) \<Rightarrow> Some (Inl e, s)
                  | Some (Inr rest, s) \<Rightarrow> Some (Inr (current @ rest), s))))"
  by pat_completeness auto
termination
proof (relation "measure (\<lambda>(R, a, n, s). n)", goal_cases)
  case (2 R a n s page off count)
  then show ?case using page_left [of a] by simp
qed simp

declare read_pages.simps [simp del]

definition read_update :: "'f rom \<Rightarrow> u32 \<Rightarrow> nat \<Rightarrow> ('f fe_state, flash_encryption_error, bytes) rust" where
  "read_update R address n s =
     (if \<not> fe_initialized s then Some (Inl FE_Disabled, s)
      else try_then (ok_or FE_UnmappedRange (u32_try_from n)) (\<lambda>len.
        try_then (ok_or FE_UnmappedRange (checked_add address len)) (\<lambda>_.
        read_pages R address n)) s)"

section \<open>Writes and erases\<close>

definition invalidate_physical_range ::
  "'f rom \<Rightarrow> u32 \<Rightarrow> nat \<Rightarrow> ('f fe_state, flash_encryption_error, unit) rust" where
  "invalidate_physical_range R physical_address n =
     try_then (ok_or FE_UnmappedRange (mapped_virtual_address physical_address n)) (\<lambda>virtual_address.
     try_then (ok_or FE_UnmappedRange (u32_try_from n)) (\<lambda>size s.
     Some (Inr (), s\<lparr>fe_hw := rom_invalidate R (fe_hw s) virtual_address size\<rparr>)))"

text \<open>The loop over \<^verbatim>\<open>data.chunks_exact(32).enumerate()\<close>, from chunk \<open>i\<close> on.\<close>

fun write_blocks ::
  "'f rom \<Rightarrow> u32 \<Rightarrow> nat \<Rightarrow> bytes list \<Rightarrow> ('f fe_state, flash_encryption_error, unit) rust" where
  "write_blocks R address i [] s = Some (Inr (), s)"
| "write_blocks R address i (chunk # rest) s =
     (case checked_add address (of_nat (i * 32)) of
        None \<Rightarrow> None
      | Some block_address \<Rightarrow>
          let (result, s) = on_hw (\<lambda>f. rom_write_encrypted R f block_address chunk) s
          in if result \<noteq> 0 then Some (Inl (FE_WriteFailed result), s)
             else write_blocks R address (Suc i) rest s)"

definition write_inner ::
  "'f rom \<Rightarrow> u32 \<Rightarrow> bytes \<Rightarrow> bool \<Rightarrow> ('f fe_state, flash_encryption_error, unit) rust" where
  "write_inner R address data invalidate_fixed_mapping s =
     (if \<not> fe_initialized s then Some (Inl FE_Disabled, s)
      else
        try_then (guard_err (\<not> encrypted_write_is_aligned address (length data)) FE_NotAligned) (\<lambda>_.
        try_then (map_err FE_UnlockFailed (hw_result (rom_unlock R))) (\<lambda>_.
        try_then (write_blocks R address 0 (chunks 32 data)) (\<lambda>_.
        if invalidate_fixed_mapping then invalidate_physical_range R address (length data)
        else rust_ok ()))) s)"

definition fe_write :: "'f rom \<Rightarrow> u32 \<Rightarrow> bytes \<Rightarrow> ('f fe_state, flash_encryption_error, unit) rust" where
  "fe_write R address data = write_inner R address data True"

definition write_update_enc ::
  "'f rom \<Rightarrow> u32 \<Rightarrow> bytes \<Rightarrow> ('f fe_state, flash_encryption_error, unit) rust" where
  "write_update_enc R address data = write_inner R address data False"

fun erase_sectors :: "'f rom \<Rightarrow> (u32 \<Rightarrow> 'e) \<Rightarrow> u32 list \<Rightarrow> ('f fe_state, 'e, unit) rust" where
  "erase_sectors R g [] s = Some (Inr (), s)"
| "erase_sectors R g (a # as) s =
     try_then (map_err g (hw_result (\<lambda>f. rom_erase_sector R f (a div 0x1000)))) (\<lambda>_. erase_sectors R g as) s"

text \<open>The addresses of \<^verbatim>\<open>(address..end).step_by(0x1000)\<close>.\<close>

definition sector_addresses :: "u32 \<Rightarrow> u32 \<Rightarrow> u32 list" where
  "sector_addresses address e =
     map (\<lambda>i. address + of_nat (i * 0x1000)) [0..<(unat e - unat address + 0xfff) div 0x1000]"

definition erase_inner ::
  "'f rom \<Rightarrow> u32 \<Rightarrow> nat \<Rightarrow> bool \<Rightarrow> ('f fe_state, flash_encryption_error, unit) rust" where
  "erase_inner R address n invalidate_fixed_mapping s =
     (if \<not> fe_initialized s then Some (Inl FE_Disabled, s)
      else
        try_then (guard_err (address mod 0x1000 \<noteq> 0 \<or> n mod 0x1000 \<noteq> 0) FE_NotAligned) (\<lambda>_.
        try_then (map_err FE_UnlockFailed (hw_result (rom_unlock R))) (\<lambda>_.
        try_then (ok_or FE_UnmappedRange (u32_try_from n)) (\<lambda>len.
        try_then (ok_or FE_UnmappedRange (checked_add address len)) (\<lambda>e.
        try_then (erase_sectors R FE_EraseFailed (sector_addresses address e)) (\<lambda>_.
        if invalidate_fixed_mapping then invalidate_physical_range R address n
        else rust_ok ()))))) s)"

definition fe_erase :: "'f rom \<Rightarrow> u32 \<Rightarrow> nat \<Rightarrow> ('f fe_state, flash_encryption_error, unit) rust" where
  "fe_erase R address n = erase_inner R address n True"

definition erase_update :: "'f rom \<Rightarrow> u32 \<Rightarrow> nat \<Rightarrow> ('f fe_state, flash_encryption_error, unit) rust" where
  "erase_update R address n = erase_inner R address n False"


section \<open>The hardware contract\<close>

text \<open>
  \<open>mem f a\<close> is the plaintext byte stored at physical address \<open>a\<close>, \<open>page f v\<close> the physical
  base a virtual page base is mapped to. Only erases and writes change the memory, and only in
  their own range; only a successful \<^verbatim>\<open>Cache_Ibus_MMU_Set\<close> changes mappings; a load through
  a mapped page returns what the page stores. A raw SPI read returns the stored bytes only when
  the flash is not encrypted (\<open>enc\<close>); with encryption it returns some ciphertext of that length.
\<close>

definition rom_quiet :: "('f \<Rightarrow> nat \<Rightarrow> u8) \<Rightarrow> ('f \<Rightarrow> u32 \<Rightarrow> u32 option) \<Rightarrow> 'f \<Rightarrow> 'f \<Rightarrow> bool" where
  "rom_quiet mem page f g \<longleftrightarrow> mem g = mem f \<and> page g = page f"

definition memory_law :: "'f rom \<Rightarrow> ('f \<Rightarrow> nat \<Rightarrow> u8) \<Rightarrow> ('f \<Rightarrow> u32 \<Rightarrow> u32 option) \<Rightarrow> bool" where
  "memory_law R mem page \<longleftrightarrow>
     (\<forall>f k. page (snd (rom_erase_sector R f k)) = page f
        \<and> (\<forall>a. a < unat k * 0x1000 \<or> unat k * 0x1000 + 0x1000 \<le> a
             \<longrightarrow> mem (snd (rom_erase_sector R f k)) a = mem f a))
   \<and> (\<forall>f a d. page (snd (rom_spi_write R f a d)) = page f
        \<and> (\<forall>x. x < unat a \<or> unat a + length d \<le> x \<longrightarrow> mem (snd (rom_spi_write R f a d)) x = mem f x))
   \<and> (\<forall>f a d. page (snd (rom_write_encrypted R f a d)) = page f
        \<and> (\<forall>x. x < unat a \<or> unat a + length d \<le> x \<longrightarrow> mem (snd (rom_write_encrypted R f a d)) x = mem f x))"

definition mmu_law :: "'f rom \<Rightarrow> ('f \<Rightarrow> nat \<Rightarrow> u8) \<Rightarrow> ('f \<Rightarrow> u32 \<Rightarrow> u32 option) \<Rightarrow> bool" where
  "mmu_law R mem page \<longleftrightarrow>
     (\<forall>f v p n. mem (snd (rom_mmu_set R f MMU_ACCESS_FLASH v p 64 n 0)) = mem f
        \<and> (fst (rom_mmu_set R f MMU_ACCESS_FLASH v p 64 n 0) = 0 \<and> n = 1
             \<longrightarrow> page (snd (rom_mmu_set R f MMU_ACCESS_FLASH v p 64 n 0)) = (page f)(v \<mapsto> p)))
   \<and> (\<forall>f v p off n. page f v = Some p \<and> unat v mod 0x10000 = 0 \<and> off + n \<le> 0x10000
        \<longrightarrow> rom_load R f (v + of_nat off) n = map (\<lambda>i. mem f (unat p + off + i)) [0..<n])"

definition rom_contract :: "bool \<Rightarrow> 'f rom \<Rightarrow> ('f \<Rightarrow> nat \<Rightarrow> u8) \<Rightarrow> ('f \<Rightarrow> u32 \<Rightarrow> u32 option) \<Rightarrow> bool" where
  "rom_contract enc R mem page \<longleftrightarrow> memory_law R mem page \<and> mmu_law R mem page
   \<and> (\<forall>f. rom_quiet mem page f (snd (rom_unlock R f)))
   \<and> (\<forall>f a n. rom_quiet mem page f (snd (rom_spi_read R f a n))
        \<and> (\<forall>bs. fst (rom_spi_read R f a n) = Inr bs \<longrightarrow> length bs = n
             \<and> (\<not> enc \<longrightarrow> bs = map (\<lambda>i. mem f (unat a + i)) [0..<n])))
   \<and> (\<forall>f. rom_quiet mem page f (snd (rom_cache_disable R f)))
   \<and> (\<forall>f w. rom_quiet mem page f (rom_cache_enable R f w))
   \<and> (\<forall>f a n. rom_quiet mem page f (rom_invalidate R f a n))
   \<and> (\<forall>f a n. length (rom_load R f a n) = n)
   \<and> (\<forall>f. rom_quiet mem page f (snd (rom_clock_ms R f)))"

section \<open>Lemmas\<close>

lemma rom_contractD:
  assumes "rom_contract enc R mem page"
  shows "mem (rom_cache_enable R f w) = mem f" "page (rom_cache_enable R f w) = page f"
    "mem (rom_invalidate R f a n) = mem f" "page (rom_invalidate R f a n) = page f"
    "rom_cache_disable R f = (w, g) \<Longrightarrow> mem g = mem f \<and> page g = page f"
    "rom_unlock R f = (u, g) \<Longrightarrow> mem g = mem f \<and> page g = page f"
    "rom_spi_read R f a k = (r, g) \<Longrightarrow> mem g = mem f \<and> page g = page f"
    "rom_spi_read R f a k = (Inr bs, g) \<Longrightarrow> length bs = k"
    "rom_spi_read R f a k = (Inr bs, g) \<Longrightarrow> \<not> enc \<Longrightarrow> bs = map (\<lambda>i. mem f (unat a + i)) [0..<k]"
    "length (rom_load R f a n') = n'"
    "rom_clock_ms R f = (t, g) \<Longrightarrow> mem g = mem f \<and> page g = page f"
  using assms unfolding rom_contract_def rom_quiet_def by (metis fst_conv snd_conv)+

lemma rom_laws:
  assumes "rom_contract enc R mem page" shows "memory_law R mem page" and "mmu_law R mem page"
  using assms by (simp_all add: rom_contract_def)

lemma rom_load_law:
  assumes "rom_contract enc R mem page" and "page f v = Some p" and "unat v mod 0x10000 = 0"
    and "unat off + n \<le> 0x10000"
  shows "rom_load R f (v + off) n = map (\<lambda>i. mem f (unat p + unat off + i)) [0..<n]"
proof -
  have "rom_load R f (v + of_nat (unat off)) n = map (\<lambda>i. mem f (unat p + unat off + i)) [0..<n]"
    using rom_laws(2) [OF assms(1), unfolded mmu_law_def, THEN conjunct2, rule_format,
        of f v p "unat off" n] assms(2-) by simp
  then show ?thesis by simp
qed

lemma map_drom_effect:
  assumes "rom_contract enc R mem page" and "map_drom R v p n f = (result, g)"
  shows "mem g = mem f" and "result = 0 \<Longrightarrow> n = 1 \<Longrightarrow> page g = (page f)(v \<mapsto> p)"
proof -
  obtain w f1 where d: "rom_cache_disable R f = (w, f1)" by (meson surj_pair)
  obtain r f2 where m: "rom_mmu_set R f1 MMU_ACCESS_FLASH v p 64 n 0 = (r, f2)" by (meson surj_pair)
  have g: "result = r" "g = rom_cache_enable R f2 w"
    using assms(2) d m by (auto simp: map_drom_def MMU_PAGE_SIZE_def Let_def)
  note law = assms(1) [unfolded rom_contract_def mmu_law_def, THEN conjunct2, THEN conjunct1, THEN conjunct1, rule_format, of f1 v p n]
  show "mem g = mem f"
    using law m rom_contractD(5) [OF assms(1) d] rom_contractD(1) [OF assms(1)] by (simp add: g)
  show "page g = (page f)(v \<mapsto> p)" if "result = 0" "n = 1"
    using law m that rom_contractD(5) [OF assms(1) d] rom_contractD(2) [OF assms(1)] by (simp add: g)
qed

definition fixed_v :: u32 where "fixed_v = mp_virtual_start OTA0_DESCRIPTOR_MAPPING"
definition fixed_p :: u32 where "fixed_p = mp_physical_start OTA0_DESCRIPTOR_MAPPING"

lemma map_update_page_ok:
  assumes C: "rom_contract enc R mem page" and off: "unat off + n \<le> 0x10000"
  shows "\<exists>r s'. map_update_page_and_copy R p off n s = Some (r, s')
    \<and> mem (fe_hw s') = mem (fe_hw s) \<and> fe_initialized s' = fe_initialized s
    \<and> (\<forall>bs. r = Inr bs \<longrightarrow> bs = map (\<lambda>i. mem (fe_hw s) (unat p + unat off + i)) [0..<n]
        \<and> page (fe_hw s') = (page (fe_hw s))(fixed_v \<mapsto> fixed_p))"
proof -
  obtain r1 f1 where m1: "map_drom R fixed_v p 1 (fe_hw s) = (r1, f1)" by (meson surj_pair)
  let ?f2 = "rom_invalidate R f1 fixed_v MMU_PAGE_SIZE"
  obtain r2 f3 where m2: "map_drom R fixed_v fixed_p 1 ?f2 = (r2, f3)" by (meson surj_pair)
  have v: "fixed_v = 0x3f3b0000" by (simp add: fixed_v_def OTA0_DESCRIPTOR_MAPPING_def mapping_new_def)
  have aligned: "unat fixed_v mod 0x10000 = 0" unfolding v by simp
  have add: "checked_add fixed_v off = Some (fixed_v + off)"
    using off by (simp add: v)
  have mem: "mem f3 = mem (fe_hw s)" "mem ?f2 = mem (fe_hw s)" "mem f1 = mem (fe_hw s)"
    using map_drom_effect(1) [OF C m1] map_drom_effect(1) [OF C m2] rom_contractD(3) [OF C] by simp_all
  have "page ?f2 fixed_v = Some p" if "r1 = 0"
    using map_drom_effect(2) [OF C m1 that] rom_contractD(4) [OF C] by simp
  then have load: "rom_load R ?f2 (fixed_v + off) n = map (\<lambda>i. mem (fe_hw s) (unat p + unat off + i)) [0..<n]"
    if "r1 = 0"
    using rom_load_law [where f = ?f2, OF C _ _ off, of fixed_v p] that mem(2) aligned by simp
  have page: "page f3 = (page (fe_hw s))(fixed_v \<mapsto> fixed_p)" if "r1 = 0" "r2 = 0"
    using that map_drom_effect(2) [OF C m1] map_drom_effect(2) [OF C m2] rom_contractD(4) [OF C] by simp
  show ?thesis
    using m1 m2 add load page mem rom_contractD(3,4) [OF C]
    by (simp add: map_update_page_and_copy_def on_hw_def Let_def flip: fixed_v_def fixed_p_def)
qed

lemma read_pages_ok:
  assumes C: "rom_contract enc R mem page" and "unat a + n < 2 ^ 32"
  shows "\<exists>r s'. read_pages R a n s = Some (r, s')
    \<and> mem (fe_hw s') = mem (fe_hw s) \<and> fe_initialized s' = fe_initialized s
    \<and> (\<forall>bs. r = Inr bs \<longrightarrow> bs = map (\<lambda>i. mem (fe_hw s) (unat a + i)) [0..<n]
        \<and> page (fe_hw s') = (if n = 0 then page (fe_hw s) else (page (fe_hw s))(fixed_v \<mapsto> fixed_p)))"
  using assms(2)
proof (induction n arbitrary: a s rule: less_induct)
  case (less n)
  show ?case
  proof (cases "n = 0")
    case True
    then show ?thesis by (simp add: read_pages.simps)
  next
    case False
    let ?p = "a AND NOT (MMU_PAGE_SIZE - 1)"
    let ?off = "a - ?p"
    define c where "c = min n (unat (MMU_PAGE_SIZE - ?off))"
    have c: "0 < c" "c \<le> n" "unat ?off + c \<le> 0x10000"
      using False unat_page_offset [of a] page_left [of a] by (auto simp: c_def)
    have addr: "unat ?p + unat ?off = unat a" by (simp add: unat_page unat_page_offset)
    have uc: "unat (of_nat c :: u32) = c" using c less.prems by (simp add: unat_of_nat take_bit_nat_eq_self)
    have add: "checked_add a (of_nat c) = Some (a + of_nat c)" and ua: "unat (a + of_nat c) = unat a + c"
      using less.prems c(2) uc by (simp_all add: unat_word_ariths)
    obtain r s1 where page: "map_update_page_and_copy R ?p ?off c s = Some (r, s1)"
      and keep: "mem (fe_hw s1) = mem (fe_hw s)" "fe_initialized s1 = fe_initialized s"
      and ok: "\<And>bs. r = Inr bs \<Longrightarrow> bs = map (\<lambda>i. mem (fe_hw s) (unat a + i)) [0..<c]
        \<and> page (fe_hw s1) = (page (fe_hw s))(fixed_v \<mapsto> fixed_p)"
      using map_update_page_ok [OF C c(3), of ?p s] addr by auto
    have step: "read_pages R a n s = (case r of Inl e \<Rightarrow> Some (Inl e, s1)
      | Inr current \<Rightarrow> (case read_pages R (a + of_nat c) (n - c) s1 of
          None \<Rightarrow> None | Some (Inl e, s) \<Rightarrow> Some (Inl e, s)
        | Some (Inr rest, s) \<Rightarrow> Some (Inr (current @ rest), s)))"
      using False page add by (simp add: read_pages.simps [of R a n s] Let_def flip: c_def split: sum.splits)
    obtain q s2 where rest: "read_pages R (a + of_nat c) (n - c) s1 = Some (q, s2)"
      "mem (fe_hw s2) = mem (fe_hw s1)" "fe_initialized s2 = fe_initialized s1"
      "\<And>bs. q = Inr bs \<Longrightarrow> bs = map (\<lambda>i. mem (fe_hw s1) (unat a + c + i)) [0..<n - c]
        \<and> page (fe_hw s2) = (if n - c = 0 then page (fe_hw s1) else (page (fe_hw s1))(fixed_v \<mapsto> fixed_p))"
      using less.IH [of "n - c" "a + of_nat c" s1] c less.prems ua by auto
    have "[0..<n] = [0..<c] @ map (\<lambda>i. c + i) [0..<n - c]"
      using c(2) upt_add_eq_append [of 0 c "n - c"] map_add_upt [of c "n - c"] by (simp add: add.commute)
    then have join: "map (\<lambda>i. mem (fe_hw s) (unat a + i)) [0..<n]
        = map (\<lambda>i. mem (fe_hw s) (unat a + i)) [0..<c] @ map (\<lambda>i. mem (fe_hw s) (unat a + c + i)) [0..<n - c]"
      by (simp add: add.assoc)
    show ?thesis
    proof (cases r)
      case (Inl e)
      then show ?thesis using keep by (simp add: step)
    next
      case (Inr current)
      then show ?thesis using ok [OF Inr] rest keep False join
        by (cases q) (auto simp: step)
    qed
  qed
qed

text \<open>\<open>only_within\<close>: from f to g the memory changed at most between the two addresses.\<close>

definition only_within :: "('f \<Rightarrow> nat \<Rightarrow> u8) \<Rightarrow> nat \<Rightarrow> nat \<Rightarrow> 'f \<Rightarrow> 'f \<Rightarrow> bool" where
  "only_within mem lo hi f g \<longleftrightarrow> (\<forall>a. a < lo \<or> hi \<le> a \<longrightarrow> mem g a = mem f a)"

lemma only_within_refl [simp]: "mem g = mem f \<Longrightarrow> only_within mem lo hi f g"
  by (simp add: only_within_def)

lemma only_within_trans [trans]:
  "only_within mem lo hi f g \<Longrightarrow> only_within mem lo hi g h \<Longrightarrow> only_within mem lo hi f h"
  by (simp add: only_within_def)

lemma only_within_mono:
  "only_within mem lo hi f g \<Longrightarrow> lo' \<le> lo \<Longrightarrow> hi \<le> hi' \<Longrightarrow> only_within mem lo' hi' f g"
  by (auto simp: only_within_def)

lemma rom_mutation_range:
  assumes "rom_contract enc R mem page"
  shows "only_within mem (unat k * 0x1000) (unat k * 0x1000 + 0x1000) f (snd (rom_erase_sector R f k))"
    and "only_within mem (unat a) (unat a + length d) f (snd (rom_spi_write R f a d))"
    and "only_within mem (unat a) (unat a + length d) f (snd (rom_write_encrypted R f a d))"
  using rom_laws(1) [OF assms] by (simp_all add: memory_law_def only_within_def)

text \<open>A device operation that returns and touches memory only in a range.\<close>

definition confined ::
  "('f \<Rightarrow> nat \<Rightarrow> u8) \<Rightarrow> nat \<Rightarrow> nat \<Rightarrow> 'f fe_state \<Rightarrow> (('e + 'a) \<times> 'f fe_state) option \<Rightarrow> bool" where
  "confined mem lo hi s r \<longleftrightarrow> (\<exists>x s'. r = Some (x, s') \<and> fe_initialized s' = fe_initialized s
     \<and> only_within mem lo hi (fe_hw s) (fe_hw s'))"

lemma confined_try_then:
  assumes "confined mem lo hi s (m s)"
    and "\<And>a s'. m s = Some (Inr a, s') \<Longrightarrow> fe_initialized s' = fe_initialized s \<Longrightarrow> confined mem lo hi s' (f a s')"
  shows "confined mem lo hi s (try_then m f s)"
proof -
  obtain x s' where m: "m s = Some (x, s')" "fe_initialized s' = fe_initialized s"
    "only_within mem lo hi (fe_hw s) (fe_hw s')"
    using assms(1) by (auto simp: confined_def)
  show ?thesis
  proof (cases x)
    case (Inl e)
    with m show ?thesis by (simp add: confined_def try_then_def)
  next
    case (Inr a)
    with m assms(2) [of a s'] show ?thesis
      by (auto simp: confined_def try_then_def intro: only_within_trans)
  qed
qed

lemma confined_mono:
  "confined mem lo hi s r \<Longrightarrow> lo' \<le> lo \<Longrightarrow> hi \<le> hi' \<Longrightarrow> confined mem lo' hi' s r"
  by (auto simp: confined_def intro: only_within_mono)

lemma confined_none: "confined mem 0 0 s r \<Longrightarrow> confined mem lo hi s r"
  by (auto simp: confined_def only_within_def)

lemma confined_map_err: "confined mem lo hi s (m s) \<Longrightarrow> confined mem lo hi s (map_err g m s)"
  by (auto simp: confined_def map_err_def split: sum.splits)

lemma confined_intros:
  assumes "rom_contract enc R mem page"
  shows "confined mem lo hi s (Some (x, s))"
    and "confined mem lo hi s (ok_or e v s)" and "confined mem lo hi s (guard_err c e s)"
    and "confined mem lo hi s (map_err g (hw_result (rom_unlock R)) s)"
    and "confined mem lo hi s (invalidate_physical_range R a n s)"
    and "confined mem lo hi s (rust_ok u s)"
proof -
  obtain u g' where "rom_unlock R (fe_hw s) = (u, g')" by (meson surj_pair)
  moreover from rom_contractD(6) [OF assms this] have "mem g' = mem (fe_hw s)" by simp
  ultimately show "confined mem lo hi s (map_err g (hw_result (rom_unlock R)) s)"
    by (auto simp: confined_def map_err_def hw_result_def on_hw_def split: prod.splits sum.splits)
  show "confined mem lo hi s (invalidate_physical_range R a n s)"
    by (auto simp: confined_def invalidate_physical_range_def ok_or_def rust_err_def rust_ok_def
        rom_contractD [OF assms] try_then_def split: option.splits)
qed (auto simp: confined_def ok_or_def guard_err_def rust_err_def rust_ok_def split: option.splits)

lemma write_blocks_confined:
  assumes C: "rom_contract enc R mem page" and "\<forall>c \<in> set cs. length c \<le> 32"
    and "unat a + i * 32 + length cs * 32 \<le> hi" and "hi \<le> 2 ^ 32"
  shows "confined mem (unat a) hi s (write_blocks R a i cs s)"
  using assms(2,3)
proof (induction cs arbitrary: i s)
  case Nil
  show ?case by (simp add: confined_intros(1) [OF C])
next
  case (Cons c cs)
  let ?b = "a + of_nat (i * 32)"
  have lt: "unat a + i * 32 < 2 ^ 32" using Cons.prems(2) assms(4) by simp
  then have ui: "unat (of_nat (i * 32) :: u32) = i * 32" by (simp add: unat_of_nat take_bit_nat_eq_self del: of_nat_mult)
  then have add: "checked_add a (of_nat (i * 32)) = Some ?b" and ub: "unat ?b = unat a + i * 32"
    using lt by (simp_all add: unat_word_ariths)
  obtain r f where w: "rom_write_encrypted R (fe_hw s) ?b c = (r, f)" by (meson surj_pair)
  have f: "only_within mem (unat a) hi (fe_hw s) f"
    by (rule only_within_mono [OF rom_mutation_range(3) [OF C, of ?b c "fe_hw s", unfolded w snd_conv]])
      (use Cons.prems ub in auto)
  have IH: "confined mem (unat a) hi (s\<lparr>fe_hw := f\<rparr>) (write_blocks R a (Suc i) cs (s\<lparr>fe_hw := f\<rparr>))"
    by (rule Cons.IH) (use Cons.prems in auto)
  show ?case
  proof (cases "r = 0")
    case True
    then have "write_blocks R a i (c # cs) s = write_blocks R a (Suc i) cs (s\<lparr>fe_hw := f\<rparr>)"
      using add w by (simp add: on_hw_def)
    with IH f show ?thesis by (auto simp: confined_def intro: only_within_trans)
  next
    case False
    then have "write_blocks R a i (c # cs) s = Some (Inl (FE_WriteFailed r), s\<lparr>fe_hw := f\<rparr>)"
      using add w by (simp add: on_hw_def)
    with f show ?thesis by (simp add: confined_def)
  qed
qed

lemma erase_sectors_confined:
  assumes C: "rom_contract enc R mem page"
    and "\<forall>a \<in> set as. lo \<le> unat a div 0x1000 * 0x1000 \<and> unat a div 0x1000 * 0x1000 + 0x1000 \<le> hi"
  shows "confined mem lo hi s (erase_sectors R g as s)"
  using assms(2)
proof (induction as arbitrary: s)
  case Nil
  show ?case by (simp add: confined_intros(1) [OF C])
next
  case (Cons a as)
  obtain r f where e: "rom_erase_sector R (fe_hw s) (a div 0x1000) = (r, f)" by (meson surj_pair)
  have "only_within mem lo hi (fe_hw s) f"
    by (rule only_within_mono [OF rom_mutation_range(1) [OF C, of "a div 0x1000" "fe_hw s", unfolded e snd_conv]])
      (use Cons.prems in \<open>auto simp: unat_div\<close>)
  then have "confined mem lo hi s (map_err g (hw_result (\<lambda>f. rom_erase_sector R f (a div 0x1000))) s)"
    by (auto simp: confined_def map_err_def hw_result_def on_hw_def e split: sum.splits)
  then show ?case
    unfolding erase_sectors.simps by (rule confined_try_then) (use Cons in auto)
qed

lemma sector_addresses_bounds:
  assumes "a' \<in> set (sector_addresses a e)" and "unat a mod 0x1000 = 0" and "unat e mod 0x1000 = 0"
  shows "unat a \<le> unat a' div 0x1000 * 0x1000" and "unat a' div 0x1000 * 0x1000 + 0x1000 \<le> unat e"
proof -
  have "a' \<in> (\<lambda>i. a + of_nat (i * 0x1000)) ` {0..<(unat e - unat a + 0xfff) div 0x1000}"
    using assms(1) by (simp add: sector_addresses_def)
  then obtain i where i: "i < (unat e - unat a + 0xfff) div 0x1000" and a': "a' = a + of_nat (i * 0x1000)"
    by (meson atLeastLessThan_iff imageE)
  obtain k l where k: "unat a = k * 0x1000" and l: "unat e = l * 0x1000"
    using assms(2,3) by (metis add_0_right div_mult_mod_eq)
  have "(unat e - unat a + 0xfff) div 0x1000 = l - k"
    unfolding k l by (simp add: diff_mult_distrib [symmetric])
  with i have il: "k + i < l" by simp
  then have "(k + i) * 0x1000 < 2 ^ 32" using unsigned_less [of e, where 'a = nat] l by simp
  then have "unat (of_nat (i * 0x1000) :: u32) = i * 0x1000"
    by (simp add: unat_of_nat take_bit_nat_eq_self del: of_nat_mult)
  then have u: "unat a' = (k + i) * 0x1000"
    using \<open>(k + i) * 0x1000 < 2 ^ 32\<close> by (simp add: a' unat_word_ariths k distrib_right del: of_nat_mult)
  show "unat a \<le> unat a' div 0x1000 * 0x1000" using u k by simp
  show "unat a' div 0x1000 * 0x1000 + 0x1000 \<le> unat e" using u l il by simp
qed

lemma write_inner_confined:
  assumes C: "rom_contract enc R mem page" and "unat a + length d \<le> 2 ^ 32"
  shows "confined mem (unat a) (unat a + length d) s (write_inner R a d flag s)"
proof (cases "fe_initialized s")
  case True
  note base = confined_intros [OF C]
  have "confined mem (unat a) (unat a + length d) t (write_blocks R a 0 (chunks 32 d) t)"
    if "encrypted_write_is_aligned a (length d)" for t
    by (rule write_blocks_confined [OF C])
      (use that assms(2) length_chunks [of 32 d] length_in_chunks [of 32 _ d]
        in \<open>auto simp: encrypted_write_is_aligned_def\<close>)
  with True show ?thesis
    by (auto simp: write_inner_def guard_err_def rust_err_def intro!: confined_try_then base
        split: if_splits)
qed (simp add: write_inner_def confined_intros(1) [OF C])

lemma sector_aligned: "w mod 0x1000 = 0 \<Longrightarrow> unat (w :: u32) mod 0x1000 = 0"
proof -
  assume "w mod 0x1000 = 0"
  then have "unat w mod unat (0x1000 :: u32) = 0" unfolding unat_mod [symmetric] by simp
  then show ?thesis by simp
qed

lemma erase_inner_confined:
  assumes C: "rom_contract enc R mem page" and n: "unat a + n < 2 ^ 32"
  shows "confined mem (unat a) (unat a + n) s (erase_inner R a n flag s)"
proof (cases "fe_initialized s \<and> a mod 0x1000 = 0 \<and> n mod 0x1000 = 0")
  case False
  then show ?thesis
    using confined_intros(1) [OF C] by (auto simp: erase_inner_def)
next
  case True
  note base = confined_intros [OF C]
  let ?e = "a + of_nat n"
  have un: "unat (of_nat n :: u32) = n" using n by (simp add: unat_of_nat take_bit_nat_eq_self)
  have tf: "u32_try_from n = Some (of_nat n)" "checked_add a (of_nat n) = Some ?e"
    using n un by (simp_all add: u32_try_from_def)
  have e: "unat ?e = unat a + n" using n un by (simp add: unat_word_ariths)
  have a: "unat a mod 0x1000 = 0" using True by (intro sector_aligned) argo
  have "(unat a + n) mod 0x1000 = (unat a mod 0x1000 + n mod 0x1000) mod 0x1000" by (rule mod_add_eq [symmetric])
  then have e0: "unat ?e mod 0x1000 = 0" using True by (simp add: e a)
  have erase: "confined mem (unat a) (unat a + n) t (erase_sectors R FE_EraseFailed (sector_addresses a ?e) t)" for t
    by (intro erase_sectors_confined [OF C] ballI conjI)
      (erule sector_addresses_bounds [OF _ a e0, unfolded e])+
  have "confined mem (unat a) (unat a + n) s (try_then (map_err FE_UnlockFailed (hw_result (rom_unlock R))) (\<lambda>_.
      try_then (erase_sectors R FE_EraseFailed (sector_addresses a ?e)) (\<lambda>_.
      if flag then invalidate_physical_range R a n else rust_ok ())) s)"
    by (intro confined_try_then base(4) erase) (simp add: base(5,6))
  with True tf show ?thesis by (simp add: erase_inner_def)
qed

lemma find_map_Some: "find_map f xs = Some y \<Longrightarrow> \<exists>x \<in> set xs. f x = Some y"
  by (induction xs) (auto split: option.splits)

lemma mapped_virtual_address_bounds:
  assumes "mapped_virtual_address a n = Some v"
  shows "unat RESERVED_DROM_START \<le> unat v" and "unat v + n \<le> unat RESERVED_DROM_END"
    and "\<exists>m \<in> set MAPPINGS. unat (mp_physical_start m) \<le> unat a
      \<and> unat a + n \<le> unat (mp_physical_start m) + unat (mp_size m)
      \<and> unat v = unat (mp_virtual_start m) + (unat a - unat (mp_physical_start m))"
proof -
  obtain e where e: "checked_add a (of_nat n) = Some e" and n: "n < 2 ^ 32"
    and f: "find_map (\<lambda>m. case physical_range m of (lo, hi) \<Rightarrow>
       if lo \<le> a \<and> e \<le> hi then checked_add (mp_virtual_start m) (a - mp_physical_start m) else None) MAPPINGS = Some v"
    using assms by (auto simp: mapped_virtual_address_def u32_try_from_def split: if_splits bind_splits)
  have ue: "unat e = unat a + n" using checked_add_SomeD [OF e] n by (simp add: unat_of_nat take_bit_nat_eq_self)
  obtain m where m: "m \<in> set MAPPINGS" and lo: "mp_physical_start m \<le> a"
    and hi: "e \<le> mp_physical_start m + mp_size m"
    and v: "checked_add (mp_virtual_start m) (a - mp_physical_start m) = Some v"
    using find_map_Some [OF f] by (auto simp: physical_range_def split: if_splits)
  have uv: "unat v = unat (mp_virtual_start m) + (unat a - unat (mp_physical_start m))"
    using checked_add_SomeD [OF v] lo by (simp add: unat_sub)
  have end_m: "unat (mp_physical_start m + mp_size m) = unat (mp_physical_start m) + unat (mp_size m)"
    "unat RESERVED_DROM_START \<le> unat (mp_virtual_start m)"
    "unat (mp_virtual_start m) + unat (mp_size m) \<le> unat RESERVED_DROM_END"
    using m by (auto simp: MAPPINGS_def OTADATA_MAPPING_def OTA0_DESCRIPTOR_MAPPING_def
        OTA1_DESCRIPTOR_MAPPING_def FIDO_STORE_MAPPING_def mapping_new_def MMU_PAGE_SIZE_def
        RESERVED_DROM_START_def RESERVED_DROM_END_def)
  show "\<exists>m \<in> set MAPPINGS. unat (mp_physical_start m) \<le> unat a
      \<and> unat a + n \<le> unat (mp_physical_start m) + unat (mp_size m)
      \<and> unat v = unat (mp_virtual_start m) + (unat a - unat (mp_physical_start m))"
    using m lo hi uv ue end_m(1) by (auto simp: word_le_nat_alt)
  show "unat RESERVED_DROM_START \<le> unat v" "unat v + n \<le> unat RESERVED_DROM_END"
    using lo hi uv ue end_m by (auto simp: word_le_nat_alt)
qed

section \<open>An example device\<close>

text \<open>A device with a flat memory, a page table and no failures.\<close>

record ram_hw =
  rh_mem :: "nat \<Rightarrow> u8"
  rh_page :: "u32 \<Rightarrow> u32 option"

definition ram_rom :: "ram_hw rom" where
  "ram_rom = \<lparr>rom_unlock = \<lambda>f. (Inr (), f),
     rom_spi_read = \<lambda>f a n. (Inr (map (\<lambda>i. rh_mem f (unat a + i)) [0..<n]), f),
     rom_erase_sector = \<lambda>f k. (Inr (), f\<lparr>rh_mem := \<lambda>a.
        if unat k * 0x1000 \<le> a \<and> a < unat k * 0x1000 + 0x1000 then 0xff else rh_mem f a\<rparr>),
     rom_spi_write = \<lambda>f a d. (Inr (), f\<lparr>rh_mem := \<lambda>x.
        if unat a \<le> x \<and> x < unat a + length d then rh_mem f x AND d ! (x - unat a) else rh_mem f x\<rparr>),
     rom_write_encrypted = \<lambda>f a d. (0, f\<lparr>rh_mem := \<lambda>x.
        if unat a \<le> x \<and> x < unat a + length d then rh_mem f x AND d ! (x - unat a) else rh_mem f x\<rparr>),
     rom_cache_disable = \<lambda>f. (0, f), rom_cache_enable = \<lambda>f w. f,
     rom_mmu_set = \<lambda>f e v p k n x. (0, f\<lparr>rh_page := (rh_page f)(v \<mapsto> p)\<rparr>),
     rom_invalidate = \<lambda>f a n. f,
     rom_load = \<lambda>f v n. (let base = v AND NOT (MMU_PAGE_SIZE - 1) in
        map (\<lambda>i. rh_mem f (unat (the (rh_page f base)) + unat (v - base) + i)) [0..<n]),
     rom_register = \<lambda>f a. 0x8002, rom_encryption_fuse = \<lambda>f. True,
     rom_clock_ms = \<lambda>f. (0, f), rom_rsa_pss_verify = \<lambda>m e r d sg dig. (True, dig)\<rparr>"

lemma page_base:
  assumes "unat v mod 0x10000 = 0" and "off < 0x10000"
  shows "(v + of_nat off) AND NOT (MMU_PAGE_SIZE - 1) = v"
    and "unat (v + of_nat off - v) = off"
proof -
  have uo: "unat (of_nat off :: u32) = off" using assms(2) by (simp add: unat_of_nat take_bit_nat_eq_self)
  then show "unat (v + of_nat off - v) = off" by simp
  obtain k where k: "unat v = k * 0x10000" using assms(1) by (metis add_0_right div_mult_mod_eq)
  then have "k < 0x10000" using unsigned_less [of v, where 'a = nat] by simp
  then have "unat (v + of_nat off) = k * 0x10000 + off"
    using k uo assms(2) by (simp add: unat_word_ariths)
  then have "unat ((v + of_nat off) AND NOT (MMU_PAGE_SIZE - 1)) = unat v"
    unfolding unat_page using k assms(2) by simp
  then show "(v + of_nat off) AND NOT (MMU_PAGE_SIZE - 1) = v" by (metis word_eq_iff_unsigned)
qed

lemma ram_rom_contract: "rom_contract enc ram_rom rh_mem rh_page"
proof -
  have "rom_load ram_rom f (v + of_nat off) n = map (\<lambda>i. rh_mem f (unat p + off + i)) [0..<n]"
    if "rh_page f v = Some p" "unat v mod 0x10000 = 0" "off + n \<le> 0x10000" for f v p off n
  proof (cases "n = 0")
    case False
    then have "off < 0x10000" using that(3) by simp
    from page_base [OF that(2) this] that(1) show ?thesis by (simp add: ram_rom_def Let_def)
  qed (simp add: ram_rom_def Let_def)
  then show ?thesis
    by (simp add: rom_contract_def memory_law_def mmu_law_def rom_quiet_def)
      (auto simp: ram_rom_def Let_def)
qed

section \<open>Properties\<close>



text \<open>
  Encrypted writes and erases stay in their range: whatever fails, bytes outside the
  addressed range keep their value and the call does not panic.
\<close>

theorem encrypted_mutations_confined:
  assumes "rom_contract enc R mem page" and "unat address + length data < 2 ^ 32"
  shows "confined mem (unat address) (unat address + length data) s (write_inner R address data flag s)
    \<and> confined mem (unat address) (unat address + length data) s (erase_inner R address (length data) flag s)"
  using write_inner_confined [OF assms(1), of address data s flag]
    erase_inner_confined [OF assms, of s flag] assms(2) by simp

theorem encrypted_mutations_confined_witness:
  "confined rh_mem (unat (0x3e0000 :: u32)) (unat (0x3e0000 :: u32) + length (replicate 64 (7 :: u8)))
      \<lparr>fe_initialized = True, fe_hw = \<lparr>rh_mem = \<lambda>_. 0xff, rh_page = \<lambda>_. None\<rparr>\<rparr>
      (write_inner ram_rom 0x3e0000 (replicate 64 7) True
        \<lparr>fe_initialized = True, fe_hw = \<lparr>rh_mem = \<lambda>_. 0xff, rh_page = \<lambda>_. None\<rparr>\<rparr>)
   \<and> confined rh_mem (unat (0x3e0000 :: u32)) (unat (0x3e0000 :: u32) + length (replicate 64 (7 :: u8)))
      \<lparr>fe_initialized = True, fe_hw = \<lparr>rh_mem = \<lambda>_. 0xff, rh_page = \<lambda>_. None\<rparr>\<rparr>
      (erase_inner ram_rom 0x3e0000 (length (replicate 64 (7 :: u8))) True
        \<lparr>fe_initialized = True, fe_hw = \<lparr>rh_mem = \<lambda>_. 0xff, rh_page = \<lambda>_. None\<rparr>\<rparr>)"
  by (rule encrypted_mutations_confined [OF ram_rom_contract]) simp

text \<open>
  Every address the fixed mappings translate to lies in the reserved cache window, with the
  whole range inside one mapping and at the same distance from its start.
\<close>

theorem mapped_addresses_reserved:
  assumes "mapped_virtual_address address n = Some v"
  shows "unat RESERVED_DROM_START \<le> unat v \<and> unat v + n \<le> unat RESERVED_DROM_END
    \<and> list_ex (\<lambda>m. unat (mp_physical_start m) \<le> unat address
         \<and> unat address + n \<le> unat (mp_physical_start m) + unat (mp_size m)
         \<and> unat v = unat (mp_virtual_start m) + (unat address - unat (mp_physical_start m))) MAPPINGS"
  using mapped_virtual_address_bounds [OF assms] by (simp add: list_ex_iff)

theorem mapped_addresses_reserved_witness:
  "unat RESERVED_DROM_START \<le> unat (0x3f39f000 :: u32) \<and> unat (0x3f39f000 :: u32) + 32 \<le> unat RESERVED_DROM_END
    \<and> list_ex (\<lambda>m. unat (mp_physical_start m) \<le> unat (0xf000 :: u32)
         \<and> unat (0xf000 :: u32) + 32 \<le> unat (mp_physical_start m) + unat (mp_size m)
         \<and> unat (0x3f39f000 :: u32) = unat (mp_virtual_start m) + (unat (0xf000 :: u32) - unat (mp_physical_start m))) MAPPINGS"
  by (rule mapped_addresses_reserved)
    (simp add: mapped_virtual_address_def u32_try_from_def MAPPINGS_def OTADATA_MAPPING_def
      mapping_new_def physical_range_def)

end
