(* ===== verification/Signed_Image.thy ===== *)
theory Signed_Image
  imports Salpa_Prelude
begin

text \<open>
  \<^verbatim>\<open>src/signed_image.rs\<close>: parsing of ESP32-S2 application images and Secure Boot V2
  signature blocks, and the read-only verification of an installed slot.

  The trait \<^verbatim>\<open>ImageReader\<close> is the record \<open>image_reader\<close> of state-passing functions over
  a device \<^typ>\<open>'b\<close>; the value of a failed call is never inspected and is \<^term>\<open>None\<close>.
  SHA-256 (the crate \<^verbatim>\<open>sha2\<close>) is the record \<open>sha256\<close> of its three functions, and what
  the code relies on, that hashing by pieces is hashing the concatenation, is the hypothesis
  \<open>sha_contract\<close>. RSA-PSS is the reader's second function.
\<close>

section \<open>Constants and types\<close>

definition OTA_SLOT_SIZE :: u32 where "OTA_SLOT_SIZE = 0x1e0000"
definition SIGNATURE_SECTOR_SIZE :: u32 where "SIGNATURE_SECTOR_SIZE = 0x1000"
definition SIGNATURE_BLOCK_SIZE :: nat where "SIGNATURE_BLOCK_SIZE = 1216"
definition SIGNATURE_CRC_LENGTH :: nat where "SIGNATURE_CRC_LENGTH = 1196"
definition RSA_PUBLIC_KEY_SIZE :: nat where "RSA_PUBLIC_KEY_SIZE = 776"
definition RSA_SIGNATURE_SIZE :: nat where "RSA_SIGNATURE_SIZE = 384"
definition MAX_VERSION_LENGTH :: nat where "MAX_VERSION_LENGTH = 31"
definition ESP_IMAGE_MAGIC :: u8 where "ESP_IMAGE_MAGIC = 0xe9"
definition ESP32S2_CHIP_ID :: u16 where "ESP32S2_CHIP_ID = 2"
definition ESP_APP_DESCRIPTOR_MAGIC :: u32 where "ESP_APP_DESCRIPTOR_MAGIC = 0xabcd5432"
definition SECURE_BOOT_V2_SIGNATURE_MAGIC :: u8 where "SECURE_BOOT_V2_SIGNATURE_MAGIC = 0xe7"
definition SECURE_BOOT_V2_RSA_VERSION :: u8 where "SECURE_BOOT_V2_RSA_VERSION = 2"
definition APP_DESCRIPTOR_OFFSET :: nat where "APP_DESCRIPTOR_OFFSET = 32"
definition APP_DESCRIPTOR_PREFIX_SIZE :: nat where "APP_DESCRIPTOR_PREFIX_SIZE = 80"
definition APP_SECURE_VERSION_OFFSET :: nat where "APP_SECURE_VERSION_OFFSET = 4"
definition APP_VERSION_OFFSET :: nat where "APP_VERSION_OFFSET = 16"

record 'b image_reader =
  ir_read :: "'b \<Rightarrow> u8 \<Rightarrow> u32 \<Rightarrow> nat \<Rightarrow> bytes option \<times> 'b"
  ir_verify_rsa_pss :: "'b \<Rightarrow> bytes \<Rightarrow> bytes \<Rightarrow> bytes \<Rightarrow> bool option \<times> 'b"

record 'h sha256 =
  sha_new :: 'h
  sha_update :: "'h \<Rightarrow> bytes \<Rightarrow> 'h"
  sha_finalize :: "'h \<Rightarrow> bytes"

definition sha_digest :: "'h sha256 \<Rightarrow> bytes \<Rightarrow> bytes" where
  "sha_digest H data = sha_finalize H (sha_update H (sha_new H) data)"

datatype installed_image_error = ImageSlot | ImageRead | ImageHeader | ImageExtent | ImageSignature

record verified_installed_image =
  vi_secure_version :: u32
  vi_signed_image_bytes :: u32
  vi_signed_content_digest :: bytes

record image_metadata =
  im_secure_version :: u32
  im_version :: bytes

record parsed_signature =
  sig_image_digest :: bytes
  sig_public_key :: bytes
  sig_signature :: bytes

section \<open>The CRC of the ESP boot ROM\<close>

definition crc_shift :: "u32 \<Rightarrow> u32" where
  "crc_shift crc = drop_bit 1 crc XOR (0xedb88320 AND (0 - (crc AND 1)))"

definition crc_byte :: "u32 \<Rightarrow> u8 \<Rightarrow> u32" where
  "crc_byte crc b = (crc_shift ^^ 8) (crc XOR ucast b)"

definition esp_crc32_le :: "u32 \<Rightarrow> bytes \<Rightarrow> u32" where
  "esp_crc32_le seed data = NOT (foldl crc_byte (NOT seed) data)"

section \<open>Parsing\<close>

text \<open>
  The arguments of the two parsers are arrays of fixed size, for which no slice of theirs
  fails, so that \<^term>\<open>None\<close> is the parser's own rejection (\<open>parse_image_metadata_iff\<close>,
  \<open>parse_signature_block_iff\<close> below).
\<close>

fun position_of :: "('a \<Rightarrow> bool) \<Rightarrow> 'a list \<Rightarrow> nat option" where
  "position_of P [] = None"
| "position_of P (x # xs) = (if P x then Some 0 else map_option Suc (position_of P xs))"

definition parse_image_metadata :: "bytes \<Rightarrow> image_metadata option" where
  "parse_image_metadata p = do {
     magic \<leftarrow> index p 0;
     segments \<leftarrow> index p 1;
     chip \<leftarrow> Option.bind (subslice p 12 14) from_le16;
     desc_magic \<leftarrow> Option.bind (subslice p APP_DESCRIPTOR_OFFSET (APP_DESCRIPTOR_OFFSET + 4)) from_le32;
     if magic \<noteq> ESP_IMAGE_MAGIC \<or> \<not> (1 \<le> segments \<and> segments \<le> 16) \<or> chip \<noteq> ESP32S2_CHIP_ID
        \<or> desc_magic \<noteq> ESP_APP_DESCRIPTOR_MAGIC
     then None
     else do {
       descriptor \<leftarrow> subslice p APP_DESCRIPTOR_OFFSET (length p);
       secure_version \<leftarrow> Option.bind
         (subslice descriptor APP_SECURE_VERSION_OFFSET (APP_SECURE_VERSION_OFFSET + 4)) from_le32;
       version_field \<leftarrow> subslice descriptor APP_VERSION_OFFSET (APP_VERSION_OFFSET + 32);
       version_length \<leftarrow> position_of (\<lambda>b. b = 0) version_field;
       if version_length = 0 \<or> MAX_VERSION_LENGTH < version_length then None
       else do {
         version \<leftarrow> subslice version_field 0 version_length;
         Some \<lparr>im_secure_version = secure_version, im_version = version\<rparr>
       }
     }
   }"

definition parse_signature_block :: "'h sha256 \<Rightarrow> bytes \<Rightarrow> bytes \<Rightarrow> parsed_signature option" where
  "parse_signature_block H block trusted_key_digest = do {
     magic \<leftarrow> index block 0;
     rsa_version \<leftarrow> index block 1;
     stored_crc \<leftarrow> Option.bind (subslice block 1196 1200) from_le32;
     covered \<leftarrow> subslice block 0 SIGNATURE_CRC_LENGTH;
     if magic \<noteq> SECURE_BOOT_V2_SIGNATURE_MAGIC \<or> rsa_version \<noteq> SECURE_BOOT_V2_RSA_VERSION
        \<or> stored_crc \<noteq> esp_crc32_le 0 covered
     then None
     else do {
       image_digest \<leftarrow> subslice block 4 36;
       public_key \<leftarrow> subslice block 36 812;
       if sha_digest H public_key \<noteq> trusted_key_digest then None
       else do {
         signature \<leftarrow> subslice block 812 1196;
         Some \<lparr>sig_image_digest = image_digest, sig_public_key = public_key,
               sig_signature = signature\<rparr>
       }
     }
   }"

section \<open>Verification of an installed slot\<close>

definition read_image ::
  "('b, 'z) image_reader_scheme \<Rightarrow> u8 \<Rightarrow> u32 \<Rightarrow> nat \<Rightarrow> ('b, installed_image_error, bytes) rust" where
  "read_image R slot offset n b = (case ir_read R b slot offset n of
       (None, b') \<Rightarrow> Some (Inl ImageRead, b')
     | (Some bs, b') \<Rightarrow> Some (Inr bs, b'))"

text \<open>The end of a segment: \<^verbatim>\<open>checked_add(8)\<close>, \<^verbatim>\<open>checked_add(length)\<close> and the bound.\<close>

definition next_position :: "u32 \<Rightarrow> u32 \<Rightarrow> u32 option" where
  "next_position position len = do {
     p \<leftarrow> checked_add position 8;
     p \<leftarrow> checked_add p len;
     if p \<le> OTA_SLOT_SIZE - SIGNATURE_SECTOR_SIZE - 48 then Some p else None
   }"

fun scan_segments ::
  "('b, 'z) image_reader_scheme \<Rightarrow> u8 \<Rightarrow> nat list \<Rightarrow> u32 \<Rightarrow> ('b, installed_image_error, u32) rust"
where
  "scan_segments R slot [] position = rust_ok position"
| "scan_segments R slot (segment # segments) position =
     try_then (read_image R slot position 8) (\<lambda>header.
     try_then (or_panic (Option.bind (subslice header 4 8) from_le32)) (\<lambda>len.
     try_then (guard_err (segment = 0
         \<and> len < of_nat APP_DESCRIPTOR_PREFIX_SIZE - of_nat APP_DESCRIPTOR_OFFSET) ImageHeader) (\<lambda>_.
     try_then (ok_or ImageExtent (next_position position len)) (\<lambda>position.
     scan_segments R slot segments position))))"

text \<open>Where the signature sector starts, from the end of the last segment.\<close>

definition signature_offset_of :: "u32 \<Rightarrow> u32 option" where
  "signature_offset_of position = do {
     trailer_end \<leftarrow> checked_add (position OR 15) 33;
     value \<leftarrow> checked_add trailer_end (SIGNATURE_SECTOR_SIZE - 1);
     let value = value AND NOT (SIGNATURE_SECTOR_SIZE - 1);
     if SIGNATURE_SECTOR_SIZE \<le> value \<and> value \<le> OTA_SLOT_SIZE - SIGNATURE_SECTOR_SIZE
     then Some value else None
   }"

text \<open>The \<^verbatim>\<open>while offset < signature_offset\<close> loop over 1024-byte chunks.\<close>

function hash_image ::
  "('b, 'z) image_reader_scheme \<Rightarrow> 'h sha256 \<Rightarrow> u8 \<Rightarrow> u32 \<Rightarrow> u32 \<Rightarrow> 'h \<Rightarrow>
   ('b, installed_image_error, 'h) rust" where
  "hash_image R H slot signature_offset offset hasher b =
     (if offset < signature_offset then
        let len = min (signature_offset - offset) 1024 in
        case ir_read R b slot offset (unat len) of
          (None, b') \<Rightarrow> Some (Inl ImageRead, b')
        | (Some chunk, b') \<Rightarrow>
            (case checked_add offset len of
               None \<Rightarrow> None
             | Some offset' \<Rightarrow>
                 hash_image R H slot signature_offset offset' (sha_update H hasher chunk) b')
      else Some (Inr hasher, b))"
  by pat_completeness auto
termination
proof (relation "measure (\<lambda>(R, H, slot, e, off, h, b). unat e - unat off)", goal_cases)
  case (2 R H slot e off h b len res b' chunk off')
  then have "unat off' = unat off + unat len" by (auto dest: checked_add_SomeD)
  moreover have "0 < unat len"
    using 2 by (auto simp: min_def unat_gt_0 word_less_nat_alt)
  ultimately show ?case using 2(1) by (auto simp: word_less_nat_alt)
qed simp

declare hash_image.simps [simp del]

text \<open>The second half of \<^verbatim>\<open>verify_installed_slot\<close>: hash, signature block, signature.\<close>

definition authenticate_content ::
  "('b, 'z) image_reader_scheme \<Rightarrow> 'h sha256 \<Rightarrow> u8 \<Rightarrow> bytes \<Rightarrow> u32 \<Rightarrow> u32 \<Rightarrow>
   ('b, installed_image_error, verified_installed_image) rust" where
  "authenticate_content R H slot trusted_key_digest secure_version signature_offset =
     try_then (hash_image R H slot signature_offset 0 (sha_new H)) (\<lambda>hasher.
     try_then (read_image R slot signature_offset SIGNATURE_BLOCK_SIZE) (\<lambda>block.
     try_then (ok_or ImageSignature (parse_signature_block H block trusted_key_digest)) (\<lambda>signature.
     try_then (guard_err (sig_image_digest signature \<noteq> sha_finalize H hasher) ImageSignature) (\<lambda>_.
     try_then (\<lambda>b. case ir_verify_rsa_pss R b (sig_public_key signature) (sig_signature signature)
           (sha_finalize H hasher) of
         (None, b') \<Rightarrow> Some (Inl ImageSignature, b')
       | (Some valid, b') \<Rightarrow> Some (if valid then Inr () else Inl ImageSignature, b')) (\<lambda>_.
     try_then (or_panic (checked_add signature_offset SIGNATURE_SECTOR_SIZE)) (\<lambda>total.
     rust_ok \<lparr>vi_secure_version = secure_version, vi_signed_image_bytes = total,
         vi_signed_content_digest = sha_finalize H hasher\<rparr>))))))"

definition verify_installed_slot ::
  "('b, 'z) image_reader_scheme \<Rightarrow> 'h sha256 \<Rightarrow> u8 \<Rightarrow> bytes \<Rightarrow>
   ('b, installed_image_error, verified_installed_image) rust" where
  "verify_installed_slot R H slot trusted_key_digest =
     try_then (guard_err (1 < slot) ImageSlot) (\<lambda>_.
     try_then (read_image R slot 0 APP_DESCRIPTOR_PREFIX_SIZE) (\<lambda>prefix.
     try_then (ok_or ImageHeader (parse_image_metadata prefix)) (\<lambda>metadata.
     try_then (or_panic (index prefix 23)) (\<lambda>hash_appended.
     try_then (guard_err (hash_appended \<noteq> 1 \<or> 16 < im_secure_version metadata) ImageHeader) (\<lambda>_.
     try_then (or_panic (index prefix 1)) (\<lambda>segment_count.
     try_then (scan_segments R slot [0..<unat segment_count] 24) (\<lambda>position.
     try_then (ok_or ImageExtent (signature_offset_of position)) (\<lambda>signature_offset.
     authenticate_content R H slot trusted_key_digest (im_secure_version metadata) signature_offset))))))))"

section \<open>What the verification promises\<close>

text \<open>
  The hypotheses on the device. \<open>content b slot\<close> is what the device state \<open>b\<close> stores in a
  slot. A \<open>faithful_reader\<close> may fail, but a successful read returns the stored bytes and no
  call changes them; an accepted or refused signature is the verdict of \<open>rsa\<close>. An
  \<open>infallible_reader\<close> fails only where the range lies outside the slot.
\<close>

definition faithful_reader ::
  "('b, 'z) image_reader_scheme \<Rightarrow> ('b \<Rightarrow> u8 \<Rightarrow> bytes) \<Rightarrow> (bytes \<Rightarrow> bytes \<Rightarrow> bytes \<Rightarrow> bool) \<Rightarrow> bool" where
  "faithful_reader R content rsa \<longleftrightarrow>
     (\<forall>b slot off n. content (snd (ir_read R b slot off n)) = content b
        \<and> (\<forall>bs. fst (ir_read R b slot off n) = Some bs
             \<longrightarrow> subslice (content b slot) (unat off) (unat off + n) = Some bs))
   \<and> (\<forall>b pk sg d. content (snd (ir_verify_rsa_pss R b pk sg d)) = content b
        \<and> (\<forall>v. fst (ir_verify_rsa_pss R b pk sg d) = Some v \<longrightarrow> v = rsa pk sg d))"

definition infallible_reader ::
  "('b, 'z) image_reader_scheme \<Rightarrow> ('b \<Rightarrow> u8 \<Rightarrow> bytes) \<Rightarrow> (bytes \<Rightarrow> bytes \<Rightarrow> bytes \<Rightarrow> bool) \<Rightarrow> bool" where
  "infallible_reader R content rsa \<longleftrightarrow> faithful_reader R content rsa
   \<and> (\<forall>b slot off n. fst (ir_read R b slot off n) = subslice (content b slot) (unat off) (unat off + n))
   \<and> (\<forall>b pk sg d. fst (ir_verify_rsa_pss R b pk sg d) = Some (rsa pk sg d))"

definition good_reader ::
  "bool \<Rightarrow> ('b, 'z) image_reader_scheme \<Rightarrow> ('b \<Rightarrow> u8 \<Rightarrow> bytes) \<Rightarrow> (bytes \<Rightarrow> bytes \<Rightarrow> bytes \<Rightarrow> bool) \<Rightarrow> bool"
where
  "good_reader fails R content rsa =
     (if fails then faithful_reader R content rsa else infallible_reader R content rsa)"

text \<open>Hashing by pieces is hashing the concatenation: the documented contract of \<^verbatim>\<open>Digest\<close>.\<close>

definition sha_contract :: "'h sha256 \<Rightarrow> bool" where
  "sha_contract H \<longleftrightarrow> (\<forall>chunks. sha_finalize H (foldl (sha_update H) (sha_new H) chunks)
     = sha_digest H (concat chunks))"

text \<open>
  The specification works on the whole slot content at once: the segment table of the image
  fixes where the signature sector starts, and everything before it is hashed as one string.
\<close>

fun segments_end :: "bytes \<Rightarrow> nat list \<Rightarrow> u32 \<Rightarrow> installed_image_error + u32" where
  "segments_end img [] p = Inr p"
| "segments_end img (k # ks) p =
     (case Option.bind (subslice img (unat p) (unat p + 8)) (\<lambda>h. from_le32 (drop 4 h)) of
        None \<Rightarrow> Inl ImageRead
      | Some len \<Rightarrow>
          if k = 0 \<and> len < 48 then Inl ImageHeader
          else (case next_position p len of
                  None \<Rightarrow> Inl ImageExtent
                | Some p' \<Rightarrow> segments_end img ks p'))"

definition signature_spec ::
  "'h sha256 \<Rightarrow> (bytes \<Rightarrow> bytes \<Rightarrow> bytes \<Rightarrow> bool) \<Rightarrow> bytes \<Rightarrow> bytes \<Rightarrow> u32 \<Rightarrow> u32 \<Rightarrow>
   installed_image_error + verified_installed_image" where
  "signature_spec H rsa key img version off =
     (if length img < unat off then Inl ImageRead
      else case subslice img (unat off) (unat off + SIGNATURE_BLOCK_SIZE) of
        None \<Rightarrow> Inl ImageRead
      | Some block \<Rightarrow>
          (case parse_signature_block H block key of
             None \<Rightarrow> Inl ImageSignature
           | Some sg \<Rightarrow>
               let digest = sha_digest H (take (unat off) img) in
               if sig_image_digest sg = digest \<and> rsa (sig_public_key sg) (sig_signature sg) digest
               then Inr \<lparr>vi_secure_version = version,
                         vi_signed_image_bytes = off + SIGNATURE_SECTOR_SIZE,
                         vi_signed_content_digest = digest\<rparr>
               else Inl ImageSignature))"

definition installed_spec ::
  "'h sha256 \<Rightarrow> (bytes \<Rightarrow> bytes \<Rightarrow> bytes \<Rightarrow> bool) \<Rightarrow> u8 \<Rightarrow> bytes \<Rightarrow> bytes \<Rightarrow>
   installed_image_error + verified_installed_image" where
  "installed_spec H rsa slot key img =
     (if 1 < slot then Inl ImageSlot
      else if length img < 80 then Inl ImageRead
      else case parse_image_metadata (take 80 img) of
        None \<Rightarrow> Inl ImageHeader
      | Some m \<Rightarrow>
          if img ! 23 \<noteq> 1 \<or> 16 < im_secure_version m then Inl ImageHeader
          else (case segments_end img [0..<unat (img ! 1)] 24 of
                  Inl e \<Rightarrow> Inl e
                | Inr p \<Rightarrow>
                    (case signature_offset_of p of
                       None \<Rightarrow> Inl ImageExtent
                     | Some off \<Rightarrow> signature_spec H rsa key img (im_secure_version m) off)))"

section \<open>Lemmas on the CRC\<close>

lemma crc_mask: "0 - (crc AND 1) = (if bit crc 0 then - 1 else (0 :: u32))"
  by (auto simp: and_one_eq bit_0 odd_iff_mod_2_eq_one)

lemma crc_shift_top: "bit (crc_shift crc) 31 = bit crc 0"
  unfolding crc_shift_def crc_mask by (simp add: bit_simps impossible_bit)

lemma crc_shift_inject: "crc_shift a = crc_shift b \<longleftrightarrow> a = b"
proof
  assume eq: "crc_shift a = crc_shift b"
  then have low: "bit a 0 = bit b 0" by (metis crc_shift_top)
  then have "drop_bit 1 a = drop_bit 1 b"
    using eq unfolding crc_shift_def crc_mask
    by (auto simp: xor.assoc dest: arg_cong [where f = "\<lambda>x. x XOR 0xedb88320"] split: if_splits)
  then have "bit (drop_bit 1 a) n = bit (drop_bit 1 b) n" for n by simp
  then have "bit a (Suc n) = bit b (Suc n)" for n by (simp add: bit_drop_bit_eq)
  with low show "a = b" by (intro bit_word_eqI) (metis not0_implies_Suc)
qed simp

lemma crc_shift_funpow_inject: "(crc_shift ^^ n) a = (crc_shift ^^ n) b \<longleftrightarrow> a = b"
  by (induction n) (simp_all add: crc_shift_inject)

lemma xor_right_inject: "x XOR a = x XOR b \<longleftrightarrow> a = (b :: 'a::len word)"
  by (metis xor.assoc xor_self_eq xor.left_neutral)

lemma crc_byte_inject:
  "crc_byte c a = crc_byte c b \<longleftrightarrow> a = b" "crc_byte c a = crc_byte d a \<longleftrightarrow> c = d"
proof -
  show "crc_byte c a = crc_byte c b \<longleftrightarrow> a = b"
    by (simp add: crc_byte_def crc_shift_funpow_inject xor_right_inject ucast_u8_inject)
  show "crc_byte c a = crc_byte d a \<longleftrightarrow> c = d"
    by (simp add: crc_byte_def crc_shift_funpow_inject) (metis xor.commute xor_right_inject)
qed

lemma crc_fold_inject: "foldl crc_byte c xs = foldl crc_byte d xs \<longleftrightarrow> c = d"
  by (induction xs arbitrary: c d) (simp_all add: crc_byte_inject)

lemma crc_byte_unfold:
  "crc_byte c b = crc_shift (crc_shift (crc_shift (crc_shift (crc_shift (crc_shift (crc_shift
     (crc_shift (c XOR ucast b))))))))"
  by (simp add: crc_byte_def numeral_eq_Suc)

text \<open>The standard check value of this CRC, over the digits 1 to 9.\<close>

lemma esp_crc32_check_value:
  "esp_crc32_le 0 [0x31, 0x32, 0x33, 0x34, 0x35, 0x36, 0x37, 0x38, 0x39] = 0xcbf43926"
  by (simp add: esp_crc32_le_def crc_byte_unfold crc_shift_def)

text \<open>
  The shift register is linear over exclusive or, and a word whose low bits are clear just
  moves down; four bytes enter the register as one 32-bit word.
\<close>

lemma crc_shift_xor: "crc_shift (x XOR y) = crc_shift x XOR crc_shift y"
  unfolding crc_shift_def crc_mask
  by (rule bit_word_eqI) (auto simp: bit_simps)

lemma crc_shift_pow_xor: "(crc_shift ^^ n) (x XOR y) = (crc_shift ^^ n) x XOR (crc_shift ^^ n) y"
  by (induction n) (simp_all add: crc_shift_xor)

lemma crc_shift_pow_clear: "(\<And>i. i < n \<Longrightarrow> \<not> bit x i) \<Longrightarrow> (crc_shift ^^ n) x = drop_bit n x"
proof (induction n)
  case (Suc n)
  then have "(crc_shift ^^ n) x = drop_bit n x" by simp
  moreover have "\<not> bit (drop_bit n x) 0" using Suc.prems [of n] by (simp add: bit_drop_bit_eq)
  ultimately show ?case
    by (simp add: crc_shift_def [of "drop_bit n x"] crc_mask [simplified] drop_bit_drop_bit bit_0)
qed simp

lemma crc_byte_late:
  assumes "n \<le> 24"
  shows "(crc_shift ^^ n) x XOR ucast (b :: u8) = (crc_shift ^^ n) (x XOR push_bit n (ucast b))"
proof -
  have "(crc_shift ^^ n) (push_bit n (ucast b)) = drop_bit n (push_bit n (ucast b :: u32))"
    by (rule crc_shift_pow_clear) (simp add: bit_simps)
  also have "\<dots> = ucast b"
    using assms by (intro bit_word_eqI) (auto simp: bit_simps dest: bit_imp_le_length)
  finally show ?thesis by (simp add: crc_shift_pow_xor)
qed

lemma crc_byte_pow:
  "n \<le> 24 \<Longrightarrow> crc_byte ((crc_shift ^^ n) x) b = (crc_shift ^^ (8 + n)) (x XOR push_bit n (ucast b))"
  by (simp only: crc_byte_def crc_byte_late funpow_add comp_apply)

lemma crc_word: "foldl crc_byte c (to_le32 w) = (crc_shift ^^ 32) (c XOR w)"
proof -
  obtain b0 b1 b2 b3 where w: "to_le32 w = [b0, b1, b2, b3]" by (simp add: to_le32_def)
  then have "from_le32 [b0, b1, b2, b3] = Some w" by (metis from_le32_to_le32)
  then have "w = ucast b0 XOR push_bit 8 (ucast b1) XOR push_bit 16 (ucast b2) XOR push_bit 24 (ucast b3)"
    by (intro bit_word_eqI) (auto simp: bit_simps)
  then have "foldl crc_byte ((crc_shift ^^ 0) c) [b0, b1, b2, b3] = (crc_shift ^^ 32) (c XOR w)"
    by (simp only: foldl.simps crc_byte_pow) (simp add: xor.assoc)
  then show ?thesis by (simp add: w)
qed

lemma esp_crc32_le_word_inject:
  "esp_crc32_le seed (xs @ to_le32 v @ ys) = esp_crc32_le seed (xs @ to_le32 w @ ys) \<longleftrightarrow> v = w"
  by (simp add: esp_crc32_le_def crc_fold_inject crc_word crc_shift_funpow_inject xor_right_inject)

section \<open>Lemmas on the verification\<close>

lemmas image_consts = OTA_SLOT_SIZE_def SIGNATURE_SECTOR_SIZE_def SIGNATURE_BLOCK_SIZE_def
  SIGNATURE_CRC_LENGTH_def MAX_VERSION_LENGTH_def APP_DESCRIPTOR_OFFSET_def
  APP_DESCRIPTOR_PREFIX_SIZE_def APP_SECURE_VERSION_OFFSET_def APP_VERSION_OFFSET_def

lemma good_faithful: "good_reader fails R content rsa \<Longrightarrow> faithful_reader R content rsa"
  by (auto simp: good_reader_def infallible_reader_def split: if_splits)

lemma good_readD:
  assumes "good_reader fails R content rsa" and "ir_read R b slot off n = (r, b')"
  shows "content b' = content b"
    and "r = Some bs \<Longrightarrow> subslice (content b slot) (unat off) (unat off + n) = Some bs"
    and "\<not> fails \<Longrightarrow> r = subslice (content b slot) (unat off) (unat off + n)"
  using assms good_faithful [OF assms(1)]
  unfolding good_reader_def infallible_reader_def faithful_reader_def
  by (metis fst_conv snd_conv)+

lemma good_verifyD:
  assumes "good_reader fails R content rsa" and "ir_verify_rsa_pss R b pk sg d = (r, b')"
  shows "content b' = content b" and "r = Some v \<Longrightarrow> v = rsa pk sg d"
    and "\<not> fails \<Longrightarrow> r = Some (rsa pk sg d)"
  using assms good_faithful [OF assms(1)]
  unfolding good_reader_def infallible_reader_def faithful_reader_def
  by (metis fst_conv snd_conv)+

text \<open>
  \<open>refines content b fails m x\<close>: the device operation \<open>m\<close> does not panic, keeps the stored
  bytes, and returns the specified \<open>x\<close> unless (where \<open>fails\<close>) it returns an error.
\<close>

definition refines :: "('b \<Rightarrow> u8 \<Rightarrow> bytes) \<Rightarrow> bool \<Rightarrow> ('b, 'e, 'a) rust \<Rightarrow> 'b \<Rightarrow> 'e + 'a \<Rightarrow> bool" where
  "refines content fails m b x \<longleftrightarrow>
     (\<exists>r b'. m b = Some (r, b') \<and> content b' = content b \<and> (r = x \<or> fails \<and> isl r))"

lemma refines_try_then:
  assumes "refines content fails m b x"
    and "\<And>a b'. x = Inr a \<Longrightarrow> content b' = content b \<Longrightarrow> refines content fails (f a) b' (g a)"
  shows "refines content fails (try_then m f) b (case x of Inl e \<Rightarrow> Inl e | Inr a \<Rightarrow> g a)"
proof -
  obtain r b' where m: "m b = Some (r, b')" and c: "content b' = content b"
    and r: "r = x \<or> fails \<and> isl r"
    using assms(1) by (auto simp: refines_def)
  show ?thesis
  proof (cases r)
    case (Inl e)
    with m c r show ?thesis by (auto simp: refines_def try_then_def split: sum.splits)
  next
    case (Inr a)
    with r have x: "x = Inr a" by auto
    have "try_then m f b = f a b'" using m Inr by (simp add: try_then_def)
    with assms(2) [OF x c] c show ?thesis by (auto simp: refines_def x)
  qed
qed

lemma refines_cong: "refines content fails m b x \<Longrightarrow> x = y \<Longrightarrow> refines content fails m b y"
  by simp

lemma refines_guard:
  "(\<not> c \<Longrightarrow> refines content fails (f ()) b x) \<Longrightarrow>
   refines content fails (try_then (guard_err c e) f) b (if c then Inl e else x)"
  by (auto simp: refines_def)

lemma refines_ok_or:
  "(\<And>a. v = Some a \<Longrightarrow> refines content fails (f a) b (g a)) \<Longrightarrow>
   refines content fails (try_then (ok_or e v) f) b (case v of None \<Rightarrow> Inl e | Some a \<Rightarrow> g a)"
  by (cases v) (auto simp: refines_def)

lemma refines_or_panic:
  "v = Some a \<Longrightarrow> refines content fails (f a) b x \<Longrightarrow>
   refines content fails (try_then (or_panic v) f) b x"
  by (auto simp: refines_def)

lemma refines_ok: "refines content fails (rust_ok a) b (Inr a)"
  by (simp add: refines_def rust_ok_def)

definition sliced :: "bytes \<Rightarrow> u32 \<Rightarrow> nat \<Rightarrow> installed_image_error + bytes" where
  "sliced img off n = (case subslice img (unat off) (unat off + n) of
     None \<Rightarrow> Inl ImageRead | Some bs \<Rightarrow> Inr bs)"

lemma refines_read:
  assumes "good_reader fails R content rsa"
    and "content b slot = img"
  shows "refines content fails (read_image R slot off n) b (sliced img off n)"
proof -
  obtain r b' where r: "ir_read R b slot off n = (r, b')" by fastforce
  from good_readD [OF assms(1) r] assms(2) show ?thesis
    by (cases r; cases fails)
      (auto simp: refines_def read_image_def r sliced_def split: option.splits)
qed

lemma refines_scan:
  assumes "good_reader fails R content rsa"
    and "content b slot = img"
  shows "refines content fails (scan_segments R slot ks p) b (segments_end img ks p)"
  using assms(2)
proof (induction ks arbitrary: p b)
  case Nil
  then show ?case by (simp add: refines_ok)
next
  case (Cons k ks)
  let ?g = "\<lambda>len. if k = 0 \<and> len < of_nat APP_DESCRIPTOR_PREFIX_SIZE - of_nat APP_DESCRIPTOR_OFFSET
    then Inl ImageHeader
    else case next_position p len of None \<Rightarrow> Inl ImageExtent | Some p' \<Rightarrow> segments_end img ks p'"
  have "refines content fails (scan_segments R slot (k # ks) p) b
      (case sliced img p 8 of Inl e \<Rightarrow> Inl e | Inr h \<Rightarrow> ?g (the (from_le32 (drop 4 h))))"
    unfolding scan_segments.simps
  proof (rule refines_try_then [OF refines_read [OF assms(1) Cons.prems]])
    fix h b' assume h: "sliced img p 8 = Inr h" and b': "content b' = content b"
    then have len: "length h = 8" by (auto simp: sliced_def dest: subslice_length split: option.splits)
    then obtain w where "from_le32 (drop 4 h) = Some w" using le32.dec_total [of "drop 4 h"] by auto
    then have w: "Option.bind (subslice h 4 8) from_le32 = Some (the (from_le32 (drop 4 h)))"
      using len by (simp add: subslice_def)
    show "refines content fails (\<lambda>s. try_then (or_panic (Option.bind (subslice h 4 8) from_le32)) (\<lambda>len.
       try_then (guard_err (k = 0
         \<and> len < of_nat APP_DESCRIPTOR_PREFIX_SIZE - of_nat APP_DESCRIPTOR_OFFSET) ImageHeader) (\<lambda>_.
       try_then (ok_or ImageExtent (next_position p len)) (\<lambda>p. scan_segments R slot ks p))) s) b'
       (?g (the (from_le32 (drop 4 h))))"
      by (rule refines_or_panic [OF w], rule refines_guard, rule refines_ok_or, rule Cons.IH)
        (simp add: b' Cons.prems)
  qed
  moreover have "(case sliced img p 8 of Inl e \<Rightarrow> Inl e | Inr h \<Rightarrow> ?g (the (from_le32 (drop 4 h))))
      = segments_end img (k # ks) p"
  proof (cases "subslice img (unat p) (unat p + 8)")
    case (Some h)
    then have "length (drop 4 h) = 4" by (auto dest: subslice_length)
    then show ?thesis
      using le32.dec_total [of "drop 4 h"] Some by (auto simp: sliced_def image_consts)
  qed (simp add: sliced_def)
  ultimately show ?case by simp
qed

lemma refines_hash:
  assumes "good_reader fails R content rsa"
    and "content b slot = img"
  shows "refines content fails (hash_image R H slot so off h) b
    (if so \<le> off \<or> unat so \<le> length img
     then Inr (foldl (sha_update H) h (chunks 1024 (take (unat so - unat off) (drop (unat off) img))))
     else Inl ImageRead)"
  using assms(2)
proof (induction "unat so - unat off" arbitrary: off h b rule: less_induct)
  case less
  show ?case
  proof (cases "off < so")
    case False
    then have "hash_image R H slot so off h b = Some (Inr h, b)" by (simp add: hash_image.simps)
    with False show ?thesis by (simp add: refines_def not_less word_le_nat_alt)
  next
    case True
    define len where "len = min (so - off) 1024"
    have ulen: "unat len = min (unat so - unat off) 1024"
      using unat_sub [OF order.strict_implies_order [OF True]]
      by (simp add: len_def min_def word_le_nat_alt)
    have lt: "unat off < unat so" using True by (simp add: word_less_nat_alt)
    have nowrap: "unat off + unat len < 2 ^ 32" using lt unsigned_less [of so, where 'a = nat] ulen by simp
    obtain r b' where r: "ir_read R b slot off (unat len) = (r, b')" by fastforce
    note c = good_readD(1) [OF assms(1) r]
    show ?thesis
    proof (cases r)
      case None
      then have res: "hash_image R H slot so off h b = Some (Inl ImageRead, b')"
        using r True by (simp add: hash_image.simps len_def)
      have "fails \<or> length img < unat so"
        using good_readD(3) [OF assms(1) r] None less.prems lt ulen
        by (cases fails) (auto simp: subslice_def split: if_splits)
      with res c True show ?thesis by (auto simp: refines_def not_le)
    next
      case (Some chunk)
      have chunk: "subslice img (unat off) (unat off + unat len) = Some chunk"
        using good_readD(2) [OF assms(1) r Some] less.prems by simp
      have off': "unat (off + len) = unat off + unat len"
        using checked_add_SomeD [OF checked_add_Some, of off len] nowrap by simp
      have res: "hash_image R H slot so off h b = hash_image R H slot so (off + len) (sha_update H h chunk) b'"
        using r Some True nowrap by (simp add: hash_image.simps [of R H slot so off h b] len_def)
      have IH: "refines content fails (hash_image R H slot so (off + len) (sha_update H h chunk)) b'
        (if so \<le> off + len \<or> unat so \<le> length img
         then Inr (foldl (sha_update H) (sha_update H h chunk)
            (chunks 1024 (take (unat so - unat (off + len)) (drop (unat (off + len)) img))))
         else Inl ImageRead)"
        by (rule less.hyps) (use lt ulen off' c less.prems in auto)
      have chunks: "unat so \<le> length img \<Longrightarrow>
        chunks 1024 (take (unat so - unat off) (drop (unat off) img))
          = chunk # chunks 1024 (take (unat so - unat (off + len)) (drop (unat (off + len)) img))"
        using chunk lt ulen unfolding off'
        by (subst chunks.simps) (auto simp: subslice_def drop_take min_def add.commute split: if_splits)
      have bound: "so \<le> off + len \<Longrightarrow> unat so \<le> length img"
        using chunk off' by (auto simp: subslice_def word_le_nat_alt split: if_splits)
      show ?thesis
        using IH chunks bound True c by (auto simp: refines_def res split: if_splits)
    qed
  qed
qed

lemma unat_align_sector: "unat (w AND NOT 4095 :: u32) = unat w div 4096 * 4096"
proof -
  have mask: "4095 = (mask 12 :: u32)" by (simp add: mask_eq_exp_minus_1)
  show ?thesis using unat_align [of 12 w] unfolding mask by simp
qed

lemma signature_offset_bounds:
  assumes "signature_offset_of position = Some off"
  shows "unat off mod 4096 = 0" and "unat position + 33 \<le> unat off"
    and "4096 \<le> unat off" and "unat off \<le> 0x1df000"
proof -
  obtain t where t: "checked_add (position OR 15) 33 = Some t" and
    ov: "unat t + 4095 < 2 ^ 32" and off: "off = (t + 4095) AND NOT 4095"
    and lo: "4096 \<le> off" and hi: "off \<le> 0x1df000"
    using assms
    by (auto simp: signature_offset_of_def SIGNATURE_SECTOR_SIZE_def OTA_SLOT_SIZE_def
        checked_add_def Let_def split: bind_splits if_splits)
  show "4096 \<le> unat off" using lo by (simp add: word_le_nat_alt)
  show "unat off \<le> 0x1df000" using hi by (simp add: word_le_nat_alt)
  have sum: "unat (t + 4095) = unat t + 4095" using ov by (simp add: unat_word_ariths)
  have "unat off = (unat t + 4095) div 4096 * 4096" unfolding off unat_align_sector sum ..
  then show "unat off mod 4096 = 0" and ge: "unat position + 33 \<le> unat off"
    using le_word_or2 [of position 15] checked_add_SomeD [OF t] by (auto simp: word_le_nat_alt)
qed

lemma refines_verify:
  assumes "good_reader fails R content rsa"
  shows "refines content fails (\<lambda>b. case ir_verify_rsa_pss R b pk sg d of
         (None, b') \<Rightarrow> Some (Inl ImageSignature, b')
       | (Some valid, b') \<Rightarrow> Some (if valid then Inr () else Inl ImageSignature, b')) b
     (if rsa pk sg d then Inr () else Inl ImageSignature)"
proof -
  obtain r b' where r: "ir_verify_rsa_pss R b pk sg d = (r, b')" by fastforce
  note c = good_verifyD(1) [OF assms(1) r]
  show ?thesis
  proof (cases r)
    case None
    with good_verifyD(3) [OF assms(1) r] have fails by blast
    with None c show ?thesis by (simp add: refines_def r)
  next
    case (Some v)
    then have "v = rsa pk sg d" by (rule good_verifyD(2) [OF assms(1) r])
    with Some c show ?thesis by (simp add: refines_def r)
  qed
qed

lemma refines_authenticate:
  assumes "good_reader fails R content rsa" and "content b slot = img" and "sha_contract H"
    and "unat off \<le> 0x1df000"
  shows "refines content fails (authenticate_content R H slot key version off) b
    (signature_spec H rsa key img version off)"
proof -
  have total: "checked_add off SIGNATURE_SECTOR_SIZE = Some (off + SIGNATURE_SECTOR_SIZE)"
    using assms(4) by (simp add: SIGNATURE_SECTOR_SIZE_def)
  have hashed: "sha_finalize H (foldl (sha_update H) (sha_new H) (chunks 1024 xs)) = sha_digest H xs"
    for xs using assms(3) by (simp add: sha_contract_def concat_chunks)
  show ?thesis
    unfolding authenticate_content_def
    apply (rule refines_cong)
     apply (rule refines_try_then [OF refines_hash [OF assms(1,2)]])
     apply (rule refines_try_then [OF refines_read [OF assms(1)]])
      apply (simp add: assms(2))
     apply (rule refines_ok_or)
     apply (rule refines_guard)
     apply (rule refines_try_then [OF refines_verify [OF assms(1)]])
     apply (rule refines_or_panic [OF total])
     apply (rule refines_ok)
    using hashed [of "[]"] word_gt_0 [of off]
    apply (auto simp: signature_spec_def hashed sliced_def Let_def split: option.splits)
    done
qed

lemma refines_installed:
  assumes "good_reader fails R content rsa" and "sha_contract H"
  shows "refines content fails (verify_installed_slot R H slot key) b
    (installed_spec H rsa slot key (content b slot))"
proof -
  let ?img = "content b slot"
  have "refines content fails (verify_installed_slot R H slot key) b
    (if 1 < slot then Inl ImageSlot
     else case sliced ?img 0 APP_DESCRIPTOR_PREFIX_SIZE of Inl e \<Rightarrow> Inl e | Inr prefix \<Rightarrow>
     case parse_image_metadata prefix of None \<Rightarrow> Inl ImageHeader | Some m \<Rightarrow>
     if prefix ! 23 \<noteq> 1 \<or> 16 < im_secure_version m then Inl ImageHeader
     else case segments_end ?img [0..<unat (prefix ! 1)] 24 of Inl e \<Rightarrow> Inl e | Inr p \<Rightarrow>
     case signature_offset_of p of None \<Rightarrow> Inl ImageExtent | Some off \<Rightarrow>
       signature_spec H rsa key ?img (im_secure_version m) off)"
    unfolding verify_installed_slot_def
  proof (rule refines_guard, rule refines_try_then [OF refines_read [OF assms(1) refl]], rule refines_ok_or)
    fix prefix b' m
    assume "sliced ?img 0 APP_DESCRIPTOR_PREFIX_SIZE = Inr prefix" and b': "content b' = content b"
    then have len: "length prefix = 80"
      by (auto simp: sliced_def image_consts dest: subslice_length split: option.splits)
    then have ix: "index prefix 23 = Some (prefix ! 23)" "index prefix 1 = Some (prefix ! 1)"
      by (simp_all add: index_def)
    have slot: "content c slot = ?img" if "content c = content b'" for c using that b' by simp
    show "refines content fails (try_then (or_panic (index prefix 23)) (\<lambda>hash_appended.
       try_then (guard_err (hash_appended \<noteq> 1 \<or> 16 < im_secure_version m) ImageHeader) (\<lambda>_.
       try_then (or_panic (index prefix 1)) (\<lambda>segment_count.
       try_then (scan_segments R slot [0..<unat segment_count] 24) (\<lambda>position.
       try_then (ok_or ImageExtent (signature_offset_of position)) (\<lambda>off.
       authenticate_content R H slot key (im_secure_version m) off)))))) b'
      (if prefix ! 23 \<noteq> 1 \<or> 16 < im_secure_version m then Inl ImageHeader
       else case segments_end ?img [0..<unat (prefix ! 1)] 24 of Inl e \<Rightarrow> Inl e | Inr p \<Rightarrow>
       case signature_offset_of p of None \<Rightarrow> Inl ImageExtent | Some off \<Rightarrow>
       signature_spec H rsa key ?img (im_secure_version m) off)"
      by (intro refines_or_panic [OF ix(1)] refines_guard refines_or_panic [OF ix(2)]
          refines_try_then [OF refines_scan [OF assms(1) slot [OF refl]]] refines_ok_or
          refines_authenticate [OF assms(1) slot assms(2)] signature_offset_bounds)
  qed
  then show ?thesis
    by (rule refines_cong)
      (auto simp: installed_spec_def sliced_def subslice_def image_consts split: option.splits sum.splits)
qed

section \<open>An example device\<close>

text \<open>A device whose slots hold fixed bytes, and a hash that is the identity.\<close>

definition ram_reader :: "(u8 \<Rightarrow> bytes) image_reader" where
  "ram_reader = \<lparr>ir_read = \<lambda>b slot off n. (subslice (b slot) (unat off) (unat off + n), b),
     ir_verify_rsa_pss = \<lambda>b pk sg d. (Some (sg = d), b)\<rparr>"

definition plain_sha :: "bytes sha256" where
  "plain_sha = \<lparr>sha_new = [], sha_update = (@), sha_finalize = \<lambda>h. h\<rparr>"

lemma ram_reader_good: "good_reader fails ram_reader (\<lambda>b. b) (\<lambda>pk sg d. sg = d)"
  by (simp add: good_reader_def infallible_reader_def faithful_reader_def ram_reader_def)

lemma plain_sha_contract: "sha_contract plain_sha"
proof -
  have "foldl (@) h chunks = h @ concat chunks" for h :: bytes and chunks
    by (induction chunks arbitrary: h) simp_all
  then show ?thesis by (simp add: sha_contract_def sha_digest_def plain_sha_def)
qed

section \<open>Properties\<close>

text \<open>
  C14. Soundness of installed-slot verification on a device whose reads may fail: the call
  does not panic, leaves the stored bytes as they were, and either reports an error or returns
  exactly what the whole-image specification computes from the slot content, so that an
  accepted image is authenticated over every byte before its signature sector.
\<close>

theorem installed_slot_sound:
  assumes "faithful_reader R content rsa" and "sha_contract H"
  shows "\<exists>r b'. verify_installed_slot R H slot key b = Some (r, b') \<and> content b' = content b
    \<and> (r = installed_spec H rsa slot key (content b slot) \<or> isl r)"
  using refines_installed [of True R content rsa H slot key b] assms
  by (simp add: good_reader_def refines_def)

theorem installed_slot_sound_witness:
  "\<exists>r b'. verify_installed_slot ram_reader plain_sha 1 [] (\<lambda>_. replicate 100 0) = Some (r, b')
    \<and> b' = (\<lambda>_. replicate 100 0)
    \<and> (r = installed_spec plain_sha (\<lambda>pk sg d. sg = d) 1 [] (replicate 100 0) \<or> isl r)"
  by (rule installed_slot_sound [OF good_faithful [OF ram_reader_good [of True]] plain_sha_contract])

text \<open>
  C17. On a device whose reads do not fail inside a slot the streaming verifier computes
  exactly the whole-image specification, errors included.
\<close>

theorem installed_slot_refines:
  assumes "infallible_reader R content rsa" and "sha_contract H"
  shows "\<exists>b'. verify_installed_slot R H slot key b
    = Some (installed_spec H rsa slot key (content b slot), b') \<and> content b' = content b"
  using refines_installed [of False R content rsa H slot key b] assms
  by (simp add: good_reader_def refines_def)

theorem installed_slot_refines_witness:
  "\<exists>b'. verify_installed_slot ram_reader plain_sha 0 [] (\<lambda>_. [])
    = Some (installed_spec plain_sha (\<lambda>pk sg d. sg = d) 0 [] [], b') \<and> b' = (\<lambda>_. [])"
  by (rule installed_slot_refines
      [OF ram_reader_good [of False, unfolded good_reader_def if_False] plain_sha_contract])

text \<open>
  The signature sector the verifier derives from the segment table is sector-aligned,
  lies after the image trailer and inside the slot, so the length of the signed image never
  exceeds the slot.
\<close>

theorem signature_sector_in_slot:
  assumes "signature_offset_of position = Some off"
  shows "unat off mod 4096 = 0 \<and> unat position + 33 \<le> unat off \<and> 4096 \<le> unat off
    \<and> unat off + unat SIGNATURE_SECTOR_SIZE \<le> unat OTA_SLOT_SIZE"
  using signature_offset_bounds [OF assms]
  by (simp add: SIGNATURE_SECTOR_SIZE_def OTA_SLOT_SIZE_def)

theorem signature_sector_in_slot_witness:
  "unat (4096 :: u32) mod 4096 = 0 \<and> unat (1000 :: u32) + 33 \<le> unat (4096 :: u32)
    \<and> 4096 \<le> unat (4096 :: u32) \<and> unat (4096 :: u32) + unat SIGNATURE_SECTOR_SIZE \<le> unat OTA_SLOT_SIZE"
  by (rule signature_sector_in_slot)
    (simp add: signature_offset_of_def SIGNATURE_SECTOR_SIZE_def OTA_SLOT_SIZE_def checked_add_def)

text \<open>
  C38. The checksum over a signature block or a boot-selection entry detects every change that
  is confined to four consecutive bytes: two inputs that agree elsewhere have the same CRC
  exactly if those four bytes agree too.
\<close>

theorem crc_detects_word_change:
  "esp_crc32_le seed (xs @ to_le32 v @ ys) = esp_crc32_le seed (xs @ to_le32 w @ ys) \<longleftrightarrow> v = w"
  by (rule esp_crc32_le_word_inject)

end
