(* ===== verification/Usb_Update.thy ===== *)
theory Usb_Update
  imports Signed_Image
begin

text \<open>
  \<^verbatim>\<open>src/usb_update.rs\<close>: the signed A/B update protocol behind the CTAPHID vendor command
  \<^verbatim>\<open>0x51\<close>. The struct \<^verbatim>\<open>Session\<close> is the record \<open>session\<close>, \<^verbatim>\<open>UsbUpdater<B>\<close> is
  \<open>usb_updater\<close>, and the trait \<^verbatim>\<open>UpdateBackend\<close> is the record \<open>update_backend\<close> of
  state-passing functions, which extends \<open>image_reader\<close> as the trait does. The clock is read
  through the backend and may advance with every call.

  Each method is a function that returns the status code and the new updater, with
  \<^term>\<open>None\<close> for a panic; the proofs below show that none occurs.
\<close>

section \<open>Constants and types\<close>

definition VENDOR_COMMAND :: u8 where "VENDOR_COMMAND = 0x51"
definition PROTOCOL_VERSION :: u8 where "PROTOCOL_VERSION = 1"
definition MAX_WRITE_CHUNK :: nat where "MAX_WRITE_CHUNK = 992"
definition ERASE_STEP_SIZE :: u32 where "ERASE_STEP_SIZE = 0x10000"
definition VERIFY_STEP_SIZE :: u32 where "VERIFY_STEP_SIZE = 0x10000"
definition SESSION_IDLE_TIMEOUT_MS :: u64 where "SESSION_IDLE_TIMEOUT_MS = 120000"
definition SESSION_MAX_LIFETIME_MS :: u64 where "SESSION_MAX_LIFETIME_MS = 900000"

datatype operation = Op_Info | Op_Begin | Op_Write | Op_Advance | Op_Status | Op_Abort

definition operation_parse :: "u8 \<Rightarrow> operation option" where
  "operation_parse v =
     (if v = 0 then Some Op_Info else if v = 1 then Some Op_Begin else if v = 2 then Some Op_Write
      else if v = 3 then Some Op_Advance else if v = 4 then Some Op_Status
      else if v = 5 then Some Op_Abort else None)"

datatype status_code =
    St_Ok | St_UserPresenceRequired | St_InvalidRequest | St_InvalidState | St_SessionMismatch
  | St_OutOfOrder | St_ImageSize | St_Flash | St_HashMismatch | St_Signature | St_Rollback
  | St_VersionMismatch | St_ActiveSlotChanged | St_SessionExpired

fun status_number :: "status_code \<Rightarrow> u8" where
  "status_number St_Ok = 0"
| "status_number St_UserPresenceRequired = 1"
| "status_number St_InvalidRequest = 2"
| "status_number St_InvalidState = 3"
| "status_number St_SessionMismatch = 4"
| "status_number St_OutOfOrder = 5"
| "status_number St_ImageSize = 6"
| "status_number St_Flash = 7"
| "status_number St_HashMismatch = 8"
| "status_number St_Signature = 9"
| "status_number St_Rollback = 10"
| "status_number St_VersionMismatch = 11"
| "status_number St_ActiveSlotChanged = 12"
| "status_number St_SessionExpired = 13"

datatype phase = Ph_Idle | Ph_Erasing | Ph_Receiving | Ph_Verifying | Ph_Activated | Ph_Failed

fun phase_number :: "phase \<Rightarrow> u8" where
  "phase_number Ph_Idle = 0"
| "phase_number Ph_Erasing = 1"
| "phase_number Ph_Receiving = 2"
| "phase_number Ph_Verifying = 3"
| "phase_number Ph_Activated = 4"
| "phase_number Ph_Failed = 5"

record update_layout =
  ul_active_slot :: u8
  ul_active_sequence :: u32
  ul_activation_entry :: u8

record 'b update_backend = "'b image_reader" +
  ub_now_ms :: "'b \<Rightarrow> u64 \<times> 'b"
  ub_layout :: "'b \<Rightarrow> update_layout option \<times> 'b"
  ub_erase :: "'b \<Rightarrow> u8 \<Rightarrow> u32 \<Rightarrow> u32 \<Rightarrow> bool \<times> 'b"
  ub_write :: "'b \<Rightarrow> u8 \<Rightarrow> u32 \<Rightarrow> bytes \<Rightarrow> bool \<times> 'b"
  ub_activate :: "'b \<Rightarrow> u8 \<Rightarrow> u32 \<Rightarrow> u8 \<Rightarrow> bool \<times> 'b"

record 'h session =
  ss_started_ms :: u64
  ss_last_progress_ms :: u64
  ss_last_checked_ms :: u64
  ss_id :: u32
  ss_phase :: phase
  ss_target_slot :: u8
  ss_active_slot :: u8
  ss_active_sequence :: u32
  ss_activation_entry :: u8
  ss_target_sequence :: u32
  ss_total :: u32
  ss_expected_hash :: bytes
  ss_expected_secure_version :: u32
  ss_expected_version :: bytes
  ss_expected_version_length :: nat
  ss_completed :: u32
  ss_full_hasher :: 'h
  ss_signed_hasher :: 'h
  ss_failure :: status_code

record ('b, 'h) usb_updater =
  uu_backend :: 'b
  uu_trusted_key_digest :: bytes
  uu_current_version :: bytes
  uu_current_version_length :: nat
  uu_current_secure_version :: u32
  uu_next_session_id :: u32
  uu_session :: "'h session option"

section \<open>Session lifetime\<close>

definition fail :: "'h session \<Rightarrow> status_code \<Rightarrow> status_code \<times> 'h session" where
  "fail s status = (status, s\<lparr>ss_phase := Ph_Failed, ss_failure := status\<rparr>)"

definition session_expire :: "'h session \<Rightarrow> u64 \<Rightarrow> bool \<times> 'h session" where
  "session_expire s now_ms =
     (if ss_phase s \<notin> {Ph_Erasing, Ph_Receiving, Ph_Verifying}
      then (ss_failure s = St_SessionExpired, s)
      else
        let expired = (now_ms < ss_last_checked_ms s
            \<or> SESSION_MAX_LIFETIME_MS \<le> saturating_sub now_ms (ss_started_ms s)
            \<or> SESSION_IDLE_TIMEOUT_MS \<le> saturating_sub now_ms (ss_last_progress_ms s));
          s = s\<lparr>ss_last_checked_ms := now_ms\<rparr>
        in if expired then (expired, snd (fail s St_SessionExpired)) else (expired, s))"

definition session_progress :: "'h session \<Rightarrow> u64 \<Rightarrow> status_code \<times> 'h session" where
  "session_progress s now_ms = (case session_expire s now_ms of
       (True, s') \<Rightarrow> (St_SessionExpired, s')
     | (False, s') \<Rightarrow> (St_Ok, s'\<lparr>ss_last_progress_ms := now_ms\<rparr>))"

definition expected_version :: "'h session \<Rightarrow> bytes option" where
  "expected_version s = subslice (ss_expected_version s) 0 (ss_expected_version_length s)"

definition parse_session_id :: "bytes \<Rightarrow> u32 option" where
  "parse_session_id request = (if length request = 4 then from_le32 request else None)"

definition next_sequence :: "u32 \<Rightarrow> u8 \<Rightarrow> u32 option" where
  "next_sequence current target_slot =
     (if current = 0 \<or> 1 < target_slot then None
      else
        let parity = ucast target_slot + 1;
          increment = (if current mod 2 = parity mod 2 then 2 else 1)
        in checked_add current increment)"

section \<open>Construction and polling\<close>

definition updater_new ::
  "'b \<Rightarrow> bytes \<Rightarrow> bytes \<Rightarrow> u32 \<Rightarrow> ('b, 'h) usb_updater option" where
  "updater_new backend trusted_key_digest current_version current_secure_version =
     (if current_version = [] \<or> MAX_VERSION_LENGTH < length current_version then None
      else do {
        version \<leftarrow> copy_from_slice (replicate MAX_VERSION_LENGTH 0) 0 (length current_version)
          current_version;
        Some \<lparr>uu_backend = backend, uu_trusted_key_digest = trusted_key_digest,
          uu_current_version = version, uu_current_version_length = length current_version,
          uu_current_secure_version = current_secure_version, uu_next_session_id = 1,
          uu_session = None\<rparr>
      })"

definition poll :: "('b, 'z) update_backend_scheme \<Rightarrow> ('b, 'h) usb_updater \<Rightarrow> ('b, 'h) usb_updater" where
  "poll B u = (case uu_session u of
       None \<Rightarrow> u
     | Some s \<Rightarrow> (case ub_now_ms B (uu_backend u) of
         (now, b) \<Rightarrow> u\<lparr>uu_backend := b, uu_session := Some (snd (session_expire s now))\<rparr>))"

definition updater_phase :: "('b, 'h) usb_updater \<Rightarrow> phase" where
  "updater_phase u = (case uu_session u of None \<Rightarrow> Ph_Idle | Some s \<Rightarrow> ss_phase s)"

text \<open>Writing back the borrowed fields at the end of a method.\<close>

definition put_back :: "('b, 'h) usb_updater \<Rightarrow> 'b \<Rightarrow> 'h session \<Rightarrow> ('b, 'h) usb_updater" where
  "put_back u b s = u\<lparr>uu_backend := b, uu_session := Some s\<rparr>"

section \<open>Begin\<close>

definition begin_update ::
  "('b, 'z) update_backend_scheme \<Rightarrow> 'h sha256 \<Rightarrow> ('b, 'h) usb_updater \<Rightarrow> bytes \<Rightarrow> bool \<Rightarrow>
   (status_code \<times> ('b, 'h) usb_updater) option" where
  "begin_update B H u request user_present =
     (if length request < 42 then Some (St_InvalidRequest, u)
      else do {
        protocol \<leftarrow> index request 0;
        total \<leftarrow> Option.bind (subslice request 1 5) from_le32;
        vlen \<leftarrow> index request 41;
        let version_length = unat vlen;
        expected_hash \<leftarrow> subslice request 5 37;
        expected_secure_version \<leftarrow> Option.bind (subslice request 37 41) from_le32;
        if protocol \<noteq> PROTOCOL_VERSION then Some (St_InvalidRequest, u)
        else if length request \<noteq> 42 + version_length \<or> version_length = 0
             \<or> MAX_VERSION_LENGTH < version_length then Some (St_InvalidRequest, u)
        else if \<not> (SIGNATURE_SECTOR_SIZE * 2 \<le> total \<and> total \<le> OTA_SLOT_SIZE)
             \<or> total mod SIGNATURE_SECTOR_SIZE \<noteq> 0 then Some (St_ImageSize, u)
        else if expected_secure_version < uu_current_secure_version u then Some (St_Rollback, u)
        else if \<not> user_present then Some (St_UserPresenceRequired, u)
        else
          let (started_ms, b) = ub_now_ms B (uu_backend u) in
          (case ub_layout B b of
             (None, b) \<Rightarrow> Some (St_Flash, u\<lparr>uu_backend := b\<rparr>)
           | (Some layout, b) \<Rightarrow>
               if 1 < ul_active_slot layout \<or> 1 < ul_activation_entry layout
               then Some (St_InvalidState, u\<lparr>uu_backend := b\<rparr>)
               else do {
                 target_slot \<leftarrow> checked_sub 1 (ul_active_slot layout);
                 case next_sequence (ul_active_sequence layout) target_slot of
                   None \<Rightarrow> Some (St_InvalidState, u\<lparr>uu_backend := b\<rparr>)
                 | Some target_sequence \<Rightarrow> do {
                     version \<leftarrow> subslice request 42 (length request);
                     version \<leftarrow> copy_from_slice (replicate MAX_VERSION_LENGTH 0) 0 version_length version;
                     let session = \<lparr>ss_started_ms = started_ms, ss_last_progress_ms = started_ms,
                       ss_last_checked_ms = started_ms, ss_id = uu_next_session_id u,
                       ss_phase = Ph_Erasing, ss_target_slot = target_slot,
                       ss_active_slot = ul_active_slot layout,
                       ss_active_sequence = ul_active_sequence layout,
                       ss_activation_entry = ul_activation_entry layout,
                       ss_target_sequence = target_sequence, ss_total = total,
                       ss_expected_hash = expected_hash,
                       ss_expected_secure_version = expected_secure_version,
                       ss_expected_version = version, ss_expected_version_length = version_length,
                       ss_completed = 0, ss_full_hasher = sha_new H, ss_signed_hasher = sha_new H,
                       ss_failure = St_Ok\<rparr>;
                     let u = u\<lparr>uu_next_session_id := max (uu_next_session_id u + 1) 1\<rparr>;
                     let (now, b) = ub_now_ms B b;
                     let (status, session) = session_progress session now;
                     Some (status, put_back u b session)
                   }
               })
      })"

section \<open>Write\<close>

definition write_update ::
  "('b, 'z) update_backend_scheme \<Rightarrow> ('b, 'h) usb_updater \<Rightarrow> bytes \<Rightarrow>
   (status_code \<times> ('b, 'h) usb_updater) option" where
  "write_update B u request =
     (if length request < 9 \<or> 9 + MAX_WRITE_CHUNK < length request then Some (St_InvalidRequest, u)
      else do {
        sid \<leftarrow> Option.bind (subslice request 0 4) from_le32;
        offset \<leftarrow> Option.bind (subslice request 4 8) from_le32;
        data \<leftarrow> subslice request 8 (length request);
        case uu_session u of
          None \<Rightarrow> Some (St_InvalidState, u)
        | Some s \<Rightarrow>
            if ss_id s \<noteq> sid then Some (St_SessionMismatch, u)
            else
              let (now, b) = ub_now_ms B (uu_backend u);
                (expired, s) = session_expire s now
              in
              if expired then Some (St_SessionExpired, put_back u b s)
              else if ss_phase s \<noteq> Ph_Receiving then Some (St_InvalidState, put_back u b s)
              else if data = [] \<or> length data mod 32 \<noteq> 0 then Some (St_InvalidRequest, put_back u b s)
              else if offset \<noteq> ss_completed s then Some (St_OutOfOrder, put_back u b s)
              else (case checked_add offset (of_nat (length data)) of
                  None \<Rightarrow> Some (St_ImageSize, put_back u b s)
                | Some e \<Rightarrow>
                    if ss_total s < e then Some (St_ImageSize, put_back u b s)
                    else
                      (case ub_write B b (ss_target_slot s) offset data of
                         (False, b) \<Rightarrow>
                           Some (St_Flash, put_back u b
                             (s\<lparr>ss_phase := Ph_Failed, ss_failure := St_Flash\<rparr>))
                       | (True, b) \<Rightarrow>
                           let s = s\<lparr>ss_completed := e\<rparr>;
                             (now, b) = ub_now_ms B b;
                             (status, s) = session_progress s now
                           in Some (status, put_back u b s)))
      })"

section \<open>Verification and activation\<close>

lemma session_expire_keeps:
  "session_expire s now = (e, s') \<Longrightarrow> ss_completed s' = ss_completed s"
  by (auto simp: session_expire_def fail_def Let_def split: if_splits)

text \<open>
  The \<^verbatim>\<open>while session.completed < step_end\<close> loop of \<^verbatim>\<open>verify_step\<close>; \<^term>\<open>Inl status\<close> is
  an early return.
\<close>

function verify_loop ::
  "('b, 'z) update_backend_scheme \<Rightarrow> 'h sha256 \<Rightarrow> u32 \<Rightarrow> u32 \<Rightarrow> 'b \<Rightarrow> 'h session \<Rightarrow>
   ((status_code + unit) \<times> 'b \<times> 'h session) option" where
  "verify_loop B H step_end signed_length b s =
     (if ss_completed s < step_end then
        (case ub_now_ms B b of (now, b) \<Rightarrow>
        (case session_expire s now of (expired, s) \<Rightarrow>
         if expired then Some (Inl St_SessionExpired, b, s)
         else (case checked_sub step_end (ss_completed s) of
           None \<Rightarrow> None
         | Some left \<Rightarrow>
             let len = min left 1024 in
             (case ir_read B b (ss_target_slot s) (ss_completed s) (unat len) of
                (None, b) \<Rightarrow>
                  Some (Inl St_Flash, b, s\<lparr>ss_phase := Ph_Failed, ss_failure := St_Flash\<rparr>)
              | (Some chunk, b) \<Rightarrow>
                  (case (if ss_completed s < signed_length
                         then subslice chunk 0 (unat (min (signed_length - ss_completed s) len))
                         else Some []) of
                     None \<Rightarrow> None
                   | Some signed_part \<Rightarrow>
                       (case checked_add (ss_completed s) len of
                          None \<Rightarrow> None
                        | Some completed \<Rightarrow>
                            verify_loop B H step_end signed_length b
                              (s\<lparr>ss_full_hasher := sha_update H (ss_full_hasher s) chunk,
                                 ss_signed_hasher :=
                                   (if ss_completed s < signed_length
                                    then sha_update H (ss_signed_hasher s) signed_part
                                    else ss_signed_hasher s),
                                 ss_completed := completed\<rparr>)))))))
      else Some (Inr (), b, s))"
  by pat_completeness auto
termination
proof (relation "measure (\<lambda>(B, H, e, sl, b, s). unat e - unat (ss_completed s))", goal_cases)
  case (2 B H e sl b s now b1 expired s1 left len rd b2 chunk part completed)
  then have same: "ss_completed s1 = ss_completed s" by (metis session_expire_keeps)
  with 2 have lt: "unat (ss_completed s1) < unat e" by (simp add: word_less_nat_alt)
  from 2 have "unat left = unat e - unat (ss_completed s1)" by (auto dest: checked_sub_SomeD)
  with 2 lt have "0 < unat len" by (simp add: min_def)
  moreover from 2 have "unat completed = unat (ss_completed s1) + unat len"
    by (auto dest: checked_add_SomeD)
  ultimately show ?case using same lt by simp
qed simp

declare verify_loop.simps [simp del]

text \<open>
  The end of \<^verbatim>\<open>finish_verification\<close>: the layout and the lifetime are checked again
  immediately before the slot is activated.
\<close>

definition activate_target ::
  "('b, 'z) update_backend_scheme \<Rightarrow> ('b, 'h) usb_updater \<Rightarrow> 'h session \<Rightarrow> 'b \<Rightarrow>
   (status_code \<times> ('b, 'h) usb_updater) option" where
  "activate_target B u s b = (case ub_layout B b of
       (None, b) \<Rightarrow> Some (St_Flash, put_back u b (snd (fail s St_Flash)))
     | (Some layout, b) \<Rightarrow>
         if ul_active_slot layout \<noteq> ss_active_slot s
            \<or> ul_active_sequence layout \<noteq> ss_active_sequence s
            \<or> ul_activation_entry layout \<noteq> ss_activation_entry s
         then Some (St_ActiveSlotChanged, put_back u b (snd (fail s St_ActiveSlotChanged)))
         else
           let (now, b) = ub_now_ms B b; (expired, s) = session_expire s now in
           if expired then Some (St_SessionExpired, put_back u b s)
           else (case ub_activate B b (ss_target_slot s) (ss_target_sequence s) (ss_activation_entry s) of
               (False, b) \<Rightarrow> Some (St_Flash, put_back u b (snd (fail s St_Flash)))
             | (True, b) \<Rightarrow>
                 Some (St_Ok, put_back u b (s\<lparr>ss_phase := Ph_Activated, ss_failure := St_Ok\<rparr>))))"

definition finish_verification ::
  "('b, 'z) update_backend_scheme \<Rightarrow> 'h sha256 \<Rightarrow> ('b, 'h) usb_updater \<Rightarrow>
   (status_code \<times> ('b, 'h) usb_updater) option" where
  "finish_verification B H u = (case uu_session u of
       None \<Rightarrow> Some (St_InvalidState, u)
     | Some s \<Rightarrow>
        let failed = (\<lambda>status b. Some (status, put_back u b (snd (fail s status)))) in
        if sha_finalize H (ss_full_hasher s) \<noteq> ss_expected_hash s
        then failed St_HashMismatch (uu_backend u)
        else (case ir_read B (uu_backend u) (ss_target_slot s) 0 APP_DESCRIPTOR_PREFIX_SIZE of
          (None, b) \<Rightarrow> failed St_Flash b
        | (Some descriptor, b) \<Rightarrow>
        (case parse_image_metadata descriptor of
          None \<Rightarrow> failed St_Signature b
        | Some metadata \<Rightarrow>
        if im_secure_version metadata < uu_current_secure_version u then failed St_Rollback b
        else do {
        version \<leftarrow> expected_version s;
        if im_secure_version metadata \<noteq> ss_expected_secure_version s \<or> im_version metadata \<noteq> version
        then failed St_VersionMismatch b
        else do {
        let signed_digest = sha_finalize H (ss_signed_hasher s);
        block_offset \<leftarrow> checked_sub (ss_total s) SIGNATURE_SECTOR_SIZE;
        case ir_read B b (ss_target_slot s) block_offset SIGNATURE_BLOCK_SIZE of
          (None, b) \<Rightarrow> failed St_Flash b
        | (Some block, b) \<Rightarrow>
        (case parse_signature_block H block (uu_trusted_key_digest u) of
          None \<Rightarrow> failed St_Signature b
        | Some signature \<Rightarrow>
        if sig_image_digest signature \<noteq> signed_digest then failed St_Signature b
        else (case ir_verify_rsa_pss B b (sig_public_key signature) (sig_signature signature) signed_digest of
          (None, b) \<Rightarrow> failed St_Flash b
        | (Some False, b) \<Rightarrow> failed St_Signature b
        | (Some True, b) \<Rightarrow>
        activate_target B u s b))
        } })))"

definition verify_step ::
  "('b, 'z) update_backend_scheme \<Rightarrow> 'h sha256 \<Rightarrow> ('b, 'h) usb_updater \<Rightarrow>
   (status_code \<times> ('b, 'h) usb_updater) option" where
  "verify_step B H u = (case uu_session u of
       None \<Rightarrow> Some (St_InvalidState, u)
     | Some s \<Rightarrow> do {
         step_end \<leftarrow> checked_add (ss_completed s) VERIFY_STEP_SIZE;
         let step_end = min step_end (ss_total s);
         signed_length \<leftarrow> checked_sub (ss_total s) SIGNATURE_SECTOR_SIZE;
         (r, b, s) \<leftarrow> verify_loop B H step_end signed_length (uu_backend u) s;
         case r of
           Inl status \<Rightarrow> Some (status, put_back u b s)
         | Inr _ \<Rightarrow>
             let (now, b) = ub_now_ms B b; (expired, s) = session_expire s now in
             if expired then Some (St_SessionExpired, put_back u b s)
             else if ss_completed s \<noteq> ss_total s then
               let (now, b) = ub_now_ms B b; (status, s) = session_progress s now
               in Some (status, put_back u b s)
             else finish_verification B H (put_back u b s)
       })"

section \<open>The other operations and the request handler\<close>

text \<open>The \<^verbatim>\<open>Phase::Erasing\<close> arm of \<^verbatim>\<open>advance\<close>.\<close>

definition erase_step ::
  "('b, 'z) update_backend_scheme \<Rightarrow> ('b, 'h) usb_updater \<Rightarrow> 'h session \<Rightarrow> 'b \<Rightarrow>
   (status_code \<times> ('b, 'h) usb_updater) option" where
  "erase_step B u s b = do {
     left \<leftarrow> checked_sub (ss_total s) (ss_completed s);
     let len = min left ERASE_STEP_SIZE;
     case ub_erase B b (ss_target_slot s) (ss_completed s) len of
       (False, b) \<Rightarrow>
         Some (St_Flash, put_back u b (s\<lparr>ss_phase := Ph_Failed, ss_failure := St_Flash\<rparr>))
     | (True, b) \<Rightarrow> do {
         completed \<leftarrow> checked_add (ss_completed s) len;
         let s = (if completed = ss_total s
                  then s\<lparr>ss_completed := 0, ss_phase := Ph_Receiving\<rparr>
                  else s\<lparr>ss_completed := completed\<rparr>);
         let (now, b) = ub_now_ms B b;
         let (status, s) = session_progress s now;
         Some (status, put_back u b s)
       }
   }"

definition advance ::
  "('b, 'z) update_backend_scheme \<Rightarrow> 'h sha256 \<Rightarrow> ('b, 'h) usb_updater \<Rightarrow> bytes \<Rightarrow>
   (status_code \<times> ('b, 'h) usb_updater) option" where
  "advance B H u request = (case parse_session_id request of
       None \<Rightarrow> Some (St_InvalidRequest, u)
     | Some sid \<Rightarrow>
     (case uu_session u of
       None \<Rightarrow> Some (St_InvalidState, u)
     | Some s \<Rightarrow>
         if ss_id s \<noteq> sid then Some (St_SessionMismatch, u)
         else
           let (now, b) = ub_now_ms B (uu_backend u); (expired, s) = session_expire s now in
           if expired then Some (St_SessionExpired, put_back u b s)
           else (case ss_phase s of
             Ph_Erasing \<Rightarrow> erase_step B u s b
           | Ph_Receiving \<Rightarrow>
               if ss_completed s \<noteq> ss_total s then Some (St_InvalidState, put_back u b s)
               else verify_step B H (put_back u b
                 (s\<lparr>ss_phase := Ph_Verifying, ss_completed := 0, ss_full_hasher := sha_new H,
                    ss_signed_hasher := sha_new H\<rparr>))
           | Ph_Verifying \<Rightarrow> verify_step B H (put_back u b s)
           | Ph_Activated \<Rightarrow> Some (St_Ok, put_back u b s)
           | Ph_Failed \<Rightarrow> Some (ss_failure s, put_back u b s)
           | Ph_Idle \<Rightarrow> Some (St_InvalidState, put_back u b s))))"

definition update_status :: "('b, 'h) usb_updater \<Rightarrow> bytes \<Rightarrow> status_code" where
  "update_status u request =
     (if request = [] then St_Ok
      else (case parse_session_id request of
         None \<Rightarrow> St_InvalidRequest
       | Some sid \<Rightarrow> (case uu_session u of
             Some s \<Rightarrow>
               if ss_id s = sid then (if ss_phase s = Ph_Failed then ss_failure s else St_Ok)
               else St_SessionMismatch
           | None \<Rightarrow> St_InvalidState)))"

definition abort :: "('b, 'h) usb_updater \<Rightarrow> bytes \<Rightarrow> status_code \<times> ('b, 'h) usb_updater" where
  "abort u request = (case parse_session_id request of
       None \<Rightarrow> (St_InvalidRequest, u)
     | Some sid \<Rightarrow> (case uu_session u of
           Some s \<Rightarrow>
             if ss_id s = sid \<and> ss_phase s \<noteq> Ph_Activated then (St_Ok, u\<lparr>uu_session := None\<rparr>)
             else if ss_id s \<noteq> sid then (St_SessionMismatch, u)
             else (St_InvalidState, u)
         | None \<Rightarrow> (St_InvalidState, u)))"

definition encode_response :: "('b, 'h) usb_updater \<Rightarrow> status_code \<Rightarrow> bytes \<Rightarrow> (nat \<times> bytes) option" where
  "encode_response u status output =
     (let vl = uu_current_version_length u in
      if length output < 21 + vl then None
      else do {
        let (phase, slot, sid, completed, total) = (case uu_session u of
            Some s \<Rightarrow> (ss_phase s, ss_target_slot s, ss_id s, ss_completed s, ss_total s)
          | None \<Rightarrow> (Ph_Idle, - 1, 0, 0, 0));
        out \<leftarrow> copy_from_slice output 0 (21 + vl) (replicate (21 + vl) 0);
        out \<leftarrow> store out 0 (status_number status);
        out \<leftarrow> store out 1 PROTOCOL_VERSION;
        out \<leftarrow> store out 2 (phase_number phase);
        out \<leftarrow> store out 3 slot;
        out \<leftarrow> copy_from_slice out 4 8 (to_le32 sid);
        out \<leftarrow> copy_from_slice out 8 12 (to_le32 completed);
        out \<leftarrow> copy_from_slice out 12 16 (to_le32 total);
        out \<leftarrow> copy_from_slice out 16 20 (to_le32 (uu_current_secure_version u));
        out \<leftarrow> store out 20 (of_nat vl);
        version \<leftarrow> subslice (uu_current_version u) 0 vl;
        out \<leftarrow> copy_from_slice out 21 (21 + vl) version;
        Some (21 + vl, out)
      })"

definition handle_inner ::
  "('b, 'z) update_backend_scheme \<Rightarrow> 'h sha256 \<Rightarrow> ('b, 'h) usb_updater \<Rightarrow> bytes \<Rightarrow> bool \<Rightarrow>
   (status_code \<times> ('b, 'h) usb_updater) option" where
  "handle_inner B H u request user_present = (case request of
       [] \<Rightarrow> Some (St_InvalidRequest, u)
     | op # body \<Rightarrow> (case operation_parse op of
         None \<Rightarrow> Some (St_InvalidRequest, u)
       | Some Op_Info \<Rightarrow> Some (if length request = 1 then St_Ok else St_InvalidRequest, u)
       | Some Op_Begin \<Rightarrow> begin_update B H u body user_present
       | Some Op_Write \<Rightarrow> write_update B u body
       | Some Op_Advance \<Rightarrow> advance B H u body
       | Some Op_Status \<Rightarrow> Some (update_status u body, u)
       | Some Op_Abort \<Rightarrow> Some (abort u body)))"

definition handle ::
  "('b, 'z) update_backend_scheme \<Rightarrow> 'h sha256 \<Rightarrow> ('b, 'h) usb_updater \<Rightarrow> bytes \<Rightarrow> bool \<Rightarrow> bytes \<Rightarrow>
   (nat \<times> bytes \<times> ('b, 'h) usb_updater) option" where
  "handle B H u request user_present response = do {
     (status, u) \<leftarrow> handle_inner B H (poll B u) request user_present;
     (n, out) \<leftarrow> encode_response u status response;
     Some (n, out, u)
   }"

section \<open>Persistent effects\<close>

text \<open>
  What the updater does to the flash is observed by recording every mutating call the updater
  makes, in order, beside the state of an arbitrary backend.
\<close>

datatype mutation = M_Erase u8 u32 u32 | M_Write u8 u32 bytes | M_Activate u8 u32 u8

definition with_log :: "'l \<Rightarrow> 'a \<times> 'b \<Rightarrow> 'a \<times> 'b \<times> 'l" where
  "with_log l r = (fst r, snd r, l)"

definition logged :: "'b update_backend \<Rightarrow> ('b \<times> mutation list) update_backend" where
  "logged B = \<lparr>
     ir_read = \<lambda>(b, l) slot off n. with_log l (ir_read B b slot off n),
     ir_verify_rsa_pss = \<lambda>(b, l) pk sg d. with_log l (ir_verify_rsa_pss B b pk sg d),
     ub_now_ms = \<lambda>(b, l). with_log l (ub_now_ms B b),
     ub_layout = \<lambda>(b, l). with_log l (ub_layout B b),
     ub_erase = \<lambda>(b, l) slot off n. with_log (l @ [M_Erase slot off n]) (ub_erase B b slot off n),
     ub_write = \<lambda>(b, l) slot off d. with_log (l @ [M_Write slot off d]) (ub_write B b slot off d),
     ub_activate = \<lambda>(b, l) slot q e. with_log (l @ [M_Activate slot q e]) (ub_activate B b slot q e)\<rparr>"

text \<open>
  The hypotheses on the backend: reads are faithful to the stored bytes, and reading the clock,
  the layout and activating a slot do not change the image slots.
\<close>

definition flash_backend ::
  "'b update_backend \<Rightarrow> ('b \<Rightarrow> u8 \<Rightarrow> bytes) \<Rightarrow> (bytes \<Rightarrow> bytes \<Rightarrow> bytes \<Rightarrow> bool) \<Rightarrow> bool" where
  "flash_backend B content rsa \<longleftrightarrow> faithful_reader B content rsa
     \<and> (\<forall>b. content (snd (ub_now_ms B b)) = content b)
     \<and> (\<forall>b. content (snd (ub_layout B b)) = content b)
     \<and> (\<forall>b slot q e. content (snd (ub_activate B b slot q e)) = content b)"

section \<open>Invariant\<close>

definition session_wf :: "u32 \<Rightarrow> 'h session \<Rightarrow> bool" where
  "session_wf floor s \<longleftrightarrow> ss_phase s \<noteq> Ph_Idle
     \<and> 0x2000 \<le> ss_total s \<and> ss_total s \<le> 0x1e0000 \<and> ss_completed s \<le> ss_total s
     \<and> ss_active_slot s \<le> 1 \<and> ss_target_slot s = 1 - ss_active_slot s \<and> ss_activation_entry s \<le> 1
     \<and> next_sequence (ss_active_sequence s) (ss_target_slot s) = Some (ss_target_sequence s)
     \<and> length (ss_expected_version s) = MAX_VERSION_LENGTH
     \<and> ss_expected_version_length s \<le> MAX_VERSION_LENGTH
     \<and> floor \<le> ss_expected_secure_version s"

definition absorbed :: "'h sha256 \<Rightarrow> 'h \<Rightarrow> bytes \<Rightarrow> bool" where
  "absorbed H h xs \<longleftrightarrow> (\<exists>cs. h = foldl (sha_update H) (sha_new H) cs \<and> concat cs = xs)"

text \<open>While verifying, the two hashers have absorbed exactly the prefix read so far.\<close>

definition hashed :: "'h sha256 \<Rightarrow> bytes \<Rightarrow> 'h session \<Rightarrow> bool" where
  "hashed H img s \<longleftrightarrow> unat (ss_completed s) \<le> length img
     \<and> absorbed H (ss_full_hasher s) (take (unat (ss_completed s)) img)
     \<and> absorbed H (ss_signed_hasher s)
         (take (min (unat (ss_completed s)) (unat (ss_total s) - 4096)) img)"

definition updater_inv :: "('b \<Rightarrow> u8 \<Rightarrow> bytes) \<Rightarrow> 'h sha256 \<Rightarrow> ('b \<times> 'l, 'h) usb_updater \<Rightarrow> bool" where
  "updater_inv content H u \<longleftrightarrow> length (uu_current_version u) = MAX_VERSION_LENGTH
     \<and> uu_current_version_length u \<le> MAX_VERSION_LENGTH
     \<and> (case uu_session u of None \<Rightarrow> True | Some s \<Rightarrow>
          session_wf (uu_current_secure_version u) s
          \<and> (ss_phase s = Ph_Verifying \<longrightarrow>
              hashed H (content (fst (uu_backend u)) (ss_target_slot s)) s))"

text \<open>
  An image that may be activated: its hash is the approved one, its descriptor carries the
  approved version at or above the floor of the running firmware, and its signature block
  binds the content before the signature sector to the trusted key.
\<close>

definition verified_image ::
  "'h sha256 \<Rightarrow> (bytes \<Rightarrow> bytes \<Rightarrow> bytes \<Rightarrow> bool) \<Rightarrow> bytes \<Rightarrow> u32 \<Rightarrow> 'h session \<Rightarrow> bytes \<Rightarrow> bool" where
  "verified_image H rsa key floor s img \<longleftrightarrow>
     unat (ss_total s) \<le> length img
     \<and> sha_digest H (take (unat (ss_total s)) img) = ss_expected_hash s
     \<and> (\<exists>m. parse_image_metadata (take 80 img) = Some m \<and> floor \<le> im_secure_version m
          \<and> im_secure_version m = ss_expected_secure_version s
          \<and> expected_version s = Some (im_version m))
     \<and> (let signed = take (unat (ss_total s) - 4096) img in
        \<exists>sg. Option.bind (subslice img (length signed) (length signed + SIGNATURE_BLOCK_SIZE))
               (\<lambda>block. parse_signature_block H block key) = Some sg
          \<and> sig_image_digest sg = sha_digest H signed
          \<and> rsa (sig_public_key sg) (sig_signature sg) (sha_digest H signed))"

fun mutation_ok ::
  "('b \<Rightarrow> u8 \<Rightarrow> bytes) \<Rightarrow> (bytes \<Rightarrow> bytes \<Rightarrow> bytes \<Rightarrow> bool) \<Rightarrow> 'h sha256 \<Rightarrow>
   ('b \<times> 'l, 'h) usb_updater \<Rightarrow> ('b \<times> 'l, 'h) usb_updater \<Rightarrow> mutation \<Rightarrow> bool" where
  "mutation_ok content rsa H u u' (M_Erase slot off n) =
     (case uu_session u of None \<Rightarrow> False | Some s \<Rightarrow>
        ss_phase s = Ph_Erasing \<and> slot = ss_target_slot s \<and> off = ss_completed s
        \<and> unat off + unat n \<le> unat (ss_total s))"
| "mutation_ok content rsa H u u' (M_Write slot off d) =
     (case uu_session u of None \<Rightarrow> False | Some s \<Rightarrow>
        ss_phase s = Ph_Receiving \<and> slot = ss_target_slot s \<and> off = ss_completed s
        \<and> 0 < length d \<and> length d mod 32 = 0 \<and> unat off + length d \<le> unat (ss_total s))"
| "mutation_ok content rsa H u u' (M_Activate slot q e) =
     (case uu_session u of None \<Rightarrow> False | Some s \<Rightarrow>
        ss_phase s \<in> {Ph_Receiving, Ph_Verifying} \<and> slot = ss_target_slot s
        \<and> q = ss_target_sequence s \<and> e = ss_activation_entry s
        \<and> verified_image H rsa (uu_trusted_key_digest u) (uu_current_secure_version u) s
            (content (fst (uu_backend u')) slot))"

section \<open>Lemmas on the parts\<close>

lemmas update_consts = VERIFY_STEP_SIZE_def ERASE_STEP_SIZE_def SIGNATURE_SECTOR_SIZE_def

lemma absorbed_new: "absorbed H (sha_new H) []"
  unfolding absorbed_def by (rule exI [of _ "[]"]) simp

lemma absorbed_update: "absorbed H h xs \<Longrightarrow> absorbed H (sha_update H h ys) (xs @ ys)"
proof -
  assume "absorbed H h xs"
  then obtain cs where "h = foldl (sha_update H) (sha_new H) cs" "concat cs = xs"
    by (auto simp: absorbed_def)
  then show ?thesis by (auto simp: absorbed_def intro!: exI [of _ "cs @ [ys]"])
qed

lemma absorbed_digest: "sha_contract H \<Longrightarrow> absorbed H h xs \<Longrightarrow> sha_finalize H h = sha_digest H xs"
  by (auto simp: absorbed_def sha_contract_def)

text \<open>\<open>quiet content x y\<close>: no mutating call and no change of the stored images from x to y.\<close>

definition quiet :: "('b \<Rightarrow> u8 \<Rightarrow> bytes) \<Rightarrow> 'b \<times> 'l \<Rightarrow> 'b \<times> 'l \<Rightarrow> bool" where
  "quiet content x y \<longleftrightarrow> content (fst y) = content (fst x) \<and> snd y = snd x"

lemma quiet_refl [simp]: "quiet content x x" by (simp add: quiet_def)

lemma quiet_trans [trans]: "quiet content x y \<Longrightarrow> quiet content y z \<Longrightarrow> quiet content x z"
  by (simp add: quiet_def)

lemma logged_quiet:
  assumes "flash_backend B content rsa"
  shows "ub_now_ms (logged B) x = (t, y) \<Longrightarrow> quiet content x y"
    and "ub_layout (logged B) x = (lo, y) \<Longrightarrow> quiet content x y"
    and "ir_read (logged B) x slot off n = (rd, y) \<Longrightarrow> quiet content x y"
    and "ir_verify_rsa_pss (logged B) x pk sg d = (v, y) \<Longrightarrow> quiet content x y"
  using assms unfolding flash_backend_def faithful_reader_def
  by (auto simp: logged_def with_log_def quiet_def split: prod.splits)

lemma logged_read:
  assumes "flash_backend B content rsa" and "ir_read (logged B) x slot off n = (Some bs, y)"
  shows "subslice (content (fst x) slot) (unat off) (unat off + n) = Some bs"
  using assms unfolding flash_backend_def faithful_reader_def
  by (cases x) (auto simp: logged_def with_log_def)

lemma logged_verify:
  assumes "flash_backend B content rsa" and "ir_verify_rsa_pss (logged B) x pk sg d = (Some v, y)"
  shows "v = rsa pk sg d"
  using assms unfolding flash_backend_def faithful_reader_def
  by (cases x) (auto simp: logged_def with_log_def)

lemma logged_activate:
  assumes "flash_backend B content rsa" and "ub_activate (logged B) x slot q e = (r, y)"
  shows "content (fst y) = content (fst x)" and "snd y = snd x @ [M_Activate slot q e]"
  using assms unfolding flash_backend_def
  by (cases x; auto simp: logged_def with_log_def)+

lemma logged_mutations:
  "ub_erase (logged B) x slot off n = (r, y) \<Longrightarrow> snd y = snd x @ [M_Erase slot off n]"
  "ub_write (logged B) x slot off d = (r, y) \<Longrightarrow> snd y = snd x @ [M_Write slot off d]"
  by (cases x; auto simp: logged_def with_log_def)+

section \<open>Lemmas on the verification loop\<close>

definition fixed_fields where
  "fixed_fields s = ((ss_id s, ss_target_slot s, ss_active_slot s, ss_active_sequence s),
     (ss_activation_entry s, ss_target_sequence s, ss_total s, ss_expected_hash s),
     ss_expected_secure_version s, ss_expected_version s, ss_expected_version_length s)"

text \<open>\<open>evolves s s'\<close>: a step of the lifetime rules, which only moves clocks or fails.\<close>

definition evolves :: "'h session \<Rightarrow> 'h session \<Rightarrow> bool" where
  "evolves s s' \<longleftrightarrow> fixed_fields s' = fixed_fields s \<and> ss_completed s' = ss_completed s
     \<and> ss_full_hasher s' = ss_full_hasher s \<and> ss_signed_hasher s' = ss_signed_hasher s
     \<and> (ss_phase s' = ss_phase s \<or> ss_phase s' = Ph_Failed)"

lemma session_expire_evolves:
  "session_expire s now = (e, s') \<Longrightarrow> evolves s s'"
  "session_expire s now = (False, s') \<Longrightarrow> ss_phase s' = ss_phase s"
  by (auto simp: session_expire_def fail_def Let_def evolves_def fixed_fields_def split: if_splits)

lemma session_progress_evolves: "session_progress s now = (st, s') \<Longrightarrow> evolves s s'"
  using session_expire_evolves [of s now]
  by (fastforce simp: session_progress_def evolves_def fixed_fields_def split: prod.splits bool.splits)

lemma evolves_wf: "evolves s s' \<Longrightarrow> session_wf floor s \<Longrightarrow> session_wf floor s'"
  unfolding evolves_def fixed_fields_def session_wf_def by (elim conjE disjE; simp)

lemma failed_wf:
  "session_wf floor s \<Longrightarrow> session_wf floor (s\<lparr>ss_phase := Ph_Failed, ss_failure := st\<rparr>)"
  unfolding session_wf_def by (elim conjE) simp

lemma evolves_hashed: "evolves s s' \<Longrightarrow> hashed H img s \<Longrightarrow> hashed H img s'"
  unfolding evolves_def fixed_fields_def hashed_def by simp

lemma fixed_verified:
  "fixed_fields s' = fixed_fields s \<Longrightarrow> verified_image H rsa key f s' img = verified_image H rsa key f s img"
  by (simp add: fixed_fields_def verified_image_def expected_version_def)

definition verifying :: "u32 \<Rightarrow> 'h sha256 \<Rightarrow> bytes \<Rightarrow> 'h session \<Rightarrow> bool" where
  "verifying floor H img s \<longleftrightarrow> session_wf floor s \<and> ss_phase s = Ph_Verifying \<and> hashed H img s"

lemma hashed_step:
  assumes "hashed H img s" and "session_wf floor s"
    and "subslice img (unat (ss_completed s)) (unat (ss_completed s) + unat len) = Some chunk"
    and "unat (ss_completed s) + unat len \<le> unat (ss_total s)"
    and "signed_length = ss_total s - 4096"
    and "c = ss_completed s + len"
  shows "\<exists>part. (if ss_completed s < signed_length
             then subslice chunk 0 (unat (min (signed_length - ss_completed s) len)) else Some []) = Some part
      \<and> hashed H img (s\<lparr>ss_full_hasher := sha_update H (ss_full_hasher s) chunk,
           ss_signed_hasher := (if ss_completed s < signed_length
              then sha_update H (ss_signed_hasher s) part else ss_signed_hasher s),
           ss_completed := c\<rparr>)"
proof -
  let ?c = "unat (ss_completed s)" and ?n = "unat len" and ?sl = "unat (ss_total s) - 4096"
  have sl: "unat signed_length = ?sl"
    using assms(2) by (simp add: assms(5) session_wf_def unat_sub word_le_nat_alt)
  have tot: "unat (ss_total s) < 2 ^ 32" using unsigned_less [of "ss_total s", where 'a = nat] by simp
  have c': "unat c = ?c + ?n" using assms(4) tot by (simp add: assms(6) unat_word_ariths)
  have chunk: "chunk = take ?n (drop ?c img)" "?c + ?n \<le> length img"
    using assms(3) by (auto simp: subslice_def split: if_splits)
  have full: "absorbed H (sha_update H (ss_full_hasher s) chunk) (take (unat c) img)"
    using absorbed_update [of H "ss_full_hasher s" "take ?c img" chunk] assms(1)
    by (simp add: hashed_def chunk c' take_add)
  show ?thesis
  proof (cases "ss_completed s < signed_length")
    case True
    then have lt: "?c < ?sl" by (simp add: word_less_nat_alt sl)
    have count: "unat (min (signed_length - ss_completed s) len) = min (?sl - ?c) ?n"
      using unat_sub [OF order.strict_implies_order [OF True]] by (simp add: min_def word_le_nat_alt sl)
    let ?part = "take (min (?sl - ?c) ?n) chunk"
    have part: "subslice chunk 0 (unat (min (signed_length - ss_completed s) len)) = Some ?part"
      using chunk by (simp add: subslice_def count)
    have "min (unat c) ?sl = ?c + min (?sl - ?c) ?n" using lt by (simp add: c')
    then have "take (min (unat c) ?sl) img = take ?c img @ ?part"
      by (simp add: chunk(1) take_add)
    then have "absorbed H (sha_update H (ss_signed_hasher s) ?part) (take (min (unat c) ?sl) img)"
      using absorbed_update [of H "ss_signed_hasher s" "take ?c img" ?part] assms(1) lt
      by (simp add: hashed_def)
    with True part full c' chunk show ?thesis by (simp add: hashed_def)
  next
    case False
    then have "?sl \<le> ?c" by (simp add: word_less_nat_alt sl not_less)
    then have "min ?c ?sl = ?sl" "min (?c + ?n) ?sl = ?sl" by simp_all
    with False full c' chunk assms(1) show ?thesis by (simp add: hashed_def)
  qed
qed

text \<open>One iteration either returns early with a failed session or continues further on.\<close>

lemma verify_iteration:
  assumes B: "flash_backend B content rsa"
    and v: "verifying floor H (content (fst x) (ss_target_slot s)) s"
    and total: "step_end \<le> ss_total s" and more: "ss_completed s < step_end"
    and sl: "signed_length = ss_total s - 4096"
  shows "\<exists>y s'. quiet content x y \<and> fixed_fields s' = fixed_fields s \<and> session_wf floor s'
    \<and> ((\<exists>st. verify_loop (logged B) H step_end signed_length x s = Some (Inl st, y, s')
          \<and> ss_phase s' = Ph_Failed)
      \<or> verify_loop (logged B) H step_end signed_length x s
          = verify_loop (logged B) H step_end signed_length y s'
        \<and> verifying floor H (content (fst y) (ss_target_slot s')) s'
        \<and> ss_completed s < ss_completed s' \<and> ss_completed s' \<le> step_end)"
proof -
  obtain now x1 where now: "ub_now_ms (logged B) x = (now, x1)" by (meson surj_pair)
  obtain e s1 where ex: "session_expire s now = (e, s1)" by (meson surj_pair)
  note unfold = verify_loop.simps [of "logged B" H step_end signed_length x s]
  note q1 = logged_quiet(1) [OF B now]
  note ev = session_expire_evolves(1) [OF ex]
  then have same: "fixed_fields s1 = fixed_fields s" "ss_completed s1 = ss_completed s"
    "ss_target_slot s1 = ss_target_slot s" "ss_total s1 = ss_total s"
    by (auto simp: evolves_def fixed_fields_def)
  have wf: "session_wf floor s1" and h: "hashed H (content (fst x1) (ss_target_slot s1)) s1"
    using evolves_wf [OF ev] evolves_hashed [OF ev] v q1 same(3) by (auto simp: verifying_def quiet_def)
  show ?thesis
  proof (cases e)
    case True
    have "ss_phase s1 = Ph_Failed"
      using ex True v by (auto simp: verifying_def session_expire_def fail_def Let_def split: if_splits)
    with more now ex True q1 same wf show ?thesis
      by (intro exI [of _ x1] exI [of _ s1]) (simp add: unfold)
  next
    case noexp: False
    then have ph: "ss_phase s1 = Ph_Verifying"
      using session_expire_evolves(2) [of s now s1] ex v by (simp add: verifying_def)
    define len where "len = min (step_end - ss_completed s1) 1024"
    define c where "c = ss_completed s1 + len"
    have left: "checked_sub step_end (ss_completed s1) = Some (step_end - ss_completed s1)"
      using more same(2) by (simp add: checked_sub_def)
    have lt: "unat (ss_completed s1) < unat step_end" using more same(2) by (simp add: word_less_nat_alt)
    have ulen: "unat len = min (unat step_end - unat (ss_completed s1)) 1024"
      using unat_sub [of "ss_completed s1" step_end] lt by (simp add: len_def min_def word_le_nat_alt)
    have tot: "unat (ss_completed s1) + unat len \<le> unat (ss_total s1)"
      using total lt same(4) ulen by (simp add: word_le_nat_alt)
    have uc: "unat c = unat (ss_completed s1) + unat len" and
      add: "checked_add (ss_completed s1) len = Some c"
      using tot unsigned_less [of "ss_total s1", where 'a = nat] by (simp_all add: c_def unat_word_ariths)
    obtain rd x2 where rd: "ir_read (logged B) x1 (ss_target_slot s1) (ss_completed s1) (unat len) = (rd, x2)"
      by (meson surj_pair)
    note q2 = quiet_trans [OF q1 logged_quiet(3) [OF B rd]]
    show ?thesis
    proof (cases rd)
      case None
      with failed_wf [OF wf, of St_Flash] now ex more noexp left rd q2 same show ?thesis
        by (intro exI [of _ x2] exI [of _ "s1\<lparr>ss_phase := Ph_Failed, ss_failure := St_Flash\<rparr>"])
          (simp add: unfold len_def fixed_fields_def)
    next
      case (Some chunk)
      let ?s2 = "\<lambda>part. s1\<lparr>ss_full_hasher := sha_update H (ss_full_hasher s1) chunk,
         ss_signed_hasher := (if ss_completed s1 < signed_length
           then sha_update H (ss_signed_hasher s1) part else ss_signed_hasher s1), ss_completed := c\<rparr>"
      obtain part where part: "(if ss_completed s1 < signed_length
           then subslice chunk 0 (unat (min (signed_length - ss_completed s1) len)) else Some []) = Some part"
        and h': "hashed H (content (fst x1) (ss_target_slot s1)) (?s2 part)"
        using hashed_step [OF h wf logged_read [OF B rd [unfolded Some]] tot, of signed_length c]
          sl same(4) c_def by auto
      have res: "verify_loop (logged B) H step_end signed_length x s
          = verify_loop (logged B) H step_end signed_length x2 (?s2 part)"
        using more now ex noexp left rd Some part add by (simp add: unfold Let_def flip: len_def)
      have "session_wf floor (?s2 part)"
        using wf tot unfolding session_wf_def by (elim conjE) (simp add: word_le_nat_alt uc)
      moreover have "ss_completed s < c" "c \<le> step_end"
        using lt ulen uc same(2) by (auto simp: word_le_nat_alt word_less_nat_alt)
      moreover have "content (fst x2) = content (fst x1)" using q1 q2 by (simp add: quiet_def)
      ultimately show ?thesis
        using q2 same h' ph res
        by (intro exI [of _ x2] exI [of _ "?s2 part"]) (auto simp: verifying_def fixed_fields_def)
    qed
  qed
qed

lemma verify_loop_ok:
  assumes B: "flash_backend B content rsa" and "verifying floor H (content (fst x) (ss_target_slot s)) s"
    and "step_end \<le> ss_total s" and "ss_completed s \<le> step_end" and "signed_length = ss_total s - 4096"
  shows "\<exists>r y s'. verify_loop (logged B) H step_end signed_length x s = Some (r, y, s')
    \<and> quiet content x y \<and> fixed_fields s' = fixed_fields s \<and> session_wf floor s'
    \<and> (case r of Inl _ \<Rightarrow> ss_phase s' = Ph_Failed
        | Inr _ \<Rightarrow> verifying floor H (content (fst y) (ss_target_slot s')) s' \<and> ss_completed s' = step_end)"
  using assms(2-)
proof (induction "unat step_end - unat (ss_completed s)" arbitrary: x s rule: less_induct)
  case less
  show ?case
  proof (cases "ss_completed s < step_end")
    case False
    then have "verify_loop (logged B) H step_end signed_length x s = Some (Inr (), x, s)"
      by (simp add: verify_loop.simps)
    with False less.prems show ?thesis by (auto simp: verifying_def)
  next
    case True
    obtain y s' where q: "quiet content x y" and f: "fixed_fields s' = fixed_fields s"
      and wf: "session_wf floor s'"
      and step: "(\<exists>st. verify_loop (logged B) H step_end signed_length x s = Some (Inl st, y, s')
          \<and> ss_phase s' = Ph_Failed)
        \<or> verify_loop (logged B) H step_end signed_length x s
            = verify_loop (logged B) H step_end signed_length y s'
          \<and> verifying floor H (content (fst y) (ss_target_slot s')) s'
          \<and> ss_completed s < ss_completed s' \<and> ss_completed s' \<le> step_end"
      using verify_iteration [OF B less.prems(1,2) True less.prems(4)] by blast
    from step show ?thesis
    proof (elim disjE exE conjE)
      fix st
      assume "verify_loop (logged B) H step_end signed_length x s = Some (Inl st, y, s')"
        and "ss_phase s' = Ph_Failed"
      with q f wf show ?thesis by simp
    next
      assume eq: "verify_loop (logged B) H step_end signed_length x s
          = verify_loop (logged B) H step_end signed_length y s'"
        and v: "verifying floor H (content (fst y) (ss_target_slot s')) s'"
        and lt: "ss_completed s < ss_completed s'" and le: "ss_completed s' \<le> step_end"
      have t: "ss_total s' = ss_total s" using f by (simp add: fixed_fields_def)
      have dec: "unat step_end - unat (ss_completed s') < unat step_end - unat (ss_completed s)"
        using lt le by (simp add: word_less_nat_alt word_le_nat_alt diff_less_mono2)
      from less.hyps [OF dec v] less.prems(2,4) t le obtain r z s'' where
        "verify_loop (logged B) H step_end signed_length y s' = Some (r, z, s'')" "quiet content y z"
        "fixed_fields s'' = fixed_fields s'" "session_wf floor s''"
        "case r of Inl _ \<Rightarrow> ss_phase s'' = Ph_Failed
          | Inr _ \<Rightarrow> verifying floor H (content (fst z) (ss_target_slot s'')) s'' \<and> ss_completed s'' = step_end"
        by auto
      with quiet_trans [OF q] f eq show ?thesis by auto
    qed
  qed
qed

section \<open>Lemmas on the operations\<close>

definition same_config :: "('b, 'h) usb_updater \<Rightarrow> ('b, 'h) usb_updater \<Rightarrow> bool" where
  "same_config u u' \<longleftrightarrow> uu_trusted_key_digest u' = uu_trusted_key_digest u
     \<and> uu_current_version u' = uu_current_version u
     \<and> uu_current_version_length u' = uu_current_version_length u
     \<and> uu_current_secure_version u' = uu_current_secure_version u"

text \<open>
  What every operation guarantees from a state of the invariant: it returns, keeps the
  invariant and the configuration, and the calls it makes are permitted ones.
\<close>

definition outcome ::
  "('b \<Rightarrow> u8 \<Rightarrow> bytes) \<Rightarrow> (bytes \<Rightarrow> bytes \<Rightarrow> bytes \<Rightarrow> bool) \<Rightarrow> 'h sha256 \<Rightarrow>
   ('b \<times> mutation list, 'h) usb_updater \<Rightarrow> (status_code \<times> ('b \<times> mutation list, 'h) usb_updater) option \<Rightarrow> bool"
where
  "outcome content rsa H u r \<longleftrightarrow> (\<exists>st u' new. r = Some (st, u') \<and> updater_inv content H u'
     \<and> same_config u u' \<and> snd (uu_backend u') = snd (uu_backend u) @ new
     \<and> list_all (mutation_ok content rsa H u u') new)"

lemma outcome_same: "updater_inv content H u \<Longrightarrow> outcome content rsa H u (Some (st, u))"
  by (simp add: outcome_def same_config_def)

lemma outcome_put_back:
  assumes "updater_inv content H u" and "quiet content (uu_backend u) b"
    and "session_wf (uu_current_secure_version u) s"
    and "ss_phase s = Ph_Verifying \<Longrightarrow> hashed H (content (fst b) (ss_target_slot s)) s"
  shows "outcome content rsa H u (Some (st, put_back u b s))"
  using assms by (simp add: outcome_def put_back_def updater_inv_def quiet_def same_config_def)

lemma outcome_mutation:
  assumes "updater_inv content H u" and "snd b = snd (uu_backend u) @ [m]"
    and "session_wf (uu_current_secure_version u) s" and "ss_phase s \<noteq> Ph_Verifying"
    and "mutation_ok content rsa H u (put_back u b s) m"
  shows "outcome content rsa H u (Some (st, put_back u b s))"
  using assms by (simp add: outcome_def put_back_def updater_inv_def same_config_def)

text \<open>A later step may be judged from an earlier state with the same session fields.\<close>

lemma outcome_from:
  assumes "outcome content rsa H (put_back u b s') r" and "quiet content (uu_backend u) b"
    and "uu_session u = Some s" and "fixed_fields s' = fixed_fields s"
    and "ss_phase s' = Ph_Verifying" and "ss_phase s \<in> {Ph_Receiving, Ph_Verifying}"
  shows "outcome content rsa H u r"
proof -
  from assms(1) obtain st u' new where r: "r = Some (st, u')" and inv: "updater_inv content H u'"
    and cfg: "same_config u u'" and log: "snd (uu_backend u') = snd (uu_backend u) @ new"
    and ok: "list_all (mutation_ok content rsa H (put_back u b s') u') new"
    using assms(2) by (auto simp: outcome_def put_back_def quiet_def same_config_def)
  have "mutation_ok content rsa H u u' m" if "mutation_ok content rsa H (put_back u b s') u' m" for m
    using that assms(3-6) fixed_verified [OF assms(4)]
    by (cases m) (auto simp: put_back_def fixed_fields_def)
  then have "list_all (mutation_ok content rsa H u u') new" using ok by (simp add: list_all_iff)
  with r inv cfg log show ?thesis by (auto simp: outcome_def)
qed

lemma activate_target_ok:
  assumes B: "flash_backend B content rsa" and inv: "updater_inv content H u"
    and s: "uu_session u = Some s" and ph: "ss_phase s = Ph_Verifying"
    and q: "quiet content (uu_backend u) b"
    and ok: "verified_image H rsa (uu_trusted_key_digest u) (uu_current_secure_version u) s
      (content (fst (uu_backend u)) (ss_target_slot s))"
  shows "outcome content rsa H u (activate_target (logged B) u s b)"
proof -
  have wf: "session_wf (uu_current_secure_version u) s" using inv s by (simp add: updater_inv_def)
  have h: "hashed H (content (fst (uu_backend u)) (ss_target_slot s)) s"
    using inv s ph by (simp add: updater_inv_def)
  obtain lo b1 where lo: "ub_layout (logged B) b = (lo, b1)" by (meson surj_pair)
  obtain now b2 where now: "ub_now_ms (logged B) b1 = (now, b2)" by (meson surj_pair)
  obtain e s1 where ex: "session_expire s now = (e, s1)" by (meson surj_pair)
  obtain r b3 where act: "ub_activate (logged B) b2 (ss_target_slot s1) (ss_target_sequence s1)
      (ss_activation_entry s1) = (r, b3)" by (meson surj_pair)
  note q1 = quiet_trans [OF q logged_quiet(2) [OF B lo]]
  note q2 = quiet_trans [OF q1 logged_quiet(1) [OF B now]]
  note ev = session_expire_evolves(1) [OF ex]
  have failed: "outcome content rsa H u (Some (st, put_back u b1 (snd (fail s st))))" for st
    using outcome_put_back [OF inv q1 failed_wf [OF wf]] by (simp add: fail_def)
  have expired: "outcome content rsa H u (Some (st, put_back u b2 s1))" for st
    using outcome_put_back [OF inv q2 evolves_wf [OF ev wf]] evolves_hashed [OF ev h] q2 ev
    by (simp add: quiet_def evolves_def fixed_fields_def)
  have activated: "outcome content rsa H u (Some (st, put_back u b3 (s1\<lparr>ss_phase := p, ss_failure := f\<rparr>)))"
    if "p \<in> {Ph_Failed, Ph_Activated}" for st p f
  proof (rule outcome_mutation [OF inv])
    show "snd b3 = snd (uu_backend u) @ [M_Activate (ss_target_slot s) (ss_target_sequence s) (ss_activation_entry s)]"
      using logged_activate(2) [OF B act] q2 ev by (simp add: quiet_def evolves_def fixed_fields_def)
    show "session_wf (uu_current_secure_version u) (s1\<lparr>ss_phase := p, ss_failure := f\<rparr>)"
      using evolves_wf [OF ev wf] that unfolding session_wf_def by (elim conjE) auto
    show "mutation_ok content rsa H u (put_back u b3 (s1\<lparr>ss_phase := p, ss_failure := f\<rparr>))
        (M_Activate (ss_target_slot s) (ss_target_sequence s) (ss_activation_entry s))"
      using s ph ok logged_activate(1) [OF B act] q2 by (simp add: put_back_def quiet_def)
  qed (use that in auto)
  show ?thesis
    using lo now ex act failed expired activated [of Ph_Failed] activated [of Ph_Activated]
    by (cases lo; cases r) (auto simp: activate_target_def fail_def)
qed

lemma finish_verification_ok:
  assumes B: "flash_backend B content rsa" and C: "sha_contract H" and inv: "updater_inv content H u"
    and s: "uu_session u = Some s" and ph: "ss_phase s = Ph_Verifying"
    and full: "ss_completed s = ss_total s"
  shows "outcome content rsa H u (finish_verification (logged B) H u)"
proof -
  let ?img = "content (fst (uu_backend u)) (ss_target_slot s)" and ?floor = "uu_current_secure_version u"
  let ?signed = "take (unat (ss_total s) - 4096) ?img"
  note unfold = finish_verification_def s Let_def
  have wf: "session_wf ?floor s" and h: "hashed H ?img s" using inv s ph by (simp_all add: updater_inv_def)
  have failed: "outcome content rsa H u (Some (st, put_back u b (snd (fail s st))))"
    if "quiet content (uu_backend u) b" for st b
    using outcome_put_back [OF inv that failed_wf [OF wf]] by (simp add: fail_def)
  have total: "0x2000 \<le> unat (ss_total s)" using wf by (simp add: session_wf_def word_le_nat_alt)
  have off: "checked_sub (ss_total s) SIGNATURE_SECTOR_SIZE = Some (ss_total s - 4096)"
    "unat (ss_total s - 4096) = unat (ss_total s) - 4096"
    using total by (simp_all add: checked_sub_def update_consts word_le_nat_alt unat_sub)
  obtain version where ver: "expected_version s = Some version"
    using wf by (auto simp: expected_version_def session_wf_def subslice_def)
  have img: "unat (ss_total s) \<le> length ?img" using h full by (simp add: hashed_def)
  have dig: "sha_finalize H (ss_full_hasher s) = sha_digest H (take (unat (ss_total s)) ?img)"
    "sha_finalize H (ss_signed_hasher s) = sha_digest H ?signed"
    using h full absorbed_digest [OF C] total by (simp_all add: hashed_def)
  obtain rd b1 where rd: "ir_read (logged B) (uu_backend u) (ss_target_slot s) 0 APP_DESCRIPTOR_PREFIX_SIZE = (rd, b1)"
    by (meson surj_pair)
  obtain rb b2 where rb: "ir_read (logged B) b1 (ss_target_slot s) (ss_total s - 4096) SIGNATURE_BLOCK_SIZE = (rb, b2)"
    by (meson surj_pair)
  note q1 = logged_quiet(3) [OF B rd]
  note q2 = quiet_trans [OF q1 logged_quiet(3) [OF B rb]]
  show ?thesis
  proof (cases "sha_finalize H (ss_full_hasher s) = ss_expected_hash s")
    case False
    with failed show ?thesis by (simp add: unfold)
  next
    case hash: True
    show ?thesis
    proof (cases "Option.bind rd parse_image_metadata")
      case None
      with hash rd q1 failed show ?thesis by (cases rd) (simp_all add: unfold)
    next
      case (Some m)
      then obtain desc where desc: "rd = Some desc" "parse_image_metadata desc = Some m"
        by (auto split: bind_splits)
      have "desc = take 80 ?img"
        using logged_read [OF B rd [unfolded desc(1)]]
        by (auto simp: subslice_def image_consts split: if_splits)
      with desc have meta: "parse_image_metadata (take 80 ?img) = Some m" by simp
      show ?thesis
      proof (cases "im_secure_version m < ?floor \<or> im_secure_version m \<noteq> ss_expected_secure_version s
          \<or> im_version m \<noteq> version")
        case True
        with hash rd desc ver q1 failed show ?thesis by (auto simp: unfold)
      next
        case mv: False
        show ?thesis
        proof (cases "Option.bind rb (\<lambda>block. parse_signature_block H block (uu_trusted_key_digest u))")
          case None
          with hash rd desc ver mv rb off q2 failed show ?thesis by (cases rb) (simp_all add: unfold)
        next
          case (Some sg)
          then obtain block where block: "rb = Some block"
            "parse_signature_block H block (uu_trusted_key_digest u) = Some sg"
            by (auto split: bind_splits)
          obtain v b3 where v: "ir_verify_rsa_pss (logged B) b2 (sig_public_key sg) (sig_signature sg)
              (sha_finalize H (ss_signed_hasher s)) = (v, b3)" by (meson surj_pair)
          note q3 = quiet_trans [OF q2 logged_quiet(4) [OF B v]]
          have "subslice ?img (length ?signed) (length ?signed + SIGNATURE_BLOCK_SIZE) = Some block"
            using logged_read [OF B rb [unfolded block(1)]] q1 off(2) img total by (simp add: quiet_def)
          then have "verified_image H rsa (uu_trusted_key_digest u) ?floor s ?img"
            if "sig_image_digest sg = sha_finalize H (ss_signed_hasher s)" "v = Some True"
            using that img hash dig meta mv ver block(2) logged_verify [OF B, of b2 _ _ _ True b3] v
            by (auto simp: verified_image_def Let_def)
          note activate = activate_target_ok [OF B inv s ph q3 this]
          have step: "finish_verification (logged B) H u =
              (if sig_image_digest sg \<noteq> sha_finalize H (ss_signed_hasher s)
               then Some (St_Signature, put_back u b2 (snd (fail s St_Signature)))
               else case v of
                 None \<Rightarrow> Some (St_Flash, put_back u b3 (snd (fail s St_Flash)))
               | Some False \<Rightarrow> Some (St_Signature, put_back u b3 (snd (fail s St_Signature)))
               | Some True \<Rightarrow> activate_target (logged B) u s b3)"
            using hash rd desc ver mv rb off block v by (simp add: unfold)
          show ?thesis
            unfolding step using failed [OF q2] failed [OF q3] activate by (auto split: option.splits bool.splits)
        qed
      qed
    qed
  qed
qed

lemma verify_step_ok:
  assumes B: "flash_backend B content rsa" and C: "sha_contract H" and inv: "updater_inv content H u"
    and s: "uu_session u = Some s" and ph: "ss_phase s = Ph_Verifying"
  shows "outcome content rsa H u (verify_step (logged B) H u)"
proof -
  let ?floor = "uu_current_secure_version u"
  have wf: "session_wf ?floor s" and v: "verifying ?floor H (content (fst (uu_backend u)) (ss_target_slot s)) s"
    using inv s ph by (simp_all add: updater_inv_def verifying_def)
  then have bounds: "unat (ss_completed s) \<le> unat (ss_total s)" "0x2000 \<le> unat (ss_total s)"
    "unat (ss_total s) \<le> 0x1e0000"
    by (simp_all add: session_wf_def word_le_nat_alt)
  define e where "e = min (ss_completed s + 0x10000) (ss_total s)"
  have uadd: "unat (ss_completed s + 0x10000) = unat (ss_completed s) + 0x10000"
    using bounds by (simp add: unat_word_ariths)
  have e: "e \<le> ss_total s" "ss_completed s \<le> e"
    using bounds uadd by (auto simp: e_def min_def word_le_nat_alt)
  have c1: "checked_add (ss_completed s) VERIFY_STEP_SIZE = Some (ss_completed s + 0x10000)"
    "checked_sub (ss_total s) SIGNATURE_SECTOR_SIZE = Some (ss_total s - 4096)"
    using bounds by (simp_all add: checked_sub_def update_consts word_le_nat_alt)
  obtain r y s1 where loop: "verify_loop (logged B) H e (ss_total s - 4096) (uu_backend u) s = Some (r, y, s1)"
    and q: "quiet content (uu_backend u) y" and f: "fixed_fields s1 = fixed_fields s"
    and wf1: "session_wf ?floor s1"
    and r: "case r of Inl _ \<Rightarrow> ss_phase s1 = Ph_Failed
        | Inr _ \<Rightarrow> verifying ?floor H (content (fst y) (ss_target_slot s1)) s1 \<and> ss_completed s1 = e"
    using verify_loop_ok [OF B v e refl] by blast
  obtain now y2 where now: "ub_now_ms (logged B) y = (now, y2)" by (meson surj_pair)
  obtain x s2 where ex: "session_expire s1 now = (x, s2)" by (meson surj_pair)
  obtain now' y3 where now': "ub_now_ms (logged B) y2 = (now', y3)" by (meson surj_pair)
  obtain st s3 where pr: "session_progress s2 now' = (st, s3)" by (meson surj_pair)
  note q2 = quiet_trans [OF q logged_quiet(1) [OF B now]]
  note q3 = quiet_trans [OF q2 logged_quiet(1) [OF B now']]
  show ?thesis
  proof (cases r)
    case (Inl st)
    then have "verify_step (logged B) H u = Some (st, put_back u y s1)"
      using s loop c1 by (simp add: verify_step_def e_def)
    with outcome_put_back [OF inv q wf1] r Inl show ?thesis by simp
  next
    case (Inr z)
    then have v1: "verifying ?floor H (content (fst y) (ss_target_slot s1)) s1" using r by simp
    note ev = session_expire_evolves(1) [OF ex] session_progress_evolves [OF pr]
    have same: "ss_target_slot s2 = ss_target_slot s1" "ss_target_slot s3 = ss_target_slot s1"
      "fixed_fields s2 = fixed_fields s"
      using ev f by (auto simp: evolves_def fixed_fields_def)
    have wf2: "session_wf ?floor s2" and wf3: "session_wf ?floor s3"
      using evolves_wf [OF ev(1) wf1] evolves_wf [OF ev(2)] by auto
    have h: "hashed H (content (fst y2) (ss_target_slot s2)) s2" "hashed H (content (fst y3) (ss_target_slot s3)) s3"
      using evolves_hashed [OF ev(1)] evolves_hashed [OF ev(2)] v1 q q2 q3 same
      by (simp_all add: verifying_def quiet_def)
    have res: "verify_step (logged B) H u = (if x then Some (St_SessionExpired, put_back u y2 s2)
        else if ss_completed s2 \<noteq> ss_total s2 then Some (st, put_back u y3 s3)
        else finish_verification (logged B) H (put_back u y2 s2))"
      using s loop c1 Inr now ex now' pr by (simp add: verify_step_def e_def)
    have "outcome content rsa H u (finish_verification (logged B) H (put_back u y2 s2))"
      if "\<not> x" and full: "ss_completed s2 = ss_total s2"
    proof -
      have ph2: "ss_phase s2 = Ph_Verifying"
        using session_expire_evolves(2) [of s1 now s2] ex that(1) v1 by (simp add: verifying_def)
      have inv2: "updater_inv content H (put_back u y2 s2)"
        using inv wf2 h(1) by (simp add: updater_inv_def put_back_def)
      have "outcome content rsa H (put_back u y2 s2) (finish_verification (logged B) H (put_back u y2 s2))"
        by (rule finish_verification_ok [OF B C inv2 _ ph2 full]) (simp add: put_back_def)
      then show ?thesis by (rule outcome_from [OF _ q2 s same(3) ph2]) (simp add: ph)
    qed
    then show ?thesis
      unfolding res using outcome_put_back [OF inv q2 wf2] outcome_put_back [OF inv q3 wf3] h by simp
  qed
qed

lemma erase_step_ok:
  assumes inv: "updater_inv content H u" and q: "quiet content (uu_backend u) b"
    and s: "uu_session u = Some s" and wf: "session_wf (uu_current_secure_version u) s1"
    and same: "fixed_fields s1 = fixed_fields s" "ss_completed s1 = ss_completed s"
    and ph: "ss_phase s = Ph_Erasing" "ss_phase s1 = Ph_Erasing"
    and B: "flash_backend B content rsa"
  shows "outcome content rsa H u (erase_step (logged B) u s1 b)"
proof -
  define len where "len = min (ss_total s1 - ss_completed s1) 0x10000"
  have le: "ss_completed s1 \<le> ss_total s1" using wf by (simp add: session_wf_def)
  have ulen: "unat len = min (unat (ss_total s1) - unat (ss_completed s1)) 0x10000"
    using unat_sub [OF le] by (simp add: len_def min_def word_le_nat_alt)
  have tot: "unat (ss_completed s1) + unat len \<le> unat (ss_total s1)"
    using le ulen by (simp add: word_le_nat_alt)
  define c where "c = ss_completed s1 + len"
  have uc: "unat c = unat (ss_completed s1) + unat len"
    and c: "checked_sub (ss_total s1) (ss_completed s1) = Some (ss_total s1 - ss_completed s1)"
      "checked_add (ss_completed s1) len = Some c"
    using tot le unsigned_less [of "ss_total s1", where 'a = nat]
    by (simp_all add: c_def unat_word_ariths checked_sub_def)
  let ?s2 = "if c = ss_total s1 then s1\<lparr>ss_completed := 0, ss_phase := Ph_Receiving\<rparr>
    else s1\<lparr>ss_completed := c\<rparr>"
  obtain r b1 where er: "ub_erase (logged B) b (ss_target_slot s1) (ss_completed s1) len = (r, b1)"
    by (meson surj_pair)
  obtain now b2 where now: "ub_now_ms (logged B) b1 = (now, b2)" by (meson surj_pair)
  obtain st s3 where pr: "session_progress ?s2 now = (st, s3)" by (meson surj_pair)
  let ?m = "M_Erase (ss_target_slot s1) (ss_completed s1) len"
  have permitted: "mutation_ok content rsa H u u' ?m" for u'
    using s ph same tot by (simp add: fixed_fields_def)
  have log: "snd b1 = snd (uu_backend u) @ [?m]" "snd b2 = snd (uu_backend u) @ [?m]"
    using logged_mutations(1) [OF er] logged_quiet(1) [OF B now] q by (simp_all add: quiet_def)
  have "session_wf (uu_current_secure_version u) ?s2"
    using wf tot unfolding session_wf_def by (elim conjE) (simp add: word_le_nat_alt uc)
  then have wf3: "session_wf (uu_current_secure_version u) s3"
    by (rule evolves_wf [OF session_progress_evolves [OF pr]])
  have ph3: "ss_phase s3 \<noteq> Ph_Verifying"
    using session_progress_evolves [OF pr] ph by (auto simp: evolves_def split: if_splits)
  show ?thesis
  proof (cases r)
    case True
    with c er now pr have "erase_step (logged B) u s1 b = Some (st, put_back u b2 s3)"
      by (simp add: erase_step_def update_consts Let_def flip: len_def)
    with outcome_mutation [OF inv log(2) wf3 ph3 permitted] show ?thesis by simp
  next
    case False
    with c er have "erase_step (logged B) u s1 b
        = Some (St_Flash, put_back u b1 (s1\<lparr>ss_phase := Ph_Failed, ss_failure := St_Flash\<rparr>))"
      by (simp add: erase_step_def update_consts Let_def flip: len_def)
    with outcome_mutation [OF inv log(1) failed_wf [OF wf] _ permitted] show ?thesis by simp
  qed
qed

lemma advance_ok:
  assumes B: "flash_backend B content rsa" and C: "sha_contract H" and inv: "updater_inv content H u"
  shows "outcome content rsa H u (advance (logged B) H u request)"
proof (cases "\<exists>s. uu_session u = Some s \<and> parse_session_id request = Some (ss_id s)")
  case False
  then show ?thesis
    using outcome_same [OF inv] by (auto simp: advance_def split: option.splits)
next
  case True
  then obtain s where s: "uu_session u = Some s" and sid: "parse_session_id request = Some (ss_id s)" by blast
  let ?floor = "uu_current_secure_version u"
  have wf: "session_wf ?floor s"
    and h: "ss_phase s = Ph_Verifying \<Longrightarrow> hashed H (content (fst (uu_backend u)) (ss_target_slot s)) s"
    using inv s by (auto simp: updater_inv_def)
  obtain now b where now: "ub_now_ms (logged B) (uu_backend u) = (now, b)" by (meson surj_pair)
  obtain x s1 where ex: "session_expire s now = (x, s1)" by (meson surj_pair)
  note q = logged_quiet(1) [OF B now] and ev = session_expire_evolves(1) [OF ex]
  have wf1: "session_wf ?floor s1" by (rule evolves_wf [OF ev wf])
  have same: "fixed_fields s1 = fixed_fields s" "ss_target_slot s1 = ss_target_slot s"
    "ss_completed s1 = ss_completed s" "ss_total s1 = ss_total s"
    using ev by (auto simp: evolves_def fixed_fields_def)
  have h1: "ss_phase s1 = Ph_Verifying \<Longrightarrow> hashed H (content (fst b) (ss_target_slot s1)) s1"
    using evolves_hashed [OF ev] h ev q same by (auto simp: quiet_def evolves_def)
  have stay: "outcome content rsa H u (Some (st, put_back u b s1))" for st
    by (rule outcome_put_back [OF inv q wf1 h1])
  show ?thesis
  proof (cases "x \<or> ss_phase s1 \<notin> {Ph_Erasing, Ph_Receiving, Ph_Verifying}
      \<or> ss_phase s1 = Ph_Receiving \<and> ss_completed s1 \<noteq> ss_total s1")
    case True
    with stay s sid now ex show ?thesis by (auto simp: advance_def split: phase.splits)
  next
    case False
    then have ph: "ss_phase s = ss_phase s1" using session_expire_evolves(2) [of s now s1] ex by simp
    have verify: "outcome content rsa H u (verify_step (logged B) H (put_back u b s2))"
      if "ss_phase s2 = Ph_Verifying" "fixed_fields s2 = fixed_fields s" "ss_phase s \<in> {Ph_Receiving, Ph_Verifying}"
        "session_wf ?floor s2" "hashed H (content (fst b) (ss_target_slot s2)) s2" for s2
    proof (rule outcome_from [OF _ q s that(2,1,3)])
      show "outcome content rsa H (put_back u b s2) (verify_step (logged B) H (put_back u b s2))"
        by (rule verify_step_ok [OF B C _ _ that(1)]) (use inv that in \<open>simp_all add: put_back_def updater_inv_def\<close>)
    qed
    consider "ss_phase s1 = Ph_Erasing" | "ss_phase s1 = Ph_Receiving" "ss_completed s1 = ss_total s1"
      | "ss_phase s1 = Ph_Verifying" using False by blast
    then show ?thesis
    proof cases
      case 1
      then have "advance (logged B) H u request = erase_step (logged B) u s1 b"
        using False s sid now ex by (simp add: advance_def)
      with erase_step_ok [OF inv q s wf1] same ph 1 B show ?thesis by simp
    next
      case 2
      let ?s2 = "s1\<lparr>ss_phase := Ph_Verifying, ss_completed := 0, ss_full_hasher := sha_new H,
         ss_signed_hasher := sha_new H\<rparr>"
      have "session_wf ?floor ?s2" using wf1 unfolding session_wf_def by (elim conjE) simp
      moreover have "hashed H img ?s2" for img by (simp add: hashed_def absorbed_new)
      ultimately have "outcome content rsa H u (verify_step (logged B) H (put_back u b ?s2))"
        by (intro verify) (use 2 same ph in \<open>simp_all add: fixed_fields_def\<close>)
      with 2 False s sid now ex show ?thesis by (simp add: advance_def)
    next
      case 3
      with verify [of s1] h1 wf1 same ph False s sid now ex show ?thesis by (simp add: advance_def)
    qed
  qed
qed

lemma write_update_ok:
  assumes B: "flash_backend B content rsa" and inv: "updater_inv content H u"
  shows "outcome content rsa H u (write_update (logged B) u request)"
proof (cases "length request < 9 \<or> 9 + MAX_WRITE_CHUNK < length request")
  case True
  with outcome_same [OF inv] show ?thesis by (auto simp: write_update_def)
next
  case False
  then have len: "9 \<le> length request" "length request \<le> 1001" by (simp_all add: MAX_WRITE_CHUNK_def)
  obtain sid where sid: "Option.bind (subslice request 0 4) from_le32 = Some sid"
    using le32.slice_dec_total [of 0 request] len by auto
  obtain off where off: "Option.bind (subslice request 4 8) from_le32 = Some off"
    using le32.slice_dec_total [of 4 request] len by auto
  let ?d = "drop 8 request"
  have d: "subslice request 8 (length request) = Some ?d" using len by (simp add: subslice_def)
  show ?thesis
  proof (cases "\<exists>s. uu_session u = Some s \<and> ss_id s = sid")
    case nos: False
    with outcome_same [OF inv] False sid off d show ?thesis
      by (auto simp: write_update_def split: option.splits)
  next
    case True
    then obtain s where s: "uu_session u = Some s" "ss_id s = sid" by blast
    let ?floor = "uu_current_secure_version u"
    obtain now b where now: "ub_now_ms (logged B) (uu_backend u) = (now, b)" by (meson surj_pair)
    obtain x s1 where ex: "session_expire s now = (x, s1)" by (meson surj_pair)
    note q = logged_quiet(1) [OF B now] and ev = session_expire_evolves(1) [OF ex]
    have wf: "session_wf ?floor s1"
      using evolves_wf [OF ev] inv s by (simp add: updater_inv_def)
    have h1: "ss_phase s1 = Ph_Verifying \<Longrightarrow> hashed H (content (fst b) (ss_target_slot s1)) s1"
      using evolves_hashed [OF ev] ev q inv s by (auto simp: quiet_def evolves_def updater_inv_def fixed_fields_def)
    have stay: "outcome content rsa H u (Some (st, put_back u b s1))" for st
      by (rule outcome_put_back [OF inv q wf h1])
    have ulen: "unat (of_nat (length ?d) :: u32) = length ?d"
      using len by (simp add: unat_of_nat del: length_drop of_nat_diff) (simp add: take_bit_nat_eq_self)
    define e where "e = off + of_nat (length ?d)"
    show ?thesis
    proof (cases "x \<or> ss_phase s1 \<noteq> Ph_Receiving \<or> ?d = [] \<or> length ?d mod 32 \<noteq> 0 \<or> off \<noteq> ss_completed s1
        \<or> 2 ^ 32 \<le> unat off + length ?d \<or> ss_total s1 < e")
      case True
      with stay False s sid off d now ex ulen show ?thesis
        by (auto simp: write_update_def checked_add_def e_def Let_def simp del: length_drop)
    next
      case go: False
      then have ph: "ss_phase s = Ph_Receiving"
        using session_expire_evolves(2) [of s now s1] ex by simp
      have ue: "unat e = unat off + length ?d" using go ulen
        by (simp add: e_def unat_word_ariths del: length_drop of_nat_diff)
      have tot: "unat off + length ?d \<le> unat (ss_total s1)" using go ue
        by (auto simp: word_less_nat_alt not_less simp del: length_drop)
      obtain r b1 where w: "ub_write (logged B) b (ss_target_slot s1) off ?d = (r, b1)" by (meson surj_pair)
      obtain now' b2 where now': "ub_now_ms (logged B) b1 = (now', b2)" by (meson surj_pair)
      obtain st s3 where pr: "session_progress (s1\<lparr>ss_completed := e\<rparr>) now' = (st, s3)" by (meson surj_pair)
      let ?m = "M_Write (ss_target_slot s1) off ?d"
      have permitted: "mutation_ok content rsa H u u' ?m" for u'
        using s ph go ev tot by (auto simp: evolves_def fixed_fields_def)
      have log: "snd b1 = snd (uu_backend u) @ [?m]" "snd b2 = snd (uu_backend u) @ [?m]"
        using logged_mutations(2) [OF w] logged_quiet(1) [OF B now'] q by (simp_all add: quiet_def)
      have "session_wf ?floor (s1\<lparr>ss_completed := e\<rparr>)"
        using wf tot unfolding session_wf_def by (elim conjE) (simp add: word_le_nat_alt ue)
      then have wf3: "session_wf ?floor s3" by (rule evolves_wf [OF session_progress_evolves [OF pr]])
      have ph3: "ss_phase s3 \<noteq> Ph_Verifying"
        using session_progress_evolves [OF pr] go by (auto simp: evolves_def)
      have "write_update (logged B) u request = (if r then Some (st, put_back u b2 s3)
          else Some (St_Flash, put_back u b1 (s1\<lparr>ss_phase := Ph_Failed, ss_failure := St_Flash\<rparr>)))"
        using go False s sid off d now ex ulen w now' pr
        by (auto simp: write_update_def checked_add_def e_def Let_def simp del: length_drop split: if_splits)
      with outcome_mutation [OF inv log(2) wf3 ph3 permitted]
        outcome_mutation [OF inv log(1) failed_wf [OF wf] _ permitted] show ?thesis by simp
    qed
  qed
qed

lemma begin_update_ok:
  assumes B: "flash_backend B content rsa" and inv: "updater_inv content H u"
  shows "outcome content rsa H u (begin_update (logged B) H u request present)"
proof (cases "length request < 42")
  case True
  with outcome_same [OF inv] show ?thesis by (simp add: begin_update_def)
next
  case False
  then have len: "42 \<le> length request" by simp
  obtain total where total: "Option.bind (subslice request 1 5) from_le32 = Some total"
    using le32.slice_dec_total [of 1 request] len by auto
  note total' = total [unfolded One_nat_def]
  obtain sv where sv: "Option.bind (subslice request 37 41) from_le32 = Some sv"
    using le32.slice_dec_total [of 37 request] len by auto
  let ?vl = "unat (request ! 41)"
  have parts: "index request 0 = Some (request ! 0)" "index request 41 = Some (request ! 41)"
    "subslice request 5 37 = Some (take 32 (drop 5 request))"
    "subslice request 42 (length request) = Some (drop 42 request)"
    using len by (auto simp: index_def subslice_def)
  note unfold = begin_update_def total' sv parts Let_def
  show ?thesis
  proof (cases "request ! 0 \<noteq> PROTOCOL_VERSION \<or> length request \<noteq> 42 + ?vl \<or> ?vl = 0 \<or> MAX_VERSION_LENGTH < ?vl
      \<or> \<not> (SIGNATURE_SECTOR_SIZE * 2 \<le> total \<and> total \<le> OTA_SLOT_SIZE) \<or> total mod SIGNATURE_SECTOR_SIZE \<noteq> 0
      \<or> sv < uu_current_secure_version u \<or> \<not> present")
    case True
    with outcome_same [OF inv] len show ?thesis by (auto simp: unfold)
  next
    case go: False
    obtain now b where now: "ub_now_ms (logged B) (uu_backend u) = (now, b)" by (meson surj_pair)
    obtain lo b1 where lo: "ub_layout (logged B) b = (lo, b1)" by (meson surj_pair)
    note q1 = quiet_trans [OF logged_quiet(1) [OF B now] logged_quiet(2) [OF B lo]]
    have stay: "outcome content rsa H u (Some (st, u\<lparr>uu_backend := b1\<rparr>))" for st
      using inv q1 by (auto simp: outcome_def updater_inv_def quiet_def same_config_def split: option.splits)
    show ?thesis
    proof (cases lo)
      case None
      with go len now lo stay show ?thesis by (simp add: unfold)
    next
      case (Some l)
      show ?thesis
      proof (cases "1 < ul_active_slot l \<or> 1 < ul_activation_entry l
          \<or> next_sequence (ul_active_sequence l) (1 - ul_active_slot l) = None")
        case True
        with Some go len now lo stay show ?thesis by (auto simp: unfold checked_sub_def)
      next
        case ok: False
        then obtain q where q: "next_sequence (ul_active_sequence l) (1 - ul_active_slot l) = Some q" by auto
        obtain v where v: "copy_from_slice (replicate MAX_VERSION_LENGTH 0) 0 ?vl (drop 42 request) = Some v"
          using go by (auto simp: copy_from_slice_def)
        define s0 where "s0 = \<lparr>ss_started_ms = now, ss_last_progress_ms = now, ss_last_checked_ms = now,
          ss_id = uu_next_session_id u, ss_phase = Ph_Erasing, ss_target_slot = 1 - ul_active_slot l,
          ss_active_slot = ul_active_slot l, ss_active_sequence = ul_active_sequence l,
          ss_activation_entry = ul_activation_entry l, ss_target_sequence = q, ss_total = total,
          ss_expected_hash = take 32 (drop 5 request), ss_expected_secure_version = sv,
          ss_expected_version = v, ss_expected_version_length = ?vl, ss_completed = 0,
          ss_full_hasher = sha_new H, ss_signed_hasher = sha_new H, ss_failure = St_Ok\<rparr>"
        obtain now' b2 where now': "ub_now_ms (logged B) b1 = (now', b2)" by (meson surj_pair)
        obtain st s3 where pr: "session_progress s0 now' = (st, s3)" by (meson surj_pair)
        note q2 = quiet_trans [OF q1 logged_quiet(1) [OF B now']]
        have slice: "subslice request 42 (42 + ?vl) = Some (drop 42 request)" using go parts(4) by auto
        have res: "begin_update (logged B) H u request present = Some (st,
            put_back (u\<lparr>uu_next_session_id := max (uu_next_session_id u + 1) 1\<rparr>) b2 s3)"
          using Some go len now lo ok q v now' pr
          by (auto simp: unfold checked_sub_def s0_def slice)
        have "session_wf (uu_current_secure_version u) s0"
          using go ok q copy_from_slice_length [OF v]
          by (simp add: session_wf_def s0_def image_consts not_less)
        then have "session_wf (uu_current_secure_version u) s3"
          by (rule evolves_wf [OF session_progress_evolves [OF pr]])
        moreover have "ss_phase s3 \<noteq> Ph_Verifying"
          using session_progress_evolves [OF pr] by (auto simp: evolves_def s0_def)
        ultimately show ?thesis
          unfolding res using inv q2
          by (simp add: outcome_def updater_inv_def put_back_def same_config_def quiet_def)
      qed
    qed
  qed
qed

section \<open>Lemmas on the request handler\<close>

definition session_fields :: "'h session option \<Rightarrow> phase \<times> u8 \<times> u32 \<times> u32 \<times> u32" where
  "session_fields so = (case so of
       Some s \<Rightarrow> (ss_phase s, ss_target_slot s, ss_id s, ss_completed s, ss_total s)
     | None \<Rightarrow> (Ph_Idle, 0xff, 0, 0, 0))"

text \<open>The wire format of a response.\<close>

definition response_bytes :: "('b, 'h) usb_updater \<Rightarrow> status_code \<Rightarrow> bytes" where
  "response_bytes u status = (case session_fields (uu_session u) of
     (phase, slot, sid, completed, tot) \<Rightarrow>
       [status_number status, 1, phase_number phase, slot] @ to_le32 sid @ to_le32 completed
       @ to_le32 tot @ to_le32 (uu_current_secure_version u)
       @ of_nat (uu_current_version_length u) # take (uu_current_version_length u) (uu_current_version u))"

lemma encode_response_eq:
  assumes "21 + uu_current_version_length u \<le> length output"
    and "uu_current_version_length u \<le> length (uu_current_version u)"
  shows "encode_response u status output = Some (21 + uu_current_version_length u,
    response_bytes u status @ drop (21 + uu_current_version_length u) output)"
proof -
  let ?vl = "uu_current_version_length u" and ?v = "take (uu_current_version_length u) (uu_current_version u)"
  let ?rest = "drop (21 + ?vl) output" and ?z = "\<lambda>n. replicate (n + ?vl) (0 :: u8)"
  obtain ph sl sid co to where f: "session_fields (uu_session u) = (ph, sl, sid, co, to)"
    by (metis prod_cases5)
  let ?p0 = "[status_number status, 1, phase_number ph, sl]"
  let ?p1 = "?p0 @ to_le32 sid" let ?p2 = "?p1 @ to_le32 co" let ?p3 = "?p2 @ to_le32 to"
  let ?p4 = "?p3 @ to_le32 (uu_current_secure_version u)" let ?p5 = "?p4 @ [of_nat ?vl]"
  have fields: "(case uu_session u of
      Some s \<Rightarrow> (ss_phase s, ss_target_slot s, ss_id s, ss_completed s, ss_total s)
    | None \<Rightarrow> (Ph_Idle, - 1, 0, 0, 0)) = (ph, sl, sid, co, to)"
    using f by (simp add: session_fields_def split: option.splits)
  have v: "subslice (uu_current_version u) 0 ?vl = Some ?v" "length ?v = ?vl"
    using assms(2) by (simp_all add: subslice_def)
  have "copy_from_slice output 0 (21 + ?vl) (?z 21) = Some (?z 21 @ ?rest)"
    using assms(1) by (simp add: copy_from_slice_def)
  moreover have "store (?z 21 @ ?rest) 0 a = Some ([a] @ ?z 20 @ ?rest)" for a
    using fill_store [of "21 + ?vl" 0 "[]" 0 ?rest a] by simp
  moreover have "store ([a] @ ?z 20 @ ?rest) 1 b = Some ([a, b] @ ?z 19 @ ?rest)" for a b
    using fill_store [of "20 + ?vl" 1 "[a]" 0 ?rest b] by simp
  moreover have "store ([a, b] @ ?z 19 @ ?rest) 2 c = Some ([a, b, c] @ ?z 18 @ ?rest)" for a b c
    using fill_store [of "19 + ?vl" 2 "[a, b]" 0 ?rest c] by simp
  moreover have "store ([a, b, c] @ ?z 18 @ ?rest) 3 d = Some ([a, b, c, d] @ ?z 17 @ ?rest)" for a b c d
    using fill_store [of "18 + ?vl" 3 "[a, b, c]" 0 ?rest d] by simp
  moreover have "copy_from_slice (?p0 @ ?z 17 @ ?rest) 4 8 (to_le32 sid) = Some (?p1 @ ?z 13 @ ?rest)"
    by (subst fill_copy) simp_all
  moreover have "copy_from_slice (?p1 @ ?z 13 @ ?rest) 8 12 (to_le32 co) = Some (?p2 @ ?z 9 @ ?rest)"
    by (subst fill_copy) simp_all
  moreover have "copy_from_slice (?p2 @ ?z 9 @ ?rest) 12 16 (to_le32 to) = Some (?p3 @ ?z 5 @ ?rest)"
    by (subst fill_copy) simp_all
  moreover have "copy_from_slice (?p3 @ ?z 5 @ ?rest) 16 20 (to_le32 (uu_current_secure_version u))
      = Some (?p4 @ ?z 1 @ ?rest)"
    by (subst fill_copy) simp_all
  moreover have "store (?p4 @ ?z 1 @ ?rest) 20 (of_nat ?vl) = Some (?p5 @ replicate ?vl 0 @ ?rest)"
    by (subst fill_store) simp_all
  moreover have "copy_from_slice (?p5 @ replicate ?vl 0 @ ?rest) 21 (21 + ?vl) ?v = Some (?p5 @ ?v @ ?rest)"
    using v(2) by (subst fill_copy) simp_all
  moreover have "response_bytes u status = ?p5 @ ?v" by (simp add: response_bytes_def f)
  ultimately show ?thesis
    using assms(1) v(1)
    by (simp only: encode_response_def Let_def fields split PROTOCOL_VERSION_def bind.bind_lunit not_less
        if_False append_assoc) simp
qed

lemma poll_session:
  "uu_session (poll B u) = None \<longleftrightarrow> uu_session u = None"
  by (simp add: poll_def split: option.splits prod.splits)

lemma poll_ok:
  assumes B: "flash_backend B content rsa" and inv: "updater_inv content H u"
  shows "updater_inv content H (poll (logged B) u)" and "same_config u (poll (logged B) u)"
    and "quiet content (uu_backend u) (uu_backend (poll (logged B) u))"
    and "uu_session u = Some s \<Longrightarrow> \<exists>s'. uu_session (poll (logged B) u) = Some s' \<and> evolves s s'"
proof -
  obtain now b where now: "ub_now_ms (logged B) (uu_backend u) = (now, b)" by (meson surj_pair)
  note q = logged_quiet(1) [OF B now]
  show "same_config u (poll (logged B) u)"
    by (simp add: poll_def same_config_def now split: option.splits)
  show "quiet content (uu_backend u) (uu_backend (poll (logged B) u))"
    using q by (simp add: poll_def now split: option.splits)
  have step: "evolves t (snd (session_expire t now))" for t :: "'c session"
    using session_expire_evolves(1) by (metis prod.collapse)
  then show "uu_session u = Some s \<Longrightarrow> \<exists>s'. uu_session (poll (logged B) u) = Some s' \<and> evolves s s'"
    by (simp add: poll_def now)
  have "hashed H (content (fst b) (ss_target_slot t)) t"
    if "evolves s t" "uu_session u = Some s" "ss_phase t = Ph_Verifying" for s t
    using that evolves_hashed [OF that(1)] inv q
    by (auto simp: evolves_def updater_inv_def quiet_def fixed_fields_def)
  from this [OF step] show "updater_inv content H (poll (logged B) u)"
    using inv evolves_wf [OF step] by (auto simp: poll_def now updater_inv_def split: option.splits)
qed

lemma mutation_ok_poll:
  assumes "flash_backend B content rsa" and "updater_inv content H u"
    and "mutation_ok content rsa H (poll (logged B) u) u' m"
  shows "mutation_ok content rsa H u u' m"
proof (cases "uu_session u")
  case None
  then show ?thesis
    using assms(3) poll_session [of "logged B" u] by (cases m) (simp_all split: option.splits)
next
  case (Some s)
  then obtain s' where s': "uu_session (poll (logged B) u) = Some s'" and ev: "evolves s s'"
    using poll_ok(4) [OF assms(1,2)] by blast
  moreover from ev have "verified_image H rsa k f s' img = verified_image H rsa k f s img" for k f img
    by (intro fixed_verified) (simp add: evolves_def)
  ultimately show ?thesis
    using assms(3) poll_ok(2) [OF assms(1,2)] Some
    by (cases m) (auto simp: evolves_def fixed_fields_def same_config_def)
qed

lemma handle_inner_ok:
  assumes "flash_backend B content rsa" and "sha_contract H" and inv: "updater_inv content H u"
  shows "outcome content rsa H u (handle_inner (logged B) H u request present)"
proof -
  have "outcome content rsa H u (Some (abort u body))" for body
    using outcome_same [OF inv] inv
    by (auto simp: abort_def outcome_def updater_inv_def same_config_def split: option.splits)
  then show ?thesis
    using outcome_same [OF inv] begin_update_ok [OF assms(1) inv] write_update_ok [OF assms(1) inv]
      advance_ok [OF assms]
    by (auto simp: handle_inner_def split: list.splits option.splits operation.splits)
qed

lemma handle_ok:
  assumes B: "flash_backend B content rsa" and C: "sha_contract H" and inv: "updater_inv content H u"
    and resp: "52 \<le> length resp"
  shows "\<exists>st u' new. handle (logged B) H u request present resp =
      Some (21 + uu_current_version_length u,
        response_bytes u' st @ drop (21 + uu_current_version_length u) resp, u')
    \<and> updater_inv content H u' \<and> snd (uu_backend u') = snd (uu_backend u) @ new
    \<and> list_all (mutation_ok content rsa H (poll (logged B) u) u') new"
proof -
  note p = poll_ok(1-3) [OF B inv]
  obtain st u' new where r: "handle_inner (logged B) H (poll (logged B) u) request present = Some (st, u')"
    and inv': "updater_inv content H u'" and cfg: "same_config (poll (logged B) u) u'"
    and new: "snd (uu_backend u') = snd (uu_backend (poll (logged B) u)) @ new"
      "list_all (mutation_ok content rsa H (poll (logged B) u) u') new"
    using handle_inner_ok [OF B C p(1), of request present] by (auto simp: outcome_def)
  have vl: "uu_current_version_length u' = uu_current_version_length u"
    using p(2) cfg by (simp add: same_config_def)
  have "encode_response u' st resp = Some (21 + uu_current_version_length u',
      response_bytes u' st @ drop (21 + uu_current_version_length u') resp)"
    using inv' resp by (intro encode_response_eq) (simp_all add: updater_inv_def MAX_VERSION_LENGTH_def)
  with r inv' new p(3) vl show ?thesis by (auto simp: handle_def quiet_def)
qed

text \<open>The updater as a machine driven by requests.\<close>

definition updater_step ::
  "('b, 'z) update_backend_scheme \<Rightarrow> 'h sha256 \<Rightarrow> ('b, 'h) usb_updater \<Rightarrow> bytes \<times> bool \<times> bytes \<Rightarrow>
   ('b, 'h) usb_updater option" where
  "updater_step B H u ev = (case ev of (request, user_present, response) \<Rightarrow>
     map_option (\<lambda>(n, out, u'). u') (handle B H u request user_present response))"

definition roomy :: "bytes \<times> bool \<times> bytes \<Rightarrow> bool" where
  "roomy ev \<longleftrightarrow> 52 \<le> length (snd (snd ev))"

lemma updater_machine:
  assumes "flash_backend B content rsa" and "sha_contract H"
  shows "panic_free_machine (updater_step (logged B) H) (updater_inv content H) roomy"
proof
  fix u :: "('a \<times> mutation list, 'b) usb_updater" and ev
  assume "updater_inv content H u" and "roomy ev"
  then show "\<exists>u'. updater_step (logged B) H u ev = Some u' \<and> updater_inv content H u'"
    using handle_ok [OF assms, of u "snd (snd ev)" "fst ev" "fst (snd ev)"]
    by (auto simp: updater_step_def roomy_def split: prod.splits)
qed

lemma updater_new_inv:
  "updater_new b key version sv = Some u \<Longrightarrow> updater_inv content H u \<and> uu_session u = None
     \<and> uu_backend u = b"
  by (auto simp: updater_new_def updater_inv_def dest: copy_from_slice_length split: if_splits bind_splits)

text \<open>Without a session and without user presence nothing is mutated, whatever the backend does.\<close>

lemma idle_step:
  assumes "uu_session u = None" and "length (uu_current_version u) = MAX_VERSION_LENGTH"
    and "uu_current_version_length u \<le> MAX_VERSION_LENGTH" and "52 \<le> length resp"
  shows "handle B H u request False resp = Some (21 + uu_current_version_length u,
     response_bytes u (case handle_inner B H u request False of Some (st, _) \<Rightarrow> st | None \<Rightarrow> St_Ok)
       @ drop (21 + uu_current_version_length u) resp, u)"
proof -
  have body: "\<exists>st. begin_update B H u body False = Some (st, u)" for body
  proof (cases "length body < 42")
    case False
    then show ?thesis
      using le32.slice_dec_total [of 1 body] le32.slice_dec_total [of 37 body]
      by (auto simp: begin_update_def index_def subslice_def Let_def)
  qed (simp add: begin_update_def)
  have "\<exists>st. write_update B u body = Some (st, u)" for body
  proof (cases "length body < 9 \<or> 9 + MAX_WRITE_CHUNK < length body")
    case False
    then show ?thesis
      using le32.slice_dec_total [of 0 body] le32.slice_dec_total [of 4 body] assms(1)
      by (auto simp: write_update_def subslice_def)
  qed (auto simp: write_update_def)
  with body obtain st where st: "handle_inner B H u request False = Some (st, u)"
    using assms(1)
    by (fastforce simp: handle_inner_def advance_def abort_def split: list.splits option.splits operation.splits)
  have "poll B u = u" using assms(1) by (simp add: poll_def)
  with st encode_response_eq [of u resp st] assms show ?thesis
    by (simp add: handle_def MAX_VERSION_LENGTH_def)
qed

lemma idle_run:
  assumes "uu_session u = None" and "length (uu_current_version u) = MAX_VERSION_LENGTH"
    and "uu_current_version_length u \<le> MAX_VERSION_LENGTH"
    and "list_all (\<lambda>ev. roomy ev \<and> \<not> fst (snd ev)) evs"
  shows "run_steps (updater_step B H) u evs = Some u"
  using assms(4)
proof (induction evs)
  case (Cons ev evs)
  obtain request present resp where ev: "ev = (request, present, resp)" by (cases ev)
  with Cons.prems have "\<not> present" "52 \<le> length resp" by (simp_all add: roomy_def)
  with ev Cons assms show ?case by (simp add: updater_step_def idle_step)
qed simp

text \<open>
  The boot loader starts slot \<open>(sequence - 1) mod 2\<close>; the next sequence is the least one above
  the current one that selects the target slot.
\<close>

lemma next_sequence_spec:
  assumes "next_sequence cur slot = Some n"
  shows "unat cur < unat n" and "(unat n - 1) mod 2 = unat slot"
    and "\<And>k. unat cur < k \<Longrightarrow> (k - 1) mod 2 = unat slot \<Longrightarrow> unat n \<le> k"
proof -
  have cur: "cur \<noteq> 0" and slot: "slot = 0 \<or> slot = 1"
    and n: "checked_add cur (if cur mod 2 = (ucast slot + 1) mod 2 then 2 else 1) = Some n"
    using assms by (auto simp: next_sequence_def Let_def not_less word_le_one split: if_splits)
  have parity: "(cur mod 2 = w) = (unat cur mod 2 = unat w)" for w
    by (simp add: unat_mod word_eq_iff_unsigned [where 'a = nat])
  have "unat cur mod 2 = 0 \<or> unat cur mod 2 = 1" by auto
  then have u: "unat n = unat cur + (if unat cur mod 2 = unat slot then 1 else 2)"
    using checked_add_SomeD [OF n] slot parity [of 0] parity [of 1] by (auto split: if_splits)
  have s: "unat slot = 0 \<or> unat slot = 1" using slot by auto
  show "unat cur < unat n" using u by simp
  show "(unat n - 1) mod 2 = unat slot"
  proof (cases "unat cur mod 2 = unat slot")
    case False
    then have "(unat cur + 1) mod 2 = unat slot" using s by presburger
    with False u show ?thesis by simp
  qed (use u in simp)
  show "unat n \<le> k" if "unat cur < k" "(k - 1) mod 2 = unat slot" for k
  proof (cases "unat cur mod 2 = unat slot")
    case False
    with that have "k \<noteq> unat cur + 1" by auto
    with that(1) u show ?thesis by simp
  qed (use that u in simp)
qed

section \<open>An example device and session\<close>

definition ram_backend :: "(u8 \<Rightarrow> bytes) update_backend" where
  "ram_backend = \<lparr>ir_read = \<lambda>b slot off n. (subslice (b slot) (unat off) (unat off + n), b),
     ir_verify_rsa_pss = \<lambda>b pk sg d. (Some (sg = d), b),
     ub_now_ms = \<lambda>b. (0, b),
     ub_layout = \<lambda>b. (Some \<lparr>ul_active_slot = 0, ul_active_sequence = 1, ul_activation_entry = 1\<rparr>, b),
     ub_erase = \<lambda>b slot off n. (True, b(slot := take (unat off) (b slot)
        @ replicate (unat n) 0xff @ drop (unat off + unat n) (b slot))),
     ub_write = \<lambda>b slot off d. (True, b(slot := take (unat off) (b slot)
        @ d @ drop (unat off + length d) (b slot))),
     ub_activate = \<lambda>b slot q e. (True, b)\<rparr>"

definition example_updater :: "((u8 \<Rightarrow> bytes) \<times> mutation list, bytes) usb_updater" where
  "example_updater = \<lparr>uu_backend = (\<lambda>_. replicate 0x3000 0, []), uu_trusted_key_digest = [],
     uu_current_version = replicate 31 0x31, uu_current_version_length = 5,
     uu_current_secure_version = 1, uu_next_session_id = 2,
     uu_session = Some \<lparr>ss_started_ms = 0, ss_last_progress_ms = 0, ss_last_checked_ms = 0,
       ss_id = 1, ss_phase = Ph_Erasing, ss_target_slot = 1, ss_active_slot = 0,
       ss_active_sequence = 1, ss_activation_entry = 1, ss_target_sequence = 2, ss_total = 0x2000,
       ss_expected_hash = replicate 32 0, ss_expected_secure_version = 1,
       ss_expected_version = replicate 31 0x32, ss_expected_version_length = 5, ss_completed = 0,
       ss_full_hasher = [], ss_signed_hasher = [], ss_failure = St_Ok\<rparr>\<rparr>"

lemma ram_backend_flash: "flash_backend ram_backend (\<lambda>b. b) (\<lambda>pk sg d. sg = d)"
  by (simp add: flash_backend_def faithful_reader_def ram_backend_def)

lemma example_updater_inv: "updater_inv (\<lambda>b. b) plain_sha example_updater"
  by (simp add: updater_inv_def example_updater_def session_wf_def MAX_VERSION_LENGTH_def next_sequence_def)

section \<open>Properties\<close>

text \<open>
  C1. Every mutating call the updater makes is permitted. From any state of the invariant and
  for every request, the handler returns, keeps the invariant, and the erase, write and
  activation calls it makes are of the approved session only: they address its inactive target
  slot, continue exactly at its progress, stay inside the announced length, and a slot is
  activated only with an image whose hash, descriptor version, security floor and signature
  were all verified over the stored bytes.
\<close>

theorem update_mutations_permitted:
  assumes "flash_backend B content rsa" and "sha_contract H" and "updater_inv content H u"
    and "52 \<le> length response"
  shows "\<exists>n out u' new. handle (logged B) H u request user_present response = Some (n, out, u')
    \<and> updater_inv content H u' \<and> snd (uu_backend u') = snd (uu_backend u) @ new
    \<and> list_all (mutation_ok content rsa H u u') new"
  using handle_ok [OF assms, of request user_present] mutation_ok_poll [OF assms(1,3)]
  by (fastforce simp: list_all_iff)

theorem update_mutations_permitted_witness:
  "\<exists>n out u' new. handle (logged ram_backend) plain_sha example_updater [3, 1, 0, 0, 0] False (replicate 64 0)
      = Some (n, out, u')
    \<and> updater_inv (\<lambda>b. b) plain_sha u' \<and> snd (uu_backend u') = snd (uu_backend example_updater) @ new
    \<and> list_all (mutation_ok (\<lambda>b. b) (\<lambda>pk sg d. sg = d) plain_sha example_updater u') new"
  by (rule update_mutations_permitted [OF ram_backend_flash plain_sha_contract example_updater_inv]) simp

text \<open>
  C11. From a freshly constructed updater no sequence of requests, well-formed or not, makes the
  handler panic, and the invariant holds after it.
\<close>

theorem update_never_panics:
  assumes "flash_backend B content rsa" and "sha_contract H"
    and "updater_new (b, []) key version sv = Some u" and "list_all roomy requests"
  shows "\<exists>u'. run_steps (updater_step (logged B) H) u requests = Some u' \<and> updater_inv content H u'"
  using panic_free_machine.run_inv [OF updater_machine [OF assms(1,2)]] updater_new_inv [OF assms(3)] assms(4)
  by blast

theorem update_never_panics_witness:
  "\<exists>u'. run_steps (updater_step (logged ram_backend) plain_sha)
      (the (updater_new (\<lambda>_. [], []) [] [0x31] 0)) [([0], False, replicate 60 0), ([9], True, replicate 60 0)]
      = Some u' \<and> updater_inv (\<lambda>b. b) plain_sha u'"
  by (rule update_never_panics [OF ram_backend_flash plain_sha_contract, of "\<lambda>_. []" "[]" "[0x31]" 0])
    (simp_all add: updater_new_def MAX_VERSION_LENGTH_def copy_from_slice_def roomy_def)

text \<open>
  C7. Fresh user presence is required: from a freshly constructed updater, requests without
  user presence never erase, write or activate anything, on any backend.
\<close>

theorem update_needs_presence:
  assumes "updater_new (b, []) key version sv = Some u"
    and "list_all (\<lambda>ev. roomy ev \<and> \<not> fst (snd ev)) requests"
  shows "\<exists>u'. run_steps (updater_step (logged B) H) u requests = Some u' \<and> snd (uu_backend u') = []"
proof -
  from updater_new_inv [OF assms(1)] have "uu_session u = None" "snd (uu_backend u) = []"
    "length (uu_current_version u) = MAX_VERSION_LENGTH" "uu_current_version_length u \<le> MAX_VERSION_LENGTH"
    by (auto simp: updater_inv_def)
  with idle_run [OF _ _ _ assms(2)] show ?thesis by blast
qed

theorem update_needs_presence_witness:
  "\<exists>u'. run_steps (updater_step (logged ram_backend) plain_sha)
      (the (updater_new (\<lambda>_. [], []) [] [0x31] 0)) [([1, 1], False, replicate 60 0), ([3, 1, 0, 0, 0], False, replicate 60 0)]
      = Some u' \<and> snd (uu_backend u') = []"
  by (rule update_needs_presence [of "\<lambda>_. []" "[]" "[0x31]" 0])
    (simp_all add: updater_new_def MAX_VERSION_LENGTH_def copy_from_slice_def roomy_def)

text \<open>
  C20. An expired approval authorizes nothing: when the device clock shows the session idle for
  two minutes, fifteen minutes old, or the clock has gone backwards, no request erases, writes
  or activates anything.
\<close>

theorem expired_session_is_inert:
  assumes "flash_backend B content rsa" and "sha_contract H" and "updater_inv content H u"
    and "52 \<le> length response" and "uu_session u = Some s"
    and "ub_now_ms (logged B) (uu_backend u) = (now, b)"
    and "now < ss_last_checked_ms s \<or> unat (ss_started_ms s) + 900000 \<le> unat now
      \<or> unat (ss_last_progress_ms s) + 120000 \<le> unat now"
  shows "\<exists>n out u'. handle (logged B) H u request user_present response = Some (n, out, u')
    \<and> snd (uu_backend u') = snd (uu_backend u)"
proof -
  have "ss_phase (snd (session_expire s now)) \<notin> {Ph_Erasing, Ph_Receiving, Ph_Verifying}"
    using assms(7)
    by (auto simp: session_expire_def fail_def Let_def SESSION_MAX_LIFETIME_MS_def
        SESSION_IDLE_TIMEOUT_MS_def word_le_nat_alt unat_saturating_sub)
  then have "\<not> mutation_ok content rsa H (poll (logged B) u) u' m" for u' m
    using assms(5,6) by (cases m) (auto simp: poll_def)
  with handle_ok [OF assms(1-4), of request user_present] show ?thesis
    by (auto simp: list_all_iff)
qed

theorem expired_session_is_inert_witness:
  "\<exists>n out u'. handle (logged (ram_backend\<lparr>ub_now_ms := \<lambda>b. (120000, b)\<rparr>)) plain_sha example_updater
      [3, 1, 0, 0, 0] True (replicate 64 0) = Some (n, out, u')
    \<and> snd (uu_backend u') = snd (uu_backend example_updater)"
  by (rule expired_session_is_inert [OF _ plain_sha_contract example_updater_inv, where rsa = "\<lambda>pk sg d. sg = d"
        and s = "the (uu_session example_updater)" and now = 120000 and b = "uu_backend example_updater"])
    (simp_all add: flash_backend_def faithful_reader_def ram_backend_def example_updater_def logged_def with_log_def)

text \<open>
  The wire format of every answer: status, protocol version, phase, slot, session id,
  progress, length, security version and version string, at their offsets; bytes of the buffer
  behind the answer are untouched.
\<close>

theorem update_response_format:
  assumes "flash_backend B content rsa" and "sha_contract H" and "updater_inv content H u"
    and "52 \<le> length response"
  shows "\<exists>st u'. handle (logged B) H u request user_present response =
     Some (21 + uu_current_version_length u,
       response_bytes u' st @ drop (21 + uu_current_version_length u) response, u')"
  using handle_ok [OF assms] by blast

theorem update_response_format_witness:
  "\<exists>st u'. handle (logged ram_backend) plain_sha example_updater [0] False (replicate 52 7) =
     Some (21 + uu_current_version_length example_updater,
       response_bytes u' st @ drop (21 + uu_current_version_length example_updater) (replicate 52 7), u')"
  by (rule update_response_format [OF ram_backend_flash plain_sha_contract example_updater_inv]) simp

text \<open>
  The activation sequence number is the least one above the running one that makes the
  boot loader select the target slot.
\<close>

theorem next_sequence_selects_target:
  assumes "next_sequence current slot = Some n"
  shows "unat n = (LEAST k. unat current < k \<and> (k - 1) mod 2 = unat slot)"
  using next_sequence_spec [OF assms] by (intro Least_equality [symmetric]) auto

theorem next_sequence_selects_target_witness:
  "unat (8 :: u32) = (LEAST k. unat (7 :: u32) < k \<and> (k - 1) mod 2 = unat (1 :: u8))"
  by (rule next_sequence_selects_target) (simp add: next_sequence_def)

end
