(* ===== verification/Ota.thy ===== *)
theory Ota
  imports Flash_Encryption Usb_Update
begin

text \<open>
  \<^verbatim>\<open>src/platform/ota.rs\<close>: the two boot-selection records (\<^verbatim>\<open>otadata\<close>), which slot is
  running, the layout an update starts from, activation of a slot and confirmation of the
  running image. The flash is the device of \<open>Flash_Encryption\<close>; the flag \<open>enc\<close> is the cargo
  feature \<^verbatim>\<open>release-flash-encryption\<close>, which selects between the two transports.
\<close>

section \<open>Constants and types\<close>

definition OTADATA_OFFSET :: u32 where "OTADATA_OFFSET = 0xf000"
definition OTA_SECTOR_SIZE :: u32 where "OTA_SECTOR_SIZE = 0x1000"
definition OTA_ENTRY_SIZE :: nat where "OTA_ENTRY_SIZE = 32"
definition OTA_SLOT_COUNT :: u32 where "OTA_SLOT_COUNT = 2"
definition OTA_0_OFFSET :: u32 where "OTA_0_OFFSET = 0x20000"
definition OTA_1_OFFSET :: u32 where "OTA_1_OFFSET = 0x200000"
definition OTA_APP_DESCRIPTOR_OFFSET :: u32 where "OTA_APP_DESCRIPTOR_OFFSET = 32"
definition APP_DESCRIPTOR_SIZE :: nat where "APP_DESCRIPTOR_SIZE = 256"
definition APP_DESCRIPTOR_MAGIC :: u32 where "APP_DESCRIPTOR_MAGIC = 0xabcd5432"
definition OTA_APP_VERSION_OFFSET :: nat where "OTA_APP_VERSION_OFFSET = 16"
definition APP_VERSION_SIZE :: nat where "APP_VERSION_SIZE = 32"
definition DROM_START :: u32 where "DROM_START = 0x3f000000"
definition DROM_APP_END :: u32 where "DROM_APP_END = 0x3f390000"
definition MMU_FLASH :: u32 where "MMU_FLASH = push_bit 15 1"
definition MMU_PAGE_MASK :: u32 where "MMU_PAGE_MASK = 0x3fff"
definition OTA_STATE_PENDING_VERIFY :: u32 where "OTA_STATE_PENDING_VERIFY = 1"
definition OTA_STATE_VALID :: u32 where "OTA_STATE_VALID = 2"
definition OTA_STATE_INVALID :: u32 where "OTA_STATE_INVALID = 3"
definition OTA_STATE_ABORTED :: u32 where "OTA_STATE_ABORTED = 4"

record ota_entry =
  oe_sequence :: u32
  oe_state :: u32
  oe_crc :: u32

type_synonym ota_entries = "ota_entry \<times> ota_entry"

definition entry_at :: "ota_entries \<Rightarrow> nat \<Rightarrow> ota_entry" where
  "entry_at es i = (if i = 0 then fst es else snd es)"

record qualified_layout_record =
  ql_running_slot :: u8
  ql_sequences :: "u32 \<times> u32"

datatype confirm_error =
  CE_FlashRead | CE_FlashUnlock | CE_FlashErase | CE_FlashWrite | CE_ReadbackMismatch | CE_InvalidLayout

section \<open>Records\<close>

definition ota_crc :: "u32 \<Rightarrow> u32" where
  "ota_crc sequence = NOT (foldl crc_byte 0 (to_le32 sequence))"

definition ota_entry_decode :: "bytes \<Rightarrow> ota_entry option" where
  "ota_entry_decode raw = do {
     sequence \<leftarrow> Option.bind (subslice raw 0 4) from_le32;
     state \<leftarrow> Option.bind (subslice raw 24 28) from_le32;
     crc \<leftarrow> Option.bind (subslice raw 28 32) from_le32;
     Some \<lparr>oe_sequence = sequence, oe_state = state, oe_crc = crc\<rparr>
   }"

definition is_selectable :: "ota_entry \<Rightarrow> bool" where
  "is_selectable e \<longleftrightarrow> oe_sequence e \<noteq> - 1 \<and> oe_state e \<noteq> OTA_STATE_INVALID
     \<and> oe_state e \<noteq> OTA_STATE_ABORTED \<and> oe_crc e = ota_crc (oe_sequence e)"

definition encode_with_state :: "ota_entry \<Rightarrow> u32 \<Rightarrow> bytes option" where
  "encode_with_state e state = do {
     r \<leftarrow> copy_from_slice (replicate OTA_ENTRY_SIZE 0xff) 0 4 (to_le32 (oe_sequence e));
     r \<leftarrow> copy_from_slice r 24 28 (to_le32 state);
     copy_from_slice r 28 32 (to_le32 (ota_crc (oe_sequence e)))
   }"

definition active_entry :: "ota_entries \<Rightarrow> nat option" where
  "active_entry es = (case (is_selectable (fst es), is_selectable (snd es)) of
       (True, True) \<Rightarrow> Some (if oe_sequence (snd es) \<le> oe_sequence (fst es) then 0 else 1)
     | (True, False) \<Rightarrow> Some 0
     | (False, True) \<Rightarrow> Some 1
     | (False, False) \<Rightarrow> None)"

definition slot_offset :: "u32 \<Rightarrow> u32 option" where
  "slot_offset sequence = do {
     v \<leftarrow> checked_sub sequence 1;
     let m = v mod OTA_SLOT_COUNT;
     if m = 0 then Some OTA_0_OFFSET else if m = 1 then Some OTA_1_OFFSET else None
   }"

definition update_slot_offset :: "u8 \<Rightarrow> u32 option" where
  "update_slot_offset slot =
     (if slot = 0 then Some OTA_0_OFFSET else if slot = 1 then Some OTA_1_OFFSET else None)"

definition update_layout_from_entries :: "ota_entries \<Rightarrow> u32 \<Rightarrow> (u8 \<times> u32 \<times> u8) option" where
  "update_layout_from_entries es running_offset = do {
     active \<leftarrow> active_entry es;
     if oe_state (entry_at es active) \<noteq> OTA_STATE_VALID then None
     else do {
       let sequence = oe_sequence (entry_at es active);
       off \<leftarrow> slot_offset sequence;
       if off \<noteq> running_offset then None
       else do {
         v \<leftarrow> checked_sub sequence 1;
         let slot = ucast (v mod OTA_SLOT_COUNT);
         Some (slot, sequence, of_nat (1 - active))
       }
     }
   }"

text \<open>The \<^verbatim>\<open>for entry in entries\<close> loop of \<^verbatim>\<open>qualified_layout_from_entries\<close>.\<close>

fun qualify_entries :: "ota_entry list \<Rightarrow> u32 \<times> u32 \<Rightarrow> (u32 \<times> u32) option" where
  "qualify_entries [] seqs = Some seqs"
| "qualify_entries (e # es) (s0, s1) =
     (if \<not> is_selectable e \<or> oe_state e \<noteq> OTA_STATE_VALID then None
      else do {
        off \<leftarrow> slot_offset (oe_sequence e);
        if off = OTA_0_OFFSET then
          (if s0 \<noteq> 0 then None else qualify_entries es (oe_sequence e, s1))
        else if off = OTA_1_OFFSET then
          (if s1 \<noteq> 0 then None else qualify_entries es (s0, oe_sequence e))
        else None
      })"

definition qualified_layout_from_entries :: "ota_entries \<Rightarrow> u32 \<Rightarrow> qualified_layout_record option option"
where
  "qualified_layout_from_entries es running_offset = (case active_entry es of
       None \<Rightarrow> Some None
     | Some active \<Rightarrow> (case qualify_entries [fst es, snd es] (0, 0) of
         None \<Rightarrow> Some None
       | Some seqs \<Rightarrow> (case slot_offset (oe_sequence (entry_at es active)) of
           None \<Rightarrow> Some None
         | Some off \<Rightarrow>
             if off \<noteq> running_offset then Some None
             else do {
               v \<leftarrow> checked_sub (oe_sequence (entry_at es active)) 1;
               Some (Some \<lparr>ql_running_slot = ucast (v mod OTA_SLOT_COUNT), ql_sequences = seqs\<rparr>)
             })))"

definition activation_is_valid :: "u8 \<Rightarrow> u32 \<Rightarrow> u8 \<Rightarrow> u8 \<Rightarrow> u32 \<Rightarrow> u8 \<Rightarrow> bool" where
  "activation_is_valid active_slot active_sequence expected_entry target_slot sequence activation_entry
     \<longleftrightarrow> target_slot \<le> 1 \<and> activation_entry \<le> 1 \<and> target_slot \<noteq> active_slot
       \<and> activation_entry = expected_entry
       \<and> map_option (\<lambda>v. ucast (v mod OTA_SLOT_COUNT)) (checked_sub sequence 1) = Some target_slot
       \<and> active_sequence < sequence"

definition descriptor_matches_version :: "bytes \<Rightarrow> bytes \<Rightarrow> bool option" where
  "descriptor_matches_version descriptor version = do {
     magic \<leftarrow> Option.bind (subslice descriptor 0 4) from_le32;
     if magic \<noteq> APP_DESCRIPTOR_MAGIC then Some False
     else if version = [] \<or> APP_VERSION_SIZE \<le> length version then Some False
     else do {
       field \<leftarrow> subslice descriptor OTA_APP_VERSION_OFFSET (OTA_APP_VERSION_OFFSET + APP_VERSION_SIZE);
       head \<leftarrow> subslice field 0 (length version);
       term \<leftarrow> index field (length version);
       Some (head = version \<and> term = 0)
     }
   }"

definition running_offset_from_mapping :: "u32 \<Rightarrow> u32 \<Rightarrow> u32 option" where
  "running_offset_from_mapping descriptor_address mmu_entry =
     (if \<not> (DROM_START \<le> descriptor_address \<and> descriptor_address < DROM_APP_END)
         \<or> descriptor_address AND 0xffff \<noteq> 32 \<or> mmu_entry AND NOT MMU_PAGE_MASK \<noteq> MMU_FLASH
      then None
      else
        let offset = push_bit 16 (mmu_entry AND MMU_PAGE_MASK) in
        if offset = OTA_0_OFFSET \<or> offset = OTA_1_OFFSET then Some offset else None)"

definition confirmation_matches_running_image ::
  "ota_entry \<Rightarrow> u32 \<Rightarrow> bytes \<Rightarrow> bytes \<Rightarrow> u32 \<Rightarrow> bool option" where
  "confirmation_matches_running_image e running_offset descriptor version secure_version =
     (if oe_state e = OTA_STATE_PENDING_VERIFY \<and> slot_offset (oe_sequence e) = Some running_offset
      then do {
        matches \<leftarrow> descriptor_matches_version descriptor version;
        if matches then do {
          v \<leftarrow> Option.bind (subslice descriptor 4 8) from_le32;
          Some (v = secure_version)
        } else Some False
      } else Some False)"

section \<open>Flash operations\<close>

type_synonym ('f, 'a) ota_op = "('f fe_state, confirm_error, 'a) rust"

definition running_app_offset :: "'f rom \<Rightarrow> u32 \<Rightarrow> ('f, u32) ota_op" where
  "running_app_offset R descriptor_address =
     try_then (guard_err (\<not> (DROM_START \<le> descriptor_address \<and> descriptor_address < DROM_APP_END))
       CE_InvalidLayout) (\<lambda>_ s.
     let entry_index = 0x80 + drop_bit 16 (descriptor_address AND 0x3fffff);
       entry_address = 0x61801000 + entry_index * 4;
       entry = rom_register R (fe_hw s) entry_address
     in ok_or CE_InvalidLayout (running_offset_from_mapping descriptor_address entry) s)"

definition read_flash :: "bool \<Rightarrow> 'f rom \<Rightarrow> u32 \<Rightarrow> nat \<Rightarrow> ('f, bytes) ota_op" where
  "read_flash enc R address n =
     (if enc then map_err (\<lambda>_. CE_FlashRead) (fe_read R address n)
      else map_err (\<lambda>_. CE_FlashRead) (hw_result (\<lambda>f. rom_spi_read R f address n)))"

definition replace_entry :: "bool \<Rightarrow> 'f rom \<Rightarrow> u32 \<Rightarrow> bytes \<Rightarrow> ('f, unit) ota_op" where
  "replace_entry enc R address replacement =
     (if enc then
        try_then (map_err (\<lambda>_. CE_FlashErase) (fe_erase R address (unat OTA_SECTOR_SIZE))) (\<lambda>_.
        map_err (\<lambda>_. CE_FlashWrite) (fe_write R address replacement))
      else
        try_then (map_err (\<lambda>_. CE_FlashUnlock) (hw_result (rom_unlock R))) (\<lambda>_.
        try_then (map_err (\<lambda>_. CE_FlashErase)
          (hw_result (\<lambda>f. rom_erase_sector R f (address div OTA_SECTOR_SIZE)))) (\<lambda>_.
        map_err (\<lambda>_. CE_FlashWrite) (hw_result (\<lambda>f. rom_spi_write R f address replacement)))))"

definition entry_address :: "u32 \<Rightarrow> u32" where
  "entry_address i = OTADATA_OFFSET + i * OTA_SECTOR_SIZE"

definition read_raw_entries :: "bool \<Rightarrow> 'f rom \<Rightarrow> ('f, ota_entries) ota_op" where
  "read_raw_entries enc R =
     try_then (read_flash enc R (entry_address 0) OTA_ENTRY_SIZE) (\<lambda>raw0.
     try_then (read_flash enc R (entry_address 1) OTA_ENTRY_SIZE) (\<lambda>raw1.
     try_then (or_panic (ota_entry_decode raw0)) (\<lambda>e0.
     try_then (or_panic (ota_entry_decode raw1)) (\<lambda>e1.
     rust_ok (e0, e1)))))"

definition read_entries :: "bool \<Rightarrow> 'f rom \<Rightarrow> ('f, ota_entries \<times> nat) ota_op" where
  "read_entries enc R =
     try_then (read_raw_entries enc R) (\<lambda>es.
     try_then (ok_or CE_InvalidLayout (active_entry es)) (\<lambda>active.
     rust_ok (es, active)))"

definition ota_update_layout :: "bool \<Rightarrow> 'f rom \<Rightarrow> u32 \<Rightarrow> ('f, update_layout) ota_op" where
  "ota_update_layout enc R descriptor_address =
     try_then (running_app_offset R descriptor_address) (\<lambda>running_offset.
     try_then (read_entries enc R) (\<lambda>(es, active).
     try_then (ok_or CE_InvalidLayout (update_layout_from_entries es running_offset))
       (\<lambda>(slot, sequence, activation_entry).
     rust_ok \<lparr>ul_active_slot = slot, ul_active_sequence = sequence,
       ul_activation_entry = activation_entry\<rparr>)))"

definition qualified_layout :: "bool \<Rightarrow> 'f rom \<Rightarrow> u32 \<Rightarrow> ('f, qualified_layout_record) ota_op" where
  "qualified_layout enc R descriptor_address =
     try_then (running_app_offset R descriptor_address) (\<lambda>running_offset.
     try_then (read_entries enc R) (\<lambda>(es, _).
     try_then (or_panic (qualified_layout_from_entries es running_offset)) (\<lambda>layout.
     ok_or CE_InvalidLayout layout)))"

definition activate_update :: "bool \<Rightarrow> 'f rom \<Rightarrow> u8 \<Rightarrow> u32 \<Rightarrow> u8 \<Rightarrow> u32 \<Rightarrow> ('f, unit) ota_op" where
  "activate_update enc R target_slot sequence activation_entry descriptor_address =
     try_then (ota_update_layout enc R descriptor_address) (\<lambda>layout.
     try_then (guard_err (\<not> activation_is_valid (ul_active_slot layout) (ul_active_sequence layout)
         (ul_activation_entry layout) target_slot sequence activation_entry) CE_InvalidLayout) (\<lambda>_.
     try_then (or_panic (encode_with_state
         \<lparr>oe_sequence = sequence, oe_state = 0, oe_crc = ota_crc sequence\<rparr> 0)) (\<lambda>replacement.
     try_then (replace_entry enc R (entry_address (ucast activation_entry)) replacement) (\<lambda>_.
     try_then (read_flash enc R (entry_address (ucast activation_entry)) OTA_ENTRY_SIZE) (\<lambda>readback.
     if readback \<noteq> replacement then rust_err CE_ReadbackMismatch else rust_ok ())))))"

definition confirm_running_image :: "bool \<Rightarrow> 'f rom \<Rightarrow> bytes \<Rightarrow> u32 \<Rightarrow> u32 \<Rightarrow> ('f, bool) ota_op" where
  "confirm_running_image enc R version secure_version descriptor_address =
     try_then (running_app_offset R descriptor_address) (\<lambda>running_offset.
     try_then (read_raw_entries enc R) (\<lambda>es.
     case active_entry es of
       None \<Rightarrow> rust_ok False
     | Some active \<Rightarrow>
        let entry = entry_at es active in
        if oe_state entry \<noteq> OTA_STATE_PENDING_VERIFY then rust_ok False
        else (case slot_offset (oe_sequence entry) of
          None \<Rightarrow> rust_ok False
        | Some app_offset \<Rightarrow>
            try_then (or_panic (checked_add app_offset OTA_APP_DESCRIPTOR_OFFSET)) (\<lambda>a.
            try_then (read_flash enc R a APP_DESCRIPTOR_SIZE) (\<lambda>descriptor.
            try_then (or_panic (confirmation_matches_running_image entry running_offset descriptor
              version secure_version)) (\<lambda>matches.
            if \<not> matches then rust_ok False
            else
              try_then (or_panic (encode_with_state entry OTA_STATE_VALID)) (\<lambda>replacement.
              try_then (replace_entry enc R (entry_address (of_nat active)) replacement) (\<lambda>_.
              try_then (read_flash enc R (entry_address (of_nat active)) OTA_ENTRY_SIZE) (\<lambda>readback.
              if readback \<noteq> replacement then rust_err CE_ReadbackMismatch else rust_ok True)))))))))"

section \<open>Lemmas on the records\<close>

lemmas ota_consts = OTADATA_OFFSET_def OTA_SECTOR_SIZE_def OTA_ENTRY_SIZE_def OTA_SLOT_COUNT_def
  OTA_0_OFFSET_def OTA_1_OFFSET_def OTA_STATE_PENDING_VERIFY_def OTA_STATE_VALID_def
  OTA_STATE_INVALID_def OTA_STATE_ABORTED_def

lemma ota_crc_eq: "ota_crc q = esp_crc32_le (- 1) (to_le32 q)"
  by (simp add: ota_crc_def esp_crc32_le_def)

lemma ota_crc_inject: "ota_crc p = ota_crc q \<longleftrightarrow> p = q"
  using esp_crc32_le_word_inject [of "- 1" "[]" p "[]" q] by (simp add: ota_crc_eq)

lemma encode_with_state_eq:
  "encode_with_state e st = Some (to_le32 (oe_sequence e) @ replicate 20 0xff @ to_le32 st
     @ to_le32 (ota_crc (oe_sequence e)))"
proof -
  have "copy_from_slice (replicate OTA_ENTRY_SIZE 0xff) 0 4 (to_le32 q) = Some (to_le32 q @ replicate 28 0xff)" for q
    by (simp add: copy_from_slice_def OTA_ENTRY_SIZE_def)
  moreover have "copy_from_slice (to_le32 q @ replicate 28 0xff) 24 28 (to_le32 st)
      = Some (to_le32 q @ replicate 20 0xff @ to_le32 st @ replicate 4 0xff)" for q
    by (simp add: copy_from_slice_def)
  moreover have "copy_from_slice (to_le32 q @ replicate 20 0xff @ to_le32 st @ replicate 4 0xff) 28 32 (to_le32 c)
      = Some (to_le32 q @ replicate 20 0xff @ to_le32 st @ to_le32 c)" for q c
    by (simp add: copy_from_slice_def)
  ultimately show ?thesis by (simp add: encode_with_state_def)
qed

lemma decode_encoded:
  "ota_entry_decode (to_le32 q @ replicate 20 0xff @ to_le32 st @ to_le32 c)
     = Some \<lparr>oe_sequence = q, oe_state = st, oe_crc = c\<rparr>"
  by (simp add: ota_entry_decode_def subslice_def codec_simps)

lemma decode_total: "length raw = 32 \<Longrightarrow> \<exists>e. ota_entry_decode raw = Some e"
  using le32.slice_dec_total [of 0 raw] le32.slice_dec_total [of 24 raw] le32.slice_dec_total [of 28 raw]
  by (auto simp: ota_entry_decode_def simp del: Option.bind_assoc)

lemma active_entry_cases:
  assumes "active_entry es = Some i"
  shows "i < 2" and "is_selectable (entry_at es i)"
    and "is_selectable (entry_at es (1 - i)) \<Longrightarrow> oe_sequence (entry_at es (1 - i)) \<le> oe_sequence (entry_at es i)"
  using assms by (auto simp: active_entry_def entry_at_def split: bool.splits if_splits)

lemma word_mod_2: "(v :: u32) mod 2 = 0 \<or> v mod 2 = 1"
proof -
  have "v mod 2 \<le> 1" by (simp add: word_le_nat_alt unat_mod less_Suc_eq_le [symmetric])
  then show ?thesis by (simp add: word_le_one)
qed

lemma slot_of_sequence:
  assumes "slot_offset q = Some off" and "checked_sub q 1 = Some v"
  shows "update_slot_offset (ucast (v mod OTA_SLOT_COUNT)) = Some off"
  using assms word_mod_2 [of v]
  by (auto simp: slot_offset_def update_slot_offset_def ota_consts Let_def split: if_splits)

lemma layout_entries:
  assumes "update_layout_from_entries es running = Some (slot, q, ae)"
  shows "update_slot_offset slot = Some running" and "slot \<le> 1"
    and "\<exists>i. active_entry es = Some i \<and> oe_state (entry_at es i) = OTA_STATE_VALID
      \<and> q = oe_sequence (entry_at es i) \<and> ae = of_nat (1 - i)"
proof -
  obtain i off v where i: "active_entry es = Some i" "oe_state (entry_at es i) = OTA_STATE_VALID"
    "slot_offset (oe_sequence (entry_at es i)) = Some off" "off = running"
    "checked_sub (oe_sequence (entry_at es i)) 1 = Some v"
    and r: "slot = ucast (v mod OTA_SLOT_COUNT)" "q = oe_sequence (entry_at es i)" "ae = of_nat (1 - i)"
    using assms by (auto simp: update_layout_from_entries_def Let_def split: bind_splits if_splits)
  show "update_slot_offset slot = Some running" using slot_of_sequence [OF i(3,5)] i(4) r(1) by simp
  then show "slot \<le> 1" by (auto simp: update_slot_offset_def split: if_splits)
  show "\<exists>i. active_entry es = Some i \<and> oe_state (entry_at es i) = OTA_STATE_VALID
      \<and> q = oe_sequence (entry_at es i) \<and> ae = of_nat (1 - i)"
    using i r by blast
qed

definition replace_at :: "ota_entries \<Rightarrow> nat \<Rightarrow> ota_entry \<Rightarrow> ota_entries" where
  "replace_at es i e = (if i = 0 then (e, snd es) else (fst es, e))"

lemma replace_selects:
  assumes "active_entry es = Some i" and "is_selectable e" and "oe_sequence (entry_at es i) < oe_sequence e"
  shows "active_entry (replace_at es (1 - i) e) = Some (1 - i)"
  using assms active_entry_cases(1,2) [OF assms(1)]
  by (cases "i = 0") (auto simp: active_entry_def replace_at_def entry_at_def split: bool.splits)

lemma replace_keeps:
  assumes "active_entry es = Some i" and "\<not> is_selectable e"
  shows "active_entry (replace_at es (1 - i) e) = Some i"
  using assms active_entry_cases(1,2) [OF assms(1)]
  by (cases "i = 0") (auto simp: active_entry_def replace_at_def entry_at_def split: bool.splits)

section \<open>Lemmas on the flash operations\<close>

lemma read_flash_confined:
  assumes C: "rom_contract enc R mem page"
  shows "confined mem 0 0 s (read_flash enc R a n s)"
    and "read_flash enc R a n s = Some (Inr bs, s') \<Longrightarrow> length bs = n"
proof -
  obtain r f where spi: "rom_spi_read R (fe_hw s) a n = (r, f)" by (meson surj_pair)
  have len: "r = Inr xs \<Longrightarrow> length xs = n" for xs
    using rom_contractD(8) [OF C, of "fe_hw s" a n xs f] spi by simp
  show "confined mem 0 0 s (read_flash enc R a n s)"
    using rom_contractD(7) [OF C spi]
    by (auto simp: read_flash_def fe_read_def confined_def map_err_def hw_result_def on_hw_def spi
        try_then_def ok_or_def rust_err_def rust_ok_def split: option.splits sum.splits)
  show "length bs = n" if "read_flash enc R a n s = Some (Inr bs, s')"
    using that len rom_contractD(10) [OF C] spi
    by (auto simp: read_flash_def fe_read_def map_err_def hw_result_def on_hw_def
        try_then_def ok_or_def rust_err_def rust_ok_def split: option.splits sum.splits if_splits)
qed

lemma confined_or_panic:
  "v = Some a \<Longrightarrow> confined mem lo hi s (f a s) \<Longrightarrow> confined mem lo hi s (try_then (or_panic v) f s)"
  by simp

lemma read_raw_entries_confined:
  assumes C: "rom_contract enc R mem page"
  shows "confined mem 0 0 s (read_raw_entries enc R s)"
  unfolding read_raw_entries_def
proof (rule confined_try_then [OF read_flash_confined(1) [OF C]])
  fix raw0 s1
  assume "read_flash enc R (entry_address 0) OTA_ENTRY_SIZE s = Some (Inr raw0, s1)"
  then obtain e0 where e0: "ota_entry_decode raw0 = Some e0"
    using read_flash_confined(2) [OF C] decode_total by (metis OTA_ENTRY_SIZE_def)
  show "confined mem 0 0 s1 (try_then (read_flash enc R (entry_address 1) OTA_ENTRY_SIZE) (\<lambda>raw1.
      try_then (or_panic (ota_entry_decode raw0)) (\<lambda>e0.
      try_then (or_panic (ota_entry_decode raw1)) (\<lambda>e1. rust_ok (e0, e1)))) s1)"
  proof (rule confined_try_then [OF read_flash_confined(1) [OF C]])
    fix raw1 s2
    assume "read_flash enc R (entry_address 1) OTA_ENTRY_SIZE s1 = Some (Inr raw1, s2)"
    then obtain e1 where e1: "ota_entry_decode raw1 = Some e1"
      using read_flash_confined(2) [OF C] decode_total by (metis OTA_ENTRY_SIZE_def)
    show "confined mem 0 0 s2 (try_then (or_panic (ota_entry_decode raw0)) (\<lambda>e0.
      try_then (or_panic (ota_entry_decode raw1)) (\<lambda>e1. rust_ok (e0, e1))) s2)"
      by (simp add: e0 e1 confined_intros(6) [OF C])
  qed
qed

lemma ota_update_layout_confined:
  assumes C: "rom_contract enc R mem page"
  shows "confined mem 0 0 s (ota_update_layout enc R d s)"
  unfolding ota_update_layout_def running_app_offset_def read_entries_def Let_def
  by (intro confined_try_then confined_intros [OF C] read_raw_entries_confined [OF C])
    (auto intro!: confined_try_then confined_intros [OF C] read_raw_entries_confined [OF C] split: prod.splits)

lemma replace_entry_confined:
  assumes C: "rom_contract enc R mem page" and a: "a = 0xf000 \<or> a = 0x10000" and "length d = 32"
  shows "confined mem (unat a) (unat a + 0x1000) s (replace_entry enc R a d s)"
proof -
  let ?lo = "unat a" and ?hi = "unat a + 0x1000"
  note base = confined_intros [OF C]
  have erase: "confined mem ?lo ?hi t (fe_erase R a (unat OTA_SECTOR_SIZE) t)" for t
    unfolding fe_erase_def
    by (rule confined_mono [OF erase_inner_confined [OF C]]) (use a in \<open>auto simp: OTA_SECTOR_SIZE_def\<close>)
  have wr: "confined mem ?lo ?hi t (fe_write R a d t)" for t
    unfolding fe_write_def
    by (rule confined_mono [OF write_inner_confined [OF C]]) (use a assms(3) in auto)
  have hw: "confined mem ?lo ?hi t (hw_result op t)"
    if "only_within mem ?lo ?hi (fe_hw t) (snd (op (fe_hw t)))" for t and op :: "_ \<Rightarrow> (u32 + unit) \<times> _"
    using that by (auto simp: confined_def hw_result_def on_hw_def split: prod.splits)
  have plain: "only_within mem ?lo ?hi f (snd (rom_erase_sector R f (a div OTA_SECTOR_SIZE)))"
    "only_within mem ?lo ?hi f (snd (rom_spi_write R f a d))" for f
    using a assms(3)
    by (auto intro!: only_within_mono [OF rom_mutation_range(1) [OF C]] only_within_mono [OF rom_mutation_range(2) [OF C]]
        simp: OTA_SECTOR_SIZE_def)
  show ?thesis
    unfolding replace_entry_def
    by (auto intro!: confined_try_then confined_map_err base erase wr hw plain)
qed

lemma entry_address_cases:
  "i \<le> 1 \<Longrightarrow> entry_address i = 0xf000 + i * 0x1000 \<and> (entry_address i = 0xf000 \<or> entry_address i = 0x10000)"
  by (auto simp: entry_address_def ota_consts word_le_one)

text \<open>The boot-selection record \<open>i\<close> as the memory stores it.\<close>

definition stored_entry :: "('f \<Rightarrow> nat \<Rightarrow> u8) \<Rightarrow> 'f \<Rightarrow> nat \<Rightarrow> ota_entry option" where
  "stored_entry mem f i = ota_entry_decode (map (\<lambda>k. mem f (0xf000 + i * 0x1000 + k)) [0..<32])"

lemma stored_entry_total: "\<exists>e. stored_entry mem f i = Some e"
  unfolding stored_entry_def by (rule decode_total) simp

definition stored_entries :: "('f \<Rightarrow> nat \<Rightarrow> u8) \<Rightarrow> 'f \<Rightarrow> ota_entries" where
  "stored_entries mem f = (the (stored_entry mem f 0), the (stored_entry mem f 1))"

lemma stored_entries_frame:
  assumes "only_within mem (0xf000 + i * 0x1000) (0xf000 + i * 0x1000 + 0x1000) f g" and "i < 2"
    and "stored_entry mem g i = Some e"
  shows "stored_entries mem g = replace_at (stored_entries mem f) i e"
proof -
  have "i = 0 \<or> i = 1" using assms(2) by auto
  moreover from this have "stored_entry mem g (1 - i) = stored_entry mem f (1 - i)"
    unfolding stored_entry_def using assms(1)
    by (intro arg_cong [where f = ota_entry_decode] map_cong refl) (auto simp: only_within_def)
  ultimately show ?thesis
    using assms(3) by (auto simp: stored_entries_def replace_at_def)
qed

lemma plain_read:
  assumes C: "rom_contract False R mem page" and "read_flash False R a n s = Some (Inr bs, s')"
  shows "bs = map (\<lambda>k. mem (fe_hw s) (unat a + k)) [0..<n]" and "mem (fe_hw s') = mem (fe_hw s)"
proof -
  obtain r f where spi: "rom_spi_read R (fe_hw s) a n = (r, f)" by (meson surj_pair)
  then have r: "r = Inr bs" and s': "s' = s\<lparr>fe_hw := f\<rparr>"
    using assms(2) by (auto simp: read_flash_def map_err_def hw_result_def on_hw_def split: sum.splits)
  show "bs = map (\<lambda>k. mem (fe_hw s) (unat a + k)) [0..<n]"
    using rom_contractD(9) [OF C spi [unfolded r]] by simp
  show "mem (fe_hw s') = mem (fe_hw s)" using rom_contractD(7) [OF C spi] s' by simp
qed

lemma plain_read_entries:
  assumes C: "rom_contract False R mem page" and "read_raw_entries False R s = Some (Inr es, s')"
  shows "es = stored_entries mem (fe_hw s)" and "mem (fe_hw s') = mem (fe_hw s)"
proof -
  have a: "unat (entry_address 0) = 0xf000" "unat (entry_address 1) = 0x10000"
    by (simp_all add: entry_address_def ota_consts)
  obtain raw0 raw1 s1 e0 e1 where r0: "read_flash False R (entry_address 0) 32 s = Some (Inr raw0, s1)"
    and r1: "read_flash False R (entry_address 1) 32 s1 = Some (Inr raw1, s')"
    and e: "ota_entry_decode raw0 = Some e0" "ota_entry_decode raw1 = Some e1" "es = (e0, e1)"
    using assms(2)
    by (auto simp: read_raw_entries_def try_then_def or_panic_def rust_ok_def OTA_ENTRY_SIZE_def
        split: option.splits sum.splits)
  note m = plain_read [OF C r0] plain_read [OF C r1]
  show "es = stored_entries mem (fe_hw s)"
    using e m a by (simp add: stored_entries_def stored_entry_def)
  show "mem (fe_hw s') = mem (fe_hw s)" using m by simp
qed

text \<open>The layout of an update names the slot the hardware is executing from as the active one.\<close>

lemma layout_result:
  assumes "ota_update_layout enc R d s = Some (Inr layout, s')"
  shows "\<exists>running es s1. running_app_offset R d s = Some (Inr running, s) \<and> read_raw_entries enc R s = Some (Inr es, s1)
    \<and> s' = s1 \<and> update_layout_from_entries es running
      = Some (ul_active_slot layout, ul_active_sequence layout, ul_activation_entry layout)"
proof -
  obtain running s0 where run: "running_app_offset R d s = Some (Inr running, s0)"
    using assms by (auto simp: ota_update_layout_def try_then_def split: option.splits sum.splits)
  moreover have "s0 = s"
    using run by (auto simp: running_app_offset_def guard_err_def ok_or_def rust_ok_def rust_err_def Let_def
        split: if_splits option.splits)
  ultimately show ?thesis
    using assms
    by (auto simp: ota_update_layout_def read_entries_def try_then_def ok_or_def rust_ok_def rust_err_def
        split: option.splits sum.splits prod.splits)
qed

lemma activation_entry_eq:
  assumes "update_layout_from_entries es running = Some (slot, q, ae)"
    and "activation_is_valid slot q ae target seq entry"
  shows "\<exists>i. active_entry es = Some i \<and> i < 2 \<and> unat entry = 1 - i \<and> oe_sequence (entry_at es i) < seq
    \<and> slot_offset seq = update_slot_offset target \<and> update_slot_offset target \<noteq> Some running"
proof -
  obtain i where i: "active_entry es = Some i" "q = oe_sequence (entry_at es i)" "ae = of_nat (1 - i)"
    using layout_entries(3) [OF assms(1)] by blast
  have i2: "i = 0 \<or> i = 1" using active_entry_cases(1) [OF i(1)] by auto
  have v: "target \<le> 1" "target \<noteq> slot" "entry = ae" "q < seq"
    and "map_option (\<lambda>v. ucast (v mod OTA_SLOT_COUNT)) (checked_sub seq 1) = Some target"
    using assms(2) by (simp_all add: activation_is_valid_def)
  then obtain w where w: "checked_sub seq 1 = Some w" "target = ucast (w mod OTA_SLOT_COUNT)" by auto
  have "\<exists>off. slot_offset seq = Some off"
    using w(1) word_mod_2 [of w] by (auto simp: slot_offset_def ota_consts Let_def)
  then have off: "slot_offset seq = update_slot_offset target"
    using slot_of_sequence [OF _ w(1)] w(2) by auto
  have "update_slot_offset target \<noteq> Some running"
    using layout_entries(1,2) [OF assms(1)] v(1,2)
    by (auto simp: update_slot_offset_def word_le_one ota_consts split: if_splits)
  moreover have "unat entry = 1 - i" using i2 v(3) i(3) by auto
  ultimately show ?thesis using i i2 v(4) off by auto
qed

lemma activate_update_confined:
  assumes C: "rom_contract enc R mem page"
  shows "confined mem 0xf000 0x11000 s (activate_update enc R target seq entry d s)"
  unfolding activate_update_def
proof (rule confined_try_then)
  show "confined mem 0xf000 0x11000 s (ota_update_layout enc R d s)"
    by (rule confined_none [OF ota_update_layout_confined [OF C]])
  fix layout s1
  let ?a = "entry_address (ucast entry)"
  let ?raw = "to_le32 seq @ replicate 20 0xff @ to_le32 0 @ to_le32 (ota_crc seq)"
  have "confined mem 0xf000 0x11000 t (replace_entry enc R ?a ?raw t)" if "entry \<le> 1" for t
  proof -
    have a: "?a = 0xf000 \<or> ?a = 0x10000" using that by (auto simp: word_le_one entry_address_def ota_consts)
    show ?thesis by (rule confined_mono [OF replace_entry_confined [OF C a]]) (use a in auto)
  qed
  moreover have "confined mem 0xf000 0x11000 t (read_flash enc R ?a OTA_ENTRY_SIZE t)" for t
    by (rule confined_none [OF read_flash_confined(1) [OF C]])
  ultimately show "confined mem 0xf000 0x11000 s1 (try_then (guard_err (\<not> activation_is_valid (ul_active_slot layout)
      (ul_active_sequence layout) (ul_activation_entry layout) target seq entry) CE_InvalidLayout) (\<lambda>_.
     try_then (or_panic (encode_with_state \<lparr>oe_sequence = seq, oe_state = 0, oe_crc = ota_crc seq\<rparr> 0)) (\<lambda>replacement.
     try_then (replace_entry enc R ?a replacement) (\<lambda>_.
     try_then (read_flash enc R ?a OTA_ENTRY_SIZE) (\<lambda>readback.
     if readback \<noteq> replacement then rust_err CE_ReadbackMismatch else rust_ok ())))) s1)"
    by (auto simp: encode_with_state_eq activation_is_valid_def rust_err_def
        intro!: confined_try_then confined_intros [OF C])
qed

lemma replace_entry_stored:
  assumes C: "rom_contract False R mem page" and "replace_entry False R (entry_address (of_nat i)) raw s = Some (Inr (), s1)"
    and "read_flash False R (entry_address (of_nat i)) OTA_ENTRY_SIZE s1 = Some (Inr raw, s2)"
    and "i < 2" and "length raw = 32" and "ota_entry_decode raw = Some e"
  shows "stored_entries mem (fe_hw s2) = replace_at (stored_entries mem (fe_hw s)) i e"
proof -
  have i: "i = 0 \<or> i = 1" using assms(4) by auto
  then have a: "entry_address (of_nat i) = 0xf000 \<or> entry_address (of_nat i) = 0x10000"
    and ua: "unat (entry_address (of_nat i)) = 0xf000 + i * 0x1000"
    by (auto simp: entry_address_def ota_consts)
  have within: "only_within mem (0xf000 + i * 0x1000) (0xf000 + i * 0x1000 + 0x1000) (fe_hw s) (fe_hw s1)"
    using replace_entry_confined [OF C a assms(5), of s] assms(2) by (simp add: confined_def ua)
  note rd = plain_read [OF C assms(3)]
  have "stored_entry mem (fe_hw s2) i = Some e"
    using rd assms(6) ua by (simp add: stored_entry_def OTA_ENTRY_SIZE_def)
  moreover have "only_within mem (0xf000 + i * 0x1000) (0xf000 + i * 0x1000 + 0x1000) (fe_hw s) (fe_hw s2)"
    using within rd(2) by (simp add: only_within_def)
  ultimately show ?thesis by (intro stored_entries_frame [OF _ assms(4)])
qed

lemma activated_entries:
  assumes C: "rom_contract False R mem page"
    and "activate_update False R target seq entry d s = Some (Inr (), s')"
  shows "\<exists>running i. running_app_offset R d s = Some (Inr running, s)
    \<and> active_entry (stored_entries mem (fe_hw s)) = Some i \<and> unat entry = 1 - i
    \<and> oe_sequence (entry_at (stored_entries mem (fe_hw s)) i) < seq
    \<and> slot_offset seq = update_slot_offset target \<and> update_slot_offset target \<noteq> Some running
    \<and> stored_entries mem (fe_hw s') = replace_at (stored_entries mem (fe_hw s)) (1 - i)
        \<lparr>oe_sequence = seq, oe_state = 0, oe_crc = ota_crc seq\<rparr>"
proof -
  let ?raw = "to_le32 seq @ replicate 20 0xff @ to_le32 0 @ to_le32 (ota_crc seq)"
  let ?a = "entry_address (ucast entry)"
  obtain layout s1 s2 where lay: "ota_update_layout False R d s = Some (Inr layout, s1)"
    and ok: "activation_is_valid (ul_active_slot layout) (ul_active_sequence layout) (ul_activation_entry layout)
      target seq entry"
    and rep: "replace_entry False R ?a ?raw s1 = Some (Inr (), s2)"
    and rd: "read_flash False R ?a OTA_ENTRY_SIZE s2 = Some (Inr ?raw, s')"
    using assms(2)
    by (auto simp: activate_update_def encode_with_state_eq try_then_def guard_err_def rust_ok_def rust_err_def
        split: option.splits sum.splits if_splits)
  obtain running es where run: "running_app_offset R d s = Some (Inr running, s)"
    and es: "read_raw_entries False R s = Some (Inr es, s1)"
    and lo: "update_layout_from_entries es running
      = Some (ul_active_slot layout, ul_active_sequence layout, ul_activation_entry layout)"
    using layout_result [OF lay] by blast
  note st = plain_read_entries [OF C es]
  obtain i where i: "active_entry es = Some i" "i < 2" "unat entry = 1 - i" "oe_sequence (entry_at es i) < seq"
    "slot_offset seq = update_slot_offset target" "update_slot_offset target \<noteq> Some running"
    using activation_entry_eq [OF lo ok] by blast
  have "(of_nat (unat entry) :: u32) = ucast entry" by simp
  then have a: "?a = entry_address (of_nat (1 - i))" using i(3) by metis
  have "stored_entries mem (fe_hw s') = replace_at (stored_entries mem (fe_hw s1)) (1 - i)
      \<lparr>oe_sequence = seq, oe_state = 0, oe_crc = ota_crc seq\<rparr>"
    by (rule replace_entry_stored [OF C rep [unfolded a] rd [unfolded a]]) (simp_all add: decode_encoded)
  then show ?thesis using run i st by (auto simp: stored_entries_def stored_entry_def)
qed

lemma confirm_cases:
  assumes C: "rom_contract enc R mem page"
  shows "confined mem 0xf000 0x11000 s (confirm_running_image enc R version sv d s)"
proof -
  note base = confined_intros [OF C] confined_none [OF read_flash_confined(1) [OF C]]
    confined_none [OF read_raw_entries_confined [OF C]]
  have run: "confined mem lo hi t (running_app_offset R d t)" for t lo hi
    unfolding running_app_offset_def Let_def by (intro confined_try_then base)
  have rep: "confined mem 0xf000 0x11000 t (replace_entry enc R (entry_address (of_nat i)) (to_le32 q @ replicate 20 0xff
      @ to_le32 st @ to_le32 c) t)" if "i < 2" for t i q st c
  proof -
    have a: "entry_address (of_nat i) = 0xf000 \<or> entry_address (of_nat i) = 0x10000"
      using that by (auto simp: less_2_cases_iff entry_address_def ota_consts)
    show ?thesis by (rule confined_mono [OF replace_entry_confined [OF C a]]) (use a in auto)
  qed
  have body: "confined mem 0xf000 0x11000 t (try_then (read_flash enc R a APP_DESCRIPTOR_SIZE) (\<lambda>descriptor.
      try_then (or_panic (confirmation_matches_running_image e run descriptor version sv)) (\<lambda>matches.
      if \<not> matches then rust_ok False
      else try_then (or_panic (encode_with_state e OTA_STATE_VALID)) (\<lambda>replacement.
        try_then (replace_entry enc R (entry_address (of_nat i)) replacement) (\<lambda>_.
        try_then (read_flash enc R (entry_address (of_nat i)) OTA_ENTRY_SIZE) (\<lambda>readback.
        if readback \<noteq> replacement then rust_err CE_ReadbackMismatch else rust_ok True))))) t)"
    if "i < 2" for t a e run i
  proof (rule confined_try_then [OF base(7)])
    fix descriptor t'
    assume "read_flash enc R a APP_DESCRIPTOR_SIZE t = Some (Inr descriptor, t')"
    then have len: "length descriptor = 256" using read_flash_confined(2) [OF C] by (simp add: APP_DESCRIPTOR_SIZE_def)
    have "\<exists>b. descriptor_matches_version descriptor version = Some b"
      using le32.slice_dec_total [of 0 descriptor] len
      by (auto simp: descriptor_matches_version_def OTA_APP_VERSION_OFFSET_def APP_VERSION_SIZE_def
          subslice_def index_def)
    moreover obtain w where "Option.bind (subslice descriptor 4 8) from_le32 = Some w"
      using le32.slice_dec_total [of 4 descriptor] len by auto
    ultimately have "\<exists>b. confirmation_matches_running_image e run descriptor version sv = Some b"
      by (auto simp: confirmation_matches_running_image_def simp del: Option.bind_assoc)
    then obtain b where b: "confirmation_matches_running_image e run descriptor version sv = Some b" ..
    show "confined mem 0xf000 0x11000 t' (try_then (or_panic (confirmation_matches_running_image e run descriptor version sv)) (\<lambda>matches.
      if \<not> matches then rust_ok False
      else try_then (or_panic (encode_with_state e OTA_STATE_VALID)) (\<lambda>replacement.
        try_then (replace_entry enc R (entry_address (of_nat i)) replacement) (\<lambda>_.
        try_then (read_flash enc R (entry_address (of_nat i)) OTA_ENTRY_SIZE) (\<lambda>readback.
        if readback \<noteq> replacement then rust_err CE_ReadbackMismatch else rust_ok True)))) t')"
      by (auto simp: b encode_with_state_eq rust_err_def intro!: confined_try_then base rep that)
  qed
  have off: "checked_add app OTA_APP_DESCRIPTOR_OFFSET = Some (app + 32)" if "slot_offset q = Some app" for q app
    using that by (auto simp: slot_offset_def ota_consts OTA_APP_DESCRIPTOR_OFFSET_def Let_def split: bind_splits if_splits)
  show ?thesis
    unfolding confirm_running_image_def
    by (intro confined_try_then run base)
      (auto simp: Let_def off split: option.splits intro!: base(6) body dest: active_entry_cases(1))
qed

lemma confirmed_entries:
  assumes C: "rom_contract False R mem page"
    and res: "confirm_running_image False R version sv d s = Some (Inr r, s')"
  shows "\<not> r \<Longrightarrow> mem (fe_hw s') = mem (fe_hw s)"
    and "r \<Longrightarrow> \<exists>running i. running_app_offset R d s = Some (Inr running, s)
      \<and> active_entry (stored_entries mem (fe_hw s)) = Some i
      \<and> oe_state (entry_at (stored_entries mem (fe_hw s)) i) = OTA_STATE_PENDING_VERIFY
      \<and> slot_offset (oe_sequence (entry_at (stored_entries mem (fe_hw s)) i)) = Some running
      \<and> stored_entries mem (fe_hw s') = replace_at (stored_entries mem (fe_hw s)) i
          ((entry_at (stored_entries mem (fe_hw s)) i)\<lparr>oe_state := OTA_STATE_VALID\<rparr>)"
proof -
  obtain running s0 es s1 where run: "running_app_offset R d s = Some (Inr running, s0)"
    and es: "read_raw_entries False R s0 = Some (Inr es, s1)"
    using res by (auto simp: confirm_running_image_def try_then_def split: option.splits sum.splits)
  have s0: "s0 = s"
    using run by (auto simp: running_app_offset_def guard_err_def ok_or_def rust_ok_def rust_err_def Let_def
        split: if_splits option.splits)
  note st = plain_read_entries [OF C es [unfolded s0]]
  have quiet: "mem (fe_hw t') = mem (fe_hw t)" if "read_flash False R a n t = Some (Inr bs, t')" for a n t bs t'
    using plain_read(2) [OF C that] .
  show "mem (fe_hw s') = mem (fe_hw s)" if "\<not> r"
    using res run es that st(2) s0
    by (auto simp: confirm_running_image_def try_then_def rust_ok_def rust_err_def or_panic_def Let_def dest!: quiet
        split: option.splits sum.splits if_splits)
  assume r: "r"
  let ?raw = "\<lambda>e. to_le32 (oe_sequence e) @ replicate 20 0xff @ to_le32 OTA_STATE_VALID @ to_le32 (ota_crc (oe_sequence e))"
  from res run es r s0 obtain i descriptor a s2 s3 where i: "active_entry es = Some i"
    and pending: "oe_state (entry_at es i) = OTA_STATE_PENDING_VERIFY"
    and rd: "read_flash False R a APP_DESCRIPTOR_SIZE s1 = Some (Inr descriptor, s2)"
    and ok: "confirmation_matches_running_image (entry_at es i) running descriptor version sv = Some True"
    and rep: "replace_entry False R (entry_address (of_nat i)) (?raw (entry_at es i)) s2 = Some (Inr (), s3)"
    and rb: "read_flash False R (entry_address (of_nat i)) OTA_ENTRY_SIZE s3 = Some (Inr (?raw (entry_at es i)), s')"
    by (auto simp: confirm_running_image_def try_then_def rust_ok_def rust_err_def or_panic_def Let_def
        encode_with_state_eq split: option.splits sum.splits if_splits)
  let ?e = "(entry_at es i)\<lparr>oe_state := OTA_STATE_VALID\<rparr>"
  have crc: "oe_crc (entry_at es i) = ota_crc (oe_sequence (entry_at es i))"
    using active_entry_cases(2) [OF i] by (simp add: is_selectable_def)
  have "stored_entries mem (fe_hw s') = replace_at (stored_entries mem (fe_hw s2)) i ?e"
    by (rule replace_entry_stored [OF C rep rb active_entry_cases(1) [OF i]]) (simp_all add: decode_encoded crc)
  moreover have "stored_entries mem (fe_hw s2) = stored_entries mem (fe_hw s)"
    using quiet [OF rd] st(2) by (simp add: stored_entries_def stored_entry_def)
  moreover have "slot_offset (oe_sequence (entry_at es i)) = Some running"
    using ok by (auto simp: confirmation_matches_running_image_def split: if_splits)
  ultimately show "\<exists>running i. running_app_offset R d s = Some (Inr running, s)
      \<and> active_entry (stored_entries mem (fe_hw s)) = Some i
      \<and> oe_state (entry_at (stored_entries mem (fe_hw s)) i) = OTA_STATE_PENDING_VERIFY
      \<and> slot_offset (oe_sequence (entry_at (stored_entries mem (fe_hw s)) i)) = Some running
      \<and> stored_entries mem (fe_hw s') = replace_at (stored_entries mem (fe_hw s)) i
          ((entry_at (stored_entries mem (fe_hw s)) i)\<lparr>oe_state := OTA_STATE_VALID\<rparr>)"
    using run s0 i pending st(1) by (intro exI [of _ running] exI [of _ i]) simp
qed

section \<open>Properties\<close>









text \<open>
  A boot-selection record survives encoding and decoding, with the checksum of its sequence.
\<close>

theorem ota_record_round_trip:
  "Option.bind (encode_with_state e state) ota_entry_decode
     = Some \<lparr>oe_sequence = oe_sequence e, oe_state = state, oe_crc = ota_crc (oe_sequence e)\<rparr>"
  by (simp add: encode_with_state_eq decode_encoded)

end
