(* ===== verification/Update_Backend.thy ===== *)
theory Update_Backend
  imports Ota
begin

text \<open>
  \<^verbatim>\<open>src/platform/usb_update.rs\<close>: the ESP32-S2 backend of the update protocol. Its methods
  are fallible operations on the flash device; \<open>esp_backend\<close> packs them as the record
  \<open>update_backend\<close> the protocol is written against, so that the theorems of \<open>Usb_Update\<close>
  apply to the real slots once \<open>esp_flash_backend\<close> has discharged their hypotheses. The flag
  \<open>enc\<close> is the cargo feature \<^verbatim>\<open>release-flash-encryption\<close>.
\<close>

section \<open>Definitions\<close>

definition FLASH_SECTOR_SIZE :: u32 where "FLASH_SECTOR_SIZE = 0x1000"

datatype backend_error = BE_Address | BE_Flash | BE_Ota

definition backend_address :: "u8 \<Rightarrow> u32 \<Rightarrow> nat \<Rightarrow> backend_error + u32" where
  "backend_address slot offset n = (case update_slot_offset slot of
       None \<Rightarrow> Inl BE_Address
     | Some base \<Rightarrow> (case u32_try_from n of
         None \<Rightarrow> Inl BE_Address
       | Some len \<Rightarrow> (case checked_add offset len of
           None \<Rightarrow> Inl BE_Address
         | Some e \<Rightarrow>
             if OTA_SLOT_SIZE < e then Inl BE_Address
             else (case checked_add base offset of None \<Rightarrow> Inl BE_Address | Some a \<Rightarrow> Inr a))))"

definition esp_now_ms :: "'f rom \<Rightarrow> 'f fe_state \<Rightarrow> u64 \<times> 'f fe_state" where
  "esp_now_ms R = on_hw (rom_clock_ms R)"

definition esp_layout :: "bool \<Rightarrow> 'f rom \<Rightarrow> u32 \<Rightarrow> ('f fe_state, backend_error, update_layout) rust" where
  "esp_layout enc R descriptor_address = map_err (\<lambda>_. BE_Ota) (ota_update_layout enc R descriptor_address)"

definition lift_result :: "'e + 'a \<Rightarrow> ('s, 'e, 'a) rust" where
  "lift_result r s = Some (r, s)"

definition esp_erase :: "bool \<Rightarrow> 'f rom \<Rightarrow> u8 \<Rightarrow> u32 \<Rightarrow> u32 \<Rightarrow> ('f fe_state, backend_error, unit) rust" where
  "esp_erase enc R slot offset len =
     try_then (guard_err (offset mod FLASH_SECTOR_SIZE \<noteq> 0 \<or> len mod FLASH_SECTOR_SIZE \<noteq> 0 \<or> len = 0)
       BE_Address) (\<lambda>_.
     try_then (lift_result (backend_address slot offset (unat len))) (\<lambda>address.
     if enc then map_err (\<lambda>_. BE_Flash) (erase_update R address (unat len))
     else
       try_then (map_err (\<lambda>_. BE_Flash) (hw_result (rom_unlock R))) (\<lambda>_.
       try_then (ok_or BE_Address (checked_add address len)) (\<lambda>e.
       erase_sectors R (\<lambda>_. BE_Flash) (sector_addresses address e)))))"

definition esp_write :: "bool \<Rightarrow> 'f rom \<Rightarrow> u8 \<Rightarrow> u32 \<Rightarrow> bytes \<Rightarrow> ('f fe_state, backend_error, unit) rust" where
  "esp_write enc R slot offset data =
     try_then (guard_err (data = [] \<or> offset mod 32 \<noteq> 0 \<or> length data mod 32 \<noteq> 0) BE_Address) (\<lambda>_.
     try_then (lift_result (backend_address slot offset (length data))) (\<lambda>address.
     if enc then map_err (\<lambda>_. BE_Flash) (write_update_enc R address data)
     else
       try_then (or_panic (copy_from_slice (replicate MAX_WRITE_CHUNK 0) 0 (length data) data)) (\<lambda>aligned.
       try_then (map_err (\<lambda>_. BE_Flash) (hw_result (rom_unlock R))) (\<lambda>_.
       map_err (\<lambda>_. BE_Flash) (hw_result (\<lambda>f. rom_spi_write R f address (take (length data) aligned)))))))"

definition esp_activate :: "bool \<Rightarrow> 'f rom \<Rightarrow> u32 \<Rightarrow> u8 \<Rightarrow> u32 \<Rightarrow> u8 \<Rightarrow> ('f fe_state, backend_error, unit) rust"
where
  "esp_activate enc R descriptor_address slot sequence activation_entry =
     map_err (\<lambda>_. BE_Ota) (activate_update enc R slot sequence activation_entry descriptor_address)"

text \<open>The \<^verbatim>\<open>while !remaining.is_empty()\<close> loop of the plain \<^verbatim>\<open>read\<close>, 1024 bytes at a time.\<close>

function read_plain :: "'f rom \<Rightarrow> u32 \<Rightarrow> nat \<Rightarrow> ('f fe_state, backend_error, bytes) rust" where
  "read_plain R address n s =
     (if n = 0 then Some (Inr [], s)
      else
        let count = min n 1024 in
        case map_err (\<lambda>_. BE_Flash) (hw_result (\<lambda>f. rom_spi_read R f address count)) s of
          None \<Rightarrow> None
        | Some (Inl e, s) \<Rightarrow> Some (Inl e, s)
        | Some (Inr current, s) \<Rightarrow>
            (case checked_add address (of_nat count) of
               None \<Rightarrow> None
             | Some address \<Rightarrow>
                 (case read_plain R address (n - count) s of
                    None \<Rightarrow> None
                  | Some (Inl e, s) \<Rightarrow> Some (Inl e, s)
                  | Some (Inr rest, s) \<Rightarrow> Some (Inr (current @ rest), s))))"
  by pat_completeness auto
termination by (relation "measure (\<lambda>(R, a, n, s). n)") auto

declare read_plain.simps [simp del]

definition esp_read :: "bool \<Rightarrow> 'f rom \<Rightarrow> u8 \<Rightarrow> u32 \<Rightarrow> nat \<Rightarrow> ('f fe_state, backend_error, bytes) rust" where
  "esp_read enc R slot offset n =
     try_then (lift_result (backend_address slot offset n)) (\<lambda>address.
     if enc then map_err (\<lambda>_. BE_Flash) (read_update R address n) else read_plain R address n)"

definition esp_verify_rsa_pss :: "'f rom \<Rightarrow> bytes \<Rightarrow> bytes \<Rightarrow> bytes \<Rightarrow> bool option" where
  "esp_verify_rsa_pss R public_key signature image_digest = do {
     exponent \<leftarrow> Option.bind (subslice public_key 384 388) from_le32;
     mdash \<leftarrow> Option.bind (subslice public_key 772 776) from_le32;
     modulus \<leftarrow> subslice public_key 0 384;
     rinv \<leftarrow> subslice public_key 388 772;
     let (valid, verified) = rom_rsa_pss_verify R modulus exponent rinv mdash signature image_digest;
     Some (valid \<and> verified = image_digest)
   }"

definition hex_nibble :: "u8 \<Rightarrow> u8 option" where
  "hex_nibble v =
     (if 0x30 \<le> v \<and> v \<le> 0x39 then Some (v - 0x30)
      else if 0x61 \<le> v \<and> v \<le> 0x66 then Some (v - 0x61 + 10) else None)"

fun hex_bytes :: "bytes \<Rightarrow> bytes option" where
  "hex_bytes [] = Some []"
| "hex_bytes (a # b # rest) = do {
     hi \<leftarrow> hex_nibble a;
     lo \<leftarrow> hex_nibble b;
     out \<leftarrow> hex_bytes rest;
     Some ((push_bit 4 hi OR lo) # out)
   }"
| "hex_bytes [_] = None"

definition trusted_update_key_digest :: "bytes \<Rightarrow> bytes option" where
  "trusted_update_key_digest hex = (if length hex = 64 then hex_bytes hex else None)"

section \<open>The backend of the protocol\<close>

text \<open>
  The results as the protocol sees them: an error value is never inspected. No operation
  panics under the hardware contract (\<open>esp_ops_return\<close>), so the third case below is not used.
\<close>

definition outcome_of :: "'s \<Rightarrow> (('e + 'a) \<times> 's) option \<Rightarrow> 'a option \<times> 's" where
  "outcome_of s r = (case r of
       Some (Inr a, s') \<Rightarrow> (Some a, s') | Some (Inl _, s') \<Rightarrow> (None, s') | None \<Rightarrow> (None, s))"

definition succeeded_of :: "'s \<Rightarrow> (('e + unit) \<times> 's) option \<Rightarrow> bool \<times> 's" where
  "succeeded_of s r = (fst (outcome_of s r) \<noteq> None, snd (outcome_of s r))"

definition esp_backend :: "bool \<Rightarrow> 'f rom \<Rightarrow> u32 \<Rightarrow> 'f fe_state update_backend" where
  "esp_backend enc R descriptor_address = \<lparr>
     ir_read = \<lambda>s slot off n. outcome_of s (esp_read enc R slot off n s),
     ir_verify_rsa_pss = \<lambda>s pk sg d. (esp_verify_rsa_pss R pk sg d, s),
     ub_now_ms = esp_now_ms R,
     ub_layout = \<lambda>s. outcome_of s (esp_layout enc R descriptor_address s),
     ub_erase = \<lambda>s slot off n. succeeded_of s (esp_erase enc R slot off n s),
     ub_write = \<lambda>s slot off d. succeeded_of s (esp_write enc R slot off d s),
     ub_activate = \<lambda>s slot q e. succeeded_of s (esp_activate enc R descriptor_address slot q e s)\<rparr>"

section \<open>Lemmas\<close>

lemma backend_address_bounds:
  assumes "backend_address slot off n = Inr a"
  shows "\<exists>base. update_slot_offset slot = Some base \<and> unat a = unat base + unat off
    \<and> unat off + n \<le> 0x1e0000 \<and> unat a + n < 2 ^ 32"
proof -
  obtain base len e where b: "update_slot_offset slot = Some base" and l: "u32_try_from n = Some len"
    and e: "checked_add off len = Some e" "\<not> OTA_SLOT_SIZE < e" and a: "checked_add base off = Some a"
    using assms by (auto simp: backend_address_def split: option.splits if_splits)
  have "unat len = n"
    using l by (auto simp: u32_try_from_def unat_of_nat take_bit_nat_eq_self split: if_splits)
  then have off: "unat off + n \<le> 0x1e0000"
    using e checked_add_SomeD [OF e(1)] by (simp add: OTA_SLOT_SIZE_def word_less_nat_alt)
  moreover have "unat base \<le> 0x200000"
    using b by (auto simp: update_slot_offset_def ota_consts split: if_splits)
  ultimately show ?thesis using b checked_add_SomeD [OF a] by auto
qed

lemma read_plain_ok:
  assumes C: "rom_contract False R mem page" and "unat a + n < 2 ^ 32"
  shows "\<exists>r s'. read_plain R a n s = Some (r, s') \<and> mem (fe_hw s') = mem (fe_hw s)
    \<and> fe_initialized s' = fe_initialized s
    \<and> (\<forall>bs. r = Inr bs \<longrightarrow> bs = map (\<lambda>i. mem (fe_hw s) (unat a + i)) [0..<n])"
  using assms(2)
proof (induction n arbitrary: a s rule: less_induct)
  case (less n)
  show ?case
  proof (cases "n = 0")
    case True
    then show ?thesis by (simp add: read_plain.simps)
  next
    case False
    define c where "c = min n 1024"
    have c: "0 < c" "c \<le> n" using False by (auto simp: c_def)
    have uc: "unat (of_nat c :: u32) = c" using c less.prems by (simp add: unat_of_nat take_bit_nat_eq_self)
    have add: "checked_add a (of_nat c) = Some (a + of_nat c)" and ua: "unat (a + of_nat c) = unat a + c"
      using less.prems c(2) uc by (simp_all add: unat_word_ariths)
    obtain r f where spi: "rom_spi_read R (fe_hw s) a c = (r, f)" by (meson surj_pair)
    define s1 where "s1 = s\<lparr>fe_hw := f\<rparr>"
    have keep: "mem (fe_hw s1) = mem (fe_hw s)" "fe_initialized s1 = fe_initialized s"
      using rom_contractD(7) [OF C spi] by (simp_all add: s1_def)
    have ok: "r = Inr bs \<Longrightarrow> bs = map (\<lambda>i. mem (fe_hw s) (unat a + i)) [0..<c]" for bs
      using rom_contractD(9) [OF C, of "fe_hw s" a c bs f] spi by simp
    have step: "read_plain R a n s = (case r of Inl e \<Rightarrow> Some (Inl BE_Flash, s1)
      | Inr current \<Rightarrow> (case read_plain R (a + of_nat c) (n - c) s1 of
          None \<Rightarrow> None | Some (Inl e, s) \<Rightarrow> Some (Inl e, s)
        | Some (Inr rest, s) \<Rightarrow> Some (Inr (current @ rest), s)))"
      using False spi add
      by (simp add: read_plain.simps [of R a n s] map_err_def hw_result_def on_hw_def s1_def flip: c_def
          split: sum.splits)
    obtain q s2 where rest: "read_plain R (a + of_nat c) (n - c) s1 = Some (q, s2)"
      "mem (fe_hw s2) = mem (fe_hw s1)" "fe_initialized s2 = fe_initialized s1"
      "\<And>bs. q = Inr bs \<Longrightarrow> bs = map (\<lambda>i. mem (fe_hw s1) (unat a + c + i)) [0..<n - c]"
      using less.IH [of "n - c" "a + of_nat c" s1] c less.prems ua by auto
    have "[0..<n] = [0..<c] @ map (\<lambda>i. c + i) [0..<n - c]"
      using c(2) upt_add_eq_append [of 0 c "n - c"] map_add_upt [of c "n - c"] by (simp add: add.commute)
    then have join: "map (\<lambda>i. mem (fe_hw s) (unat a + i)) [0..<n]
        = map (\<lambda>i. mem (fe_hw s) (unat a + i)) [0..<c] @ map (\<lambda>i. mem (fe_hw s) (unat a + c + i)) [0..<n - c]"
      by (simp add: add.assoc)
    show ?thesis
    proof (cases r)
      case (Inl e)
      then show ?thesis using keep by (simp add: step)
    next
      case (Inr current)
      then show ?thesis using ok [OF Inr] rest keep join by (cases q) (auto simp: step)
    qed
  qed
qed

lemma read_update_ok:
  assumes C: "rom_contract enc R mem page" and n: "unat a + n < 2 ^ 32"
  shows "\<exists>r s'. read_update R a n s = Some (r, s') \<and> mem (fe_hw s') = mem (fe_hw s)
    \<and> fe_initialized s' = fe_initialized s
    \<and> (\<forall>bs. r = Inr bs \<longrightarrow> bs = map (\<lambda>i. mem (fe_hw s) (unat a + i)) [0..<n])"
proof (cases "fe_initialized s")
  case True
  have "unat (of_nat n :: u32) = n" using n by (simp add: unat_of_nat take_bit_nat_eq_self)
  then have "read_update R a n s = read_pages R a n s" using True n by (simp add: read_update_def u32_try_from_def)
  with read_pages_ok [OF C n, of s] show ?thesis by auto
qed (simp add: read_update_def)

definition slot_content :: "('f \<Rightarrow> nat \<Rightarrow> u8) \<Rightarrow> 'f fe_state \<Rightarrow> u8 \<Rightarrow> bytes" where
  "slot_content mem s slot = (case update_slot_offset slot of
       None \<Rightarrow> []
     | Some base \<Rightarrow> map (\<lambda>i. mem (fe_hw s) (unat base + i)) [0..<0x1e0000])"

lemma slot_content_mem: "mem (fe_hw s') = mem (fe_hw s) \<Longrightarrow> slot_content mem s' = slot_content mem s"
  by (rule ext) (simp add: slot_content_def split: option.splits)

lemma subslice_map_upt:
  "off + n \<le> N \<Longrightarrow> subslice (map f [0..<N]) off (off + n) = Some (map (\<lambda>i. f (off + i)) [0..<n])"
  by (auto simp: subslice_def intro!: nth_equalityI)

lemma esp_read_ok:
  assumes C: "rom_contract enc R mem page"
  shows "\<exists>r s'. esp_read enc R slot off n s = Some (r, s') \<and> mem (fe_hw s') = mem (fe_hw s)
    \<and> (\<forall>bs. r = Inr bs \<longrightarrow> subslice (slot_content mem s slot) (unat off) (unat off + n) = Some bs)"
proof (cases "backend_address slot off n")
  case (Inl e)
  then show ?thesis by (simp add: esp_read_def try_then_def lift_result_def)
next
  case (Inr a)
  obtain base where base: "update_slot_offset slot = Some base" "unat a = unat base + unat off"
    "unat off + n \<le> 0x1e0000" "unat a + n < 2 ^ 32"
    using backend_address_bounds [OF Inr] by blast
  have sub: "subslice (slot_content mem s slot) (unat off) (unat off + n)
      = Some (map (\<lambda>i. mem (fe_hw s) (unat a + i)) [0..<n])"
    using subslice_map_upt [OF base(3)] base(1,2) by (simp add: slot_content_def add.assoc)
  have "esp_read enc R slot off n s
      = (if enc then map_err (\<lambda>_. BE_Flash) (read_update R a n) s else read_plain R a n s)"
    using Inr by (simp add: esp_read_def try_then_def lift_result_def)
  moreover have "\<not> enc \<Longrightarrow> rom_contract False R mem page" using C by (cases enc) auto
  ultimately show ?thesis
    using sub read_plain_ok [OF _ base(4), of R mem page s] read_update_ok [OF C base(4), of s]
    by (cases enc) (auto simp: map_err_def split: sum.splits)
qed

definition slot_start :: "u8 \<Rightarrow> nat" where
  "slot_start slot = (case update_slot_offset slot of None \<Rightarrow> 0 | Some base \<Rightarrow> unat base)"

definition slot_end :: "u8 \<Rightarrow> nat" where
  "slot_end slot = (case update_slot_offset slot of None \<Rightarrow> 0 | Some base \<Rightarrow> unat base + 0x1e0000)"

lemma confined_lift:
  assumes "\<And>a. x = Inr a \<Longrightarrow> confined mem lo hi s (f a s)"
  shows "confined mem lo hi s (try_then (lift_result x) f s)"
  using assms by (cases x) (auto simp: confined_def try_then_def lift_result_def)

lemma aligned_add: "(m :: nat) mod k = 0 \<Longrightarrow> n mod k = 0 \<Longrightarrow> (m + n) mod k = 0"
  by (simp add: mod_eq_0_iff_dvd)

lemma esp_erase_confined:
  assumes C: "rom_contract enc R mem page"
  shows "confined mem (slot_start slot) (slot_end slot) s (esp_erase enc R slot off len s)"
proof -
  note base = confined_intros [OF C]
  have body: "confined mem (slot_start slot) (slot_end slot) t ((if enc then map_err (\<lambda>_. BE_Flash) (erase_update R a (unat len))
     else try_then (map_err (\<lambda>_. BE_Flash) (hw_result (rom_unlock R))) (\<lambda>_.
       try_then (ok_or BE_Address (checked_add a len)) (\<lambda>e.
       erase_sectors R (\<lambda>_. BE_Flash) (sector_addresses a e)))) t)"
    if a: "backend_address slot off (unat len) = Inr a"
      and al: "off mod FLASH_SECTOR_SIZE = 0" "len mod FLASH_SECTOR_SIZE = 0" for a t
  proof -
    obtain b where b: "update_slot_offset slot = Some b" "unat a = unat b + unat off"
      "unat off + unat len \<le> 0x1e0000" "unat a + unat len < 2 ^ 32"
      using backend_address_bounds [OF a] by blast
    have range: "slot_start slot \<le> unat a" "unat a + unat len \<le> slot_end slot"
      using b by (simp_all add: slot_start_def slot_end_def)
    have "unat b mod 0x1000 = 0" using b(1) by (auto simp: update_slot_offset_def ota_consts split: if_splits)
    then have al': "unat a mod 0x1000 = 0"
      unfolding b(2) by (rule aligned_add [OF _ sector_aligned [OF al(1) [unfolded FLASH_SECTOR_SIZE_def]]])
    then have al2: "(unat a + unat len) mod 0x1000 = 0"
      by (rule aligned_add [OF _ sector_aligned [OF al(2) [unfolded FLASH_SECTOR_SIZE_def]]])
    have add: "checked_add a len = Some (a + len)" and e: "unat (a + len) = unat a + unat len"
      using b(4) by (simp_all add: unat_word_ariths)
    have "confined mem (slot_start slot) (slot_end slot) t (erase_sectors R (\<lambda>_. BE_Flash) (sector_addresses a (a + len)) t)" for t
    proof (rule erase_sectors_confined [OF C], rule ballI)
      fix x assume "x \<in> set (sector_addresses a (a + len))"
      from sector_addresses_bounds [OF this al' al2 [folded e]] range e
      show "slot_start slot \<le> unat x div 0x1000 * 0x1000 \<and> unat x div 0x1000 * 0x1000 + 0x1000 \<le> slot_end slot"
        by simp
    qed
    moreover have "confined mem (slot_start slot) (slot_end slot) t (erase_update R a (unat len) t)"
      unfolding erase_update_def by (rule confined_mono [OF erase_inner_confined [OF C b(4)] range])
    ultimately show ?thesis
      by (auto simp: add intro!: confined_try_then confined_map_err base)
  qed
  show ?thesis
    unfolding esp_erase_def
    by (intro confined_try_then base confined_lift body)
      (auto simp: guard_err_def rust_err_def rust_ok_def split: if_splits)
qed

lemma esp_write_confined:
  assumes C: "rom_contract enc R mem page" and "length d \<le> MAX_WRITE_CHUNK"
  shows "confined mem (slot_start slot) (slot_end slot) s (esp_write enc R slot off d s)"
proof -
  note base = confined_intros [OF C]
  have body: "confined mem (slot_start slot) (slot_end slot) t ((if enc then map_err (\<lambda>_. BE_Flash) (write_update_enc R a d)
     else try_then (or_panic (copy_from_slice (replicate MAX_WRITE_CHUNK 0) 0 (length d) d)) (\<lambda>aligned.
       try_then (map_err (\<lambda>_. BE_Flash) (hw_result (rom_unlock R))) (\<lambda>_.
       map_err (\<lambda>_. BE_Flash) (hw_result (\<lambda>f. rom_spi_write R f a (take (length d) aligned)))))) t)"
    if a: "backend_address slot off (length d) = Inr a" for a t
  proof -
    obtain b where b: "update_slot_offset slot = Some b" "unat a = unat b + unat off"
      "unat off + length d \<le> 0x1e0000" "unat a + length d < 2 ^ 32"
      using backend_address_bounds [OF a] by blast
    have range: "slot_start slot \<le> unat a" "unat a + length d \<le> slot_end slot"
      using b by (simp_all add: slot_start_def slot_end_def)
    have copy: "copy_from_slice (replicate MAX_WRITE_CHUNK 0) 0 (length d) d
        = Some (d @ replicate (MAX_WRITE_CHUNK - length d) 0)"
      using assms(2) by (simp add: copy_from_slice_def)
    have hw: "confined mem (slot_start slot) (slot_end slot) t (hw_result (\<lambda>f. rom_spi_write R f a d) t)" for t
      using only_within_mono [OF rom_mutation_range(2) [OF C, of a d "fe_hw t"] range]
      by (auto simp: confined_def hw_result_def on_hw_def split: prod.splits)
    have "confined mem (slot_start slot) (slot_end slot) t (write_update_enc R a d t)"
      unfolding write_update_enc_def
      by (rule confined_mono [OF write_inner_confined [OF C] range]) (use b(4) in simp)
    then show ?thesis
      by (auto simp: copy intro!: confined_try_then confined_map_err base hw)
  qed
  show ?thesis
    unfolding esp_write_def by (intro confined_try_then base confined_lift body)
qed

lemma esp_activate_confined:
  assumes "rom_contract enc R mem page"
  shows "confined mem 0xf000 0x11000 s (esp_activate enc R d slot q e s)"
  unfolding esp_activate_def by (rule confined_map_err [OF activate_update_confined [OF assms]])

lemma esp_layout_confined:
  assumes "rom_contract enc R mem page"
  shows "confined mem 0 0 s (esp_layout enc R d s)"
  unfolding esp_layout_def by (rule confined_map_err [OF ota_update_layout_confined [OF assms]])

text \<open>What the record operations do to the memory.\<close>

lemma outcome_of_confined:
  "confined mem lo hi s r \<Longrightarrow> only_within mem lo hi (fe_hw s) (fe_hw (snd (outcome_of s r)))"
  by (auto simp: confined_def outcome_of_def split: sum.splits)

lemma succeeded_of_confined:
  "confined mem lo hi s r \<Longrightarrow> only_within mem lo hi (fe_hw s) (fe_hw (snd (succeeded_of s r)))"
  unfolding succeeded_of_def snd_conv by (rule outcome_of_confined)

definition rsa_verdict :: "'f rom \<Rightarrow> bytes \<Rightarrow> bytes \<Rightarrow> bytes \<Rightarrow> bool" where
  "rsa_verdict R pk sg d \<longleftrightarrow> esp_verify_rsa_pss R pk sg d = Some True"

lemma slots_outside_otadata:
  "only_within mem 0xf000 0x11000 (fe_hw s) (fe_hw s') \<Longrightarrow> slot_content mem s' = slot_content mem s"
  "only_within mem 0 0 (fe_hw s) (fe_hw s') \<Longrightarrow> slot_content mem s' = slot_content mem s"
  by (auto simp: slot_content_def only_within_def update_slot_offset_def ota_consts fun_eq_iff split: option.splits)

lemma esp_flash_backend_lemma:
  assumes C: "rom_contract enc R mem page"
  shows "flash_backend (esp_backend enc R d) (slot_content mem) (rsa_verdict R)"
proof -
  have rd: "slot_content mem (snd (outcome_of s (esp_read enc R slot off n s))) = slot_content mem s
      \<and> (\<forall>bs. fst (outcome_of s (esp_read enc R slot off n s)) = Some bs
          \<longrightarrow> subslice (slot_content mem s slot) (unat off) (unat off + n) = Some bs)" for s slot off n
    using esp_read_ok [OF C, of slot off n s]
    by (auto simp: outcome_of_def intro: slot_content_mem split: sum.splits)
  have clock: "slot_content mem (snd (esp_now_ms R s)) = slot_content mem s" for s
    using rom_contractD(11) [OF C, of "fe_hw s"]
    by (auto simp: esp_now_ms_def on_hw_def intro!: slot_content_mem split: prod.splits)
  have lay: "slot_content mem (snd (outcome_of s (esp_layout enc R d s))) = slot_content mem s" for s
    by (rule slots_outside_otadata(2) [OF outcome_of_confined [OF esp_layout_confined [OF C]]])
  have act: "slot_content mem (snd (succeeded_of s (esp_activate enc R d slot q e s))) = slot_content mem s" for s slot q e
    by (rule slots_outside_otadata(1) [OF succeeded_of_confined [OF esp_activate_confined [OF C]]])
  show ?thesis
    using rd clock lay act
    by (simp add: flash_backend_def faithful_reader_def esp_backend_def rsa_verdict_def)
qed

end
