(* ===== verification/Presence.thy ===== *)
theory Presence
  imports Salpa_Prelude
begin

text \<open>
  Physical consent: \<^verbatim>\<open>src/platform/presence_gate.rs\<close> (the gate of authentication and
  updates), \<^verbatim>\<open>src/platform/maintenance_presence.rs\<close> and
  \<^verbatim>\<open>src/platform/provisioning.rs\<close> (the gestures of irreversible maintenance and of
  destructive provisioning). The polled gestures share the contract \<open>one_shot_gesture\<close>: a poll
  never panics, and the first verdict ends the gesture. What an approval means is stated over
  the sequence of polls: an uninterrupted release, then an uninterrupted press, and for a long
  hold a final release.
\<close>

section \<open>The presence gate\<close>

datatype level = Released | Pressed | Uncertain | Fault

datatype gate_phase = GP_InitialRelease | GP_AwaitPress | GP_FinalRelease | GP_Finished

record presence_gate =
  pg_phase :: gate_phase
  pg_deadline :: u64
  pg_last_poll :: u64
  pg_last_level :: level
  pg_since :: u64
  pg_release_ms :: u64
  pg_press_ms :: u64
  pg_long_hold :: bool

definition ready_for_action :: "presence_gate \<Rightarrow> bool" where
  "ready_for_action g \<longleftrightarrow> pg_phase g = GP_AwaitPress"

definition gate_new :: "u64 \<Rightarrow> u64 \<Rightarrow> bool \<Rightarrow> presence_gate" where
  "gate_new now timeout_ms long_hold = \<lparr>pg_phase = GP_InitialRelease,
     pg_deadline = saturating_add now timeout_ms, pg_last_poll = now, pg_last_level = Uncertain,
     pg_since = now, pg_release_ms = 30, pg_press_ms = (if long_hold then 5000 else 30),
     pg_long_hold = long_hold\<rparr>"

definition gate_poll ::
  "presence_gate \<Rightarrow> level option \<times> u64 \<times> bool \<Rightarrow> (bool option \<times> presence_gate) option" where
  "gate_poll g input = (case input of (sample, now, cancelled) \<Rightarrow>
     if cancelled \<or> now < pg_last_poll g \<or> pg_deadline g \<le> now \<or> pg_phase g = GP_Finished
     then Some (Some False, g\<lparr>pg_phase := GP_Finished\<rparr>)
     else
       let g = g\<lparr>pg_last_poll := now\<rparr> in
       (case sample of
          None \<Rightarrow> Some (None, g)
        | Some level \<Rightarrow>
            if level = Fault then Some (Some False, g\<lparr>pg_phase := GP_Finished\<rparr>)
            else
              let g = (if level \<noteq> pg_last_level g
                       then g\<lparr>pg_last_level := level, pg_since := now\<rparr> else g) in
              if level = Uncertain then
                Some (None, if pg_phase g = GP_FinalRelease
                            then g\<lparr>pg_phase := GP_InitialRelease\<rparr> else g)
              else (case checked_sub now (pg_since g) of
                  None \<Rightarrow> None
                | Some stable_ms \<Rightarrow>
                    Some (if pg_phase g = GP_InitialRelease \<and> level = Released \<and> pg_release_ms g \<le> stable_ms
                          then (None, g\<lparr>pg_phase := GP_AwaitPress\<rparr>)
                          else if pg_phase g = GP_AwaitPress \<and> level = Pressed \<and> pg_press_ms g \<le> stable_ms
                          then (if pg_long_hold g then (None, g\<lparr>pg_phase := GP_FinalRelease\<rparr>)
                                else (Some True, g\<lparr>pg_phase := GP_Finished\<rparr>))
                          else if pg_phase g = GP_FinalRelease \<and> level = Released \<and> pg_release_ms g \<le> stable_ms
                          then (Some True, g\<lparr>pg_phase := GP_Finished\<rparr>)
                          else (None, g)))))"

section \<open>The maintenance gesture\<close>

definition DEBOUNCE_MS :: u64 where "DEBOUNCE_MS = 25"
definition HOLD_MS :: u64 where "HOLD_MS = 5000"
definition TIMEOUT_MS :: u64 where "TIMEOUT_MS = 30000"

datatype maintenance_state = MS_InitialRelease | MS_AwaitPress | MS_Holding | MS_FinalRelease | MS_Finished

record maintenance_presence =
  mpr_state :: maintenance_state
  mpr_started :: u64
  mpr_changed :: u64
  mpr_last_pressed :: bool

definition maintenance_new :: "bool \<Rightarrow> u64 \<Rightarrow> maintenance_presence" where
  "maintenance_new pressed now_ms = \<lparr>mpr_state = MS_InitialRelease, mpr_started = now_ms,
     mpr_changed = now_ms, mpr_last_pressed = pressed\<rparr>"

definition maintenance_poll ::
  "maintenance_presence \<Rightarrow> bool \<times> u64 \<times> bool \<Rightarrow> (bool option \<times> maintenance_presence) option" where
  "maintenance_poll p input = (case input of (pressed, now_ms, cancelled) \<Rightarrow>
     if cancelled \<or> now_ms < mpr_changed p \<or> TIMEOUT_MS \<le> saturating_sub now_ms (mpr_started p)
        \<or> mpr_state p = MS_Finished
     then Some (Some False, p\<lparr>mpr_state := MS_Finished\<rparr>)
     else
       let p = (if pressed \<noteq> mpr_last_pressed p
                then p\<lparr>mpr_last_pressed := pressed, mpr_changed := now_ms\<rparr> else p);
         stable_ms = saturating_sub now_ms (mpr_changed p)
       in Some (case mpr_state p of
            MS_InitialRelease \<Rightarrow>
              (None, if \<not> pressed \<and> DEBOUNCE_MS \<le> stable_ms then p\<lparr>mpr_state := MS_AwaitPress\<rparr> else p)
          | MS_AwaitPress \<Rightarrow>
              (None, if pressed \<and> DEBOUNCE_MS \<le> stable_ms then p\<lparr>mpr_state := MS_Holding\<rparr> else p)
          | MS_Holding \<Rightarrow>
              (None, if \<not> pressed then p\<lparr>mpr_state := MS_InitialRelease\<rparr>
                     else if HOLD_MS \<le> stable_ms then p\<lparr>mpr_state := MS_FinalRelease\<rparr> else p)
          | MS_FinalRelease \<Rightarrow>
              (if \<not> pressed \<and> DEBOUNCE_MS \<le> stable_ms then (Some True, p\<lparr>mpr_state := MS_Finished\<rparr>)
               else (None, p))
          | MS_Finished \<Rightarrow> (None, p)))"

section \<open>The provisioning gesture\<close>

record provisioning_gesture =
  pv_required_hold_ms :: u64
  pv_release_seen :: bool
  pv_pressed_since_ms :: "u64 option"

definition provisioning_new :: "u64 \<Rightarrow> provisioning_gesture" where
  "provisioning_new required_hold_ms = \<lparr>pv_required_hold_ms = required_hold_ms,
     pv_release_seen = False, pv_pressed_since_ms = None\<rparr>"

definition provisioning_sample ::
  "provisioning_gesture \<Rightarrow> bool \<times> u64 \<Rightarrow> bool \<times> provisioning_gesture" where
  "provisioning_sample g input = (case input of (pressed, now_ms) \<Rightarrow>
     if \<not> pressed then (False, g\<lparr>pv_release_seen := True, pv_pressed_since_ms := None\<rparr>)
     else if \<not> pv_release_seen g then (False, g)
     else
       let since = (case pv_pressed_since_ms g of None \<Rightarrow> now_ms | Some t \<Rightarrow> t) in
       (pv_required_hold_ms g \<le> saturating_sub now_ms since, g\<lparr>pv_pressed_since_ms := Some since\<rparr>))"

section \<open>The contract of a polled gesture\<close>

fun gesture_run ::
  "('s \<Rightarrow> 'i \<Rightarrow> (bool option \<times> 's) option) \<Rightarrow> 's \<Rightarrow> 'i list \<Rightarrow> (bool option list \<times> 's) option" where
  "gesture_run poll s [] = Some ([], s)"
| "gesture_run poll s (i # is) = (case poll s i of
     None \<Rightarrow> None
   | Some (r, s') \<Rightarrow> (case gesture_run poll s' is of
       None \<Rightarrow> None
     | Some (rs, s'') \<Rightarrow> Some (r # rs, s'')))"

text \<open>\<open>consumed rs\<close>: a run of waiting polls, then at most one verdict, then only refusals.\<close>

definition consumed :: "bool option list \<Rightarrow> bool" where
  "consumed rs \<longleftrightarrow> list_all (\<lambda>r. r = None) rs
     \<or> (\<exists>k b n. rs = replicate k None @ Some b # replicate n (Some False))"

locale one_shot_gesture =
  fixes poll :: "'s \<Rightarrow> 'i \<Rightarrow> (bool option \<times> 's) option" and finished :: "'s \<Rightarrow> bool" and inv :: "'s \<Rightarrow> bool"
  assumes poll_total: "inv s \<Longrightarrow> \<exists>r s'. poll s i = Some (r, s') \<and> inv s'"
    and finished_refuses: "finished s \<Longrightarrow> poll s i = Some (r, s') \<Longrightarrow> r = Some False \<and> finished s'"
    and verdict_finishes: "poll s i = Some (Some b, s') \<Longrightarrow> finished s'"
begin

lemma run_total: "inv s \<Longrightarrow> \<exists>rs s'. gesture_run poll s is = Some (rs, s') \<and> inv s' \<and> length rs = length is"
proof (induction "is" arbitrary: s)
  case (Cons i "is")
  obtain r s1 where "poll s i = Some (r, s1)" "inv s1" using poll_total [OF Cons.prems] by blast
  with Cons.IH [of s1] show ?case by auto
qed simp

lemma finished_run: "finished s \<Longrightarrow> gesture_run poll s is = Some (rs, s') \<Longrightarrow> rs = replicate (length is) (Some False)"
proof (induction "is" arbitrary: s rs)
  case (Cons i "is")
  then obtain r s1 rs1 where "poll s i = Some (r, s1)" "gesture_run poll s1 is = Some (rs1, s')" "rs = r # rs1"
    by (auto split: option.splits)
  moreover from finished_refuses [OF Cons.prems(1) this(1)] have "r = Some False" "finished s1" by simp_all
  ultimately show ?case using Cons.IH [of s1 rs1] by simp
qed simp

lemma run_consumed: "gesture_run poll s is = Some (rs, s') \<Longrightarrow> consumed rs"
proof (induction "is" arbitrary: s rs)
  case (Cons i "is")
  then obtain r s1 rs1 where p: "poll s i = Some (r, s1)" and q: "gesture_run poll s1 is = Some (rs1, s')"
    and rs: "rs = r # rs1"
    by (auto split: option.splits)
  show ?case
  proof (cases r)
    case None
    from Cons.IH [OF q] consider "list_all (\<lambda>r. r = None) rs1"
      | k b n where "rs1 = replicate k None @ Some b # replicate n (Some False)"
      unfolding consumed_def by blast
    then show ?thesis
    proof cases
      case 2
      then have "rs = replicate (Suc k) None @ Some b # replicate n (Some False)" by (simp add: rs None)
      then show ?thesis unfolding consumed_def by blast
    qed (simp add: consumed_def rs None)
  next
    case (Some b)
    then have "rs = replicate 0 None @ Some b # replicate (length is) (Some False)"
      using finished_run [OF verdict_finishes q] p rs by simp
    then show ?thesis unfolding consumed_def by blast
  qed
qed (simp add: consumed_def)

lemma one_approval:
  assumes "gesture_run poll s is = Some (rs, s')" and "i < j" and "j < length rs" and "rs ! i \<noteq> None"
  shows "rs ! j = Some False"
proof -
  obtain k b n where rs: "rs = replicate k None @ Some b # replicate n (Some False)"
    using run_consumed [OF assms(1)] assms(2-4) by (auto simp: consumed_def list_all_length)
  with assms(4) have "k \<le> i" by (auto simp: nth_append split: if_splits)
  with rs assms(2,3) show ?thesis by (auto simp: nth_append nth_Cons')
qed

end

definition gate_inv :: "presence_gate \<Rightarrow> bool" where
  "gate_inv g \<longleftrightarrow> pg_since g \<le> pg_last_poll g"

lemma gate_poll_total: "gate_inv g \<Longrightarrow> \<exists>r g'. gate_poll g e = Some (r, g') \<and> gate_inv g'"
  by (cases e) (auto simp: gate_inv_def gate_poll_def Let_def checked_sub_def split: option.splits)

interpretation gate: one_shot_gesture gate_poll "\<lambda>g. pg_phase g = GP_Finished" gate_inv
proof unfold_locales
  fix g g' e r assume "pg_phase g = GP_Finished" "gate_poll g e = Some (r, g')"
  then show "r = Some False \<and> pg_phase g' = GP_Finished" by (auto simp: gate_poll_def split: prod.splits)
next
  fix g g' e b assume "gate_poll g e = Some (Some b, g')"
  then show "pg_phase g' = GP_Finished"
    by (auto simp: gate_poll_def Let_def split: prod.splits option.splits if_splits)
qed (rule gate_poll_total)

interpretation maintenance: one_shot_gesture maintenance_poll "\<lambda>p. mpr_state p = MS_Finished" "\<lambda>_. True"
  by unfold_locales
    (auto simp: maintenance_poll_def Let_def split: prod.splits if_splits maintenance_state.splits)

section \<open>What an approval means\<close>

type_synonym 'l poll_event = "'l option \<times> u64 \<times> bool"

text \<open>
  \<open>running es L t\<close>: the last samples of \<open>es\<close> have been \<open>L\<close> without interruption since a sample
  at time \<open>t\<close>. \<open>stable_end es L k\<close>: \<open>es\<close> ends with such a run of at least \<open>k\<close> milliseconds.
\<close>

definition same_level :: "'l \<Rightarrow> 'l poll_event list \<Rightarrow> bool" where
  "same_level L es \<longleftrightarrow> list_all (\<lambda>e. fst e = None \<or> fst e = Some L) es"

definition running :: "'l poll_event list \<Rightarrow> 'l \<Rightarrow> u64 \<Rightarrow> bool" where
  "running es L t \<longleftrightarrow> (\<exists>pre mid. es = pre @ (Some L, t, False) # mid \<and> same_level L mid)"

definition stable_end :: "'l poll_event list \<Rightarrow> 'l \<Rightarrow> nat \<Rightarrow> bool" where
  "stable_end es L k \<longleftrightarrow> (\<exists>pre t mid t'. es = pre @ (Some L, t, False) # mid @ [(Some L, t', False)]
     \<and> same_level L mid \<and> unat t + k \<le> unat t')"

text \<open>
  The polls of an approved gesture: a release, the press, and for a long hold the final release
  with nothing uncertain in between.
\<close>

definition fresh_gesture :: "'l \<Rightarrow> 'l \<Rightarrow> nat \<Rightarrow> nat \<Rightarrow> bool \<Rightarrow> 'l set \<Rightarrow> 'l poll_event list \<Rightarrow> bool" where
  "fresh_gesture up down debounce hold final noise es \<longleftrightarrow> (\<exists>A B C. es = A @ B @ C
     \<and> stable_end A up debounce \<and> stable_end B down hold
     \<and> (if final then stable_end C up debounce \<and> (\<forall>e\<in>set C. \<forall>L\<in>noise. fst e \<noteq> Some L) else C = []))"

lemma running_snoc: "running es L t \<Longrightarrow> s = None \<or> s = Some L \<Longrightarrow> running (es @ [(s, t', c)]) L t"
  by (fastforce simp: running_def same_level_def)

lemma running_new: "running (es @ [(Some L, t, False)]) L t"
  unfolding running_def by (rule exI [of _ es], rule exI [of _ "[]"]) (simp add: same_level_def)

lemma stable_endI:
  assumes "running es L t" and "unat t + k \<le> unat t'"
  shows "stable_end (es @ [(Some L, t', False)]) L k"
proof -
  obtain pre mid where "es = pre @ (Some L, t, False) # mid" "same_level L mid"
    using assms(1) by (auto simp: running_def)
  with assms(2) show ?thesis
    unfolding stable_end_def by (intro exI [of _ pre] exI [of _ t] exI [of _ mid] exI [of _ t']) simp
qed

lemma stable_end_append: "stable_end B L k \<Longrightarrow> stable_end (A @ B) L k"
  unfolding stable_end_def by (metis append.assoc)

text \<open>A run of one level lies behind a run of another level.\<close>

lemma running_behind:
  assumes "running (A @ B) L t" and "stable_end A L' k" and "L \<noteq> L'"
  shows "running B L t"
proof -
  obtain pre mid where r: "A @ B = pre @ (Some L, t, False) # mid" "same_level L mid"
    using assms(1) by (auto simp: running_def)
  obtain A' t' where A: "A = A' @ [(Some L', t', False)]" using assms(2) by (auto simp: stable_end_def)
  consider us where "pre = A @ us" "B = us @ (Some L, t, False) # mid"
    | us where "A = pre @ us" "us @ B = (Some L, t, False) # mid"
    using r(1) by (auto simp: append_eq_append_conv2)
  then show ?thesis
  proof cases
    case 1
    with r(2) show ?thesis by (auto simp: running_def)
  next
    case 2
    show ?thesis
    proof (cases us)
      case Nil
      with 2 r(2) show ?thesis by (auto simp: running_def intro: exI [of _ "[]"])
    next
      case (Cons u vs)
      with 2 A have "(Some L', t', False) \<in> set ((Some L, t, False) # mid)"
        by (metis append_is_Nil_conv in_set_conv_decomp last_appendR last_in_set last_snoc list.distinct(1) Un_iff set_append)
      with assms(3) r(2) show ?thesis by (auto simp: same_level_def list_all_iff)
    qed
  qed
qed

definition orderly :: "u64 \<Rightarrow> u64 \<Rightarrow> 'l set \<Rightarrow> 'l poll_event list \<Rightarrow> bool" where
  "orderly start limit bad es \<longleftrightarrow> sorted (map (unat \<circ> fst \<circ> snd) es)
     \<and> list_all (\<lambda>(s, t, c). \<not> c \<and> start \<le> t \<and> t < limit \<and> (\<forall>L\<in>bad. s \<noteq> Some L)) es"

lemma orderly_snoc:
  assumes "orderly start limit bad es" and "\<forall>e\<in>set es. fst (snd e) \<le> prev" and "prev \<le> t" and "start \<le> t"
    and "t < limit" and "\<forall>L\<in>bad. s \<noteq> Some L"
  shows "orderly start limit bad (es @ [(s, t, False)])"
  using assms by (auto simp: orderly_def sorted_append word_le_nat_alt)

definition gate_history :: "u64 \<Rightarrow> u64 \<Rightarrow> bool \<Rightarrow> level poll_event list \<Rightarrow> presence_gate \<Rightarrow> bool" where
  "gate_history start timeout long es g \<longleftrightarrow>
     pg_deadline g = saturating_add start timeout \<and> pg_release_ms g = 30
     \<and> pg_press_ms g = (if long then 5000 else 30) \<and> pg_long_hold g = long
     \<and> pg_phase g \<noteq> GP_Finished \<and> start \<le> pg_last_poll g
     \<and> orderly start (saturating_add start timeout) {Fault} es
     \<and> (\<forall>e\<in>set es. fst (snd e) \<le> pg_last_poll g)
     \<and> (pg_last_level g \<noteq> Uncertain \<longrightarrow> running es (pg_last_level g) (pg_since g))
     \<and> (pg_phase g = GP_AwaitPress \<longrightarrow> (\<exists>A B. es = A @ B \<and> stable_end A Released 30))
     \<and> (pg_phase g = GP_FinalRelease \<longrightarrow> long \<and> (\<exists>A B C. es = A @ B @ C \<and> stable_end A Released 30
          \<and> stable_end B Pressed 5000 \<and> (\<forall>e\<in>set C. fst e \<noteq> Some Uncertain)))"

lemma gate_history_new: "gate_history start timeout long [] (gate_new start timeout long)"
  by (simp add: gate_history_def gate_new_def orderly_def)

text \<open>One poll that does not end the gesture, seen as three kinds of sample.\<close>

definition gate_sampled :: "presence_gate \<Rightarrow> level \<Rightarrow> u64 \<Rightarrow> presence_gate" where
  "gate_sampled g level now =
     (let g = g\<lparr>pg_last_poll := now\<rparr> in
      if level \<noteq> pg_last_level g then g\<lparr>pg_last_level := level, pg_since := now\<rparr> else g)"

lemma gate_sampled_running:
  assumes "gate_history start timeout long es g" and "level \<noteq> Uncertain"
  shows "pg_since (gate_sampled g level now) \<noteq> now \<Longrightarrow> running es level (pg_since (gate_sampled g level now))"
    and "running (es @ [(Some level, now, False)]) level (pg_since (gate_sampled g level now))"
proof -
  show "pg_since (gate_sampled g level now) \<noteq> now \<Longrightarrow> running es level (pg_since (gate_sampled g level now))"
    using assms by (auto simp: gate_sampled_def gate_history_def Let_def split: if_splits)
  show "running (es @ [(Some level, now, False)]) level (pg_since (gate_sampled g level now))"
    using assms running_new [of es level now]
    by (auto simp: gate_sampled_def gate_history_def Let_def intro: running_snoc)
qed

lemma stable_press:
  assumes "gate_history start timeout long es g" and "level \<noteq> Uncertain" and "0 < k"
    and "checked_sub now (pg_since (gate_sampled g level now)) = Some d" and "k \<le> unat d"
    and "es = A @ B" and "A \<noteq> [] \<Longrightarrow> stable_end A L' j" and "level \<noteq> L'"
  shows "stable_end (B @ [(Some level, now, False)]) level k"
proof -
  let ?t = "pg_since (gate_sampled g level now)"
  have d: "?t \<le> now" "unat d = unat now - unat ?t" using checked_sub_SomeD [OF assms(4)] by auto
  with assms(3,5) have "unat ?t + k \<le> unat now" "?t \<noteq> now" by (auto simp: word_le_nat_alt)
  moreover from this have "running es level ?t" using gate_sampled_running(1) [OF assms(1,2)] by blast
  then have "running B level ?t"
  proof (cases "A = []")
    case False
    show ?thesis
      by (rule running_behind [of A B level ?t L' j]) (use \<open>running es level ?t\<close> assms(6-8) False in simp_all)
  qed (use assms(6) in simp)
  ultimately show ?thesis by (intro stable_endI)
qed

lemma history_sample:
  assumes H: "gate_history start timeout long es g" and "pg_last_poll g \<le> now" and "now < pg_deadline g"
    and "s \<noteq> Some Fault" and "pg_phase g = GP_FinalRelease \<longrightarrow> s \<noteq> Some Uncertain"
  shows "gate_history start timeout long (es @ [(s, now, False)])
    (case s of None \<Rightarrow> g\<lparr>pg_last_poll := now\<rparr> | Some l \<Rightarrow> gate_sampled g l now)"
proof -
  let ?g = "case s of None \<Rightarrow> g\<lparr>pg_last_poll := now\<rparr> | Some l \<Rightarrow> gate_sampled g l now"
  let ?es = "es @ [(s, now, False)]"
  have same: "pg_deadline ?g = pg_deadline g" "pg_release_ms ?g = pg_release_ms g" "pg_press_ms ?g = pg_press_ms g"
    "pg_long_hold ?g = pg_long_hold g" "pg_phase ?g = pg_phase g" "pg_last_poll ?g = now"
    by (simp_all add: gate_sampled_def Let_def split: option.splits)
  have "orderly start (saturating_add start timeout) {Fault} ?es"
    using H assms(2-4) by (intro orderly_snoc [of _ _ _ _ "pg_last_poll g"]) (auto simp: gate_history_def)
  moreover have "pg_last_level ?g \<noteq> Uncertain \<longrightarrow> running ?es (pg_last_level ?g) (pg_since ?g)"
  proof (cases s)
    case None
    with H show ?thesis by (auto simp: gate_history_def intro: running_snoc)
  next
    case (Some l)
    then have "pg_last_level ?g = l" by (simp add: gate_sampled_def Let_def)
    with Some gate_sampled_running(2) [OF H, of l now] show ?thesis by auto
  qed
  moreover have "pg_phase g = GP_AwaitPress \<longrightarrow> (\<exists>A B. ?es = A @ B \<and> stable_end A Released 30)"
    using H by (fastforce simp: gate_history_def)
  moreover have "pg_phase g = GP_FinalRelease \<longrightarrow> long \<and> (\<exists>A B C. ?es = A @ B @ C \<and> stable_end A Released 30
      \<and> stable_end B Pressed 5000 \<and> (\<forall>e\<in>set C. fst e \<noteq> Some Uncertain))"
  proof
    assume ph: "pg_phase g = GP_FinalRelease"
    then obtain A B C where h: "long" "es = A @ B @ C" "stable_end A Released 30" "stable_end B Pressed 5000"
      "\<forall>e\<in>set C. fst e \<noteq> Some Uncertain"
      using H by (auto simp: gate_history_def)
    then have "?es = A @ B @ (C @ [(s, now, False)])" "\<forall>e\<in>set (C @ [(s, now, False)]). fst e \<noteq> Some Uncertain"
      using ph assms(5) by auto
    with h show "long \<and> (\<exists>A B C. ?es = A @ B @ C \<and> stable_end A Released 30
      \<and> stable_end B Pressed 5000 \<and> (\<forall>e\<in>set C. fst e \<noteq> Some Uncertain))" by blast
  qed
  ultimately show ?thesis
    using H assms(2,3) unfolding gate_history_def same by auto
qed

lemma history_phase:
  assumes "gate_history start timeout long es g"
  shows "gate_history start timeout long es (g\<lparr>pg_phase := GP_InitialRelease\<rparr>)"
    and "\<exists>A B. es = A @ B \<and> stable_end A Released 30 \<Longrightarrow>
      gate_history start timeout long es (g\<lparr>pg_phase := GP_AwaitPress\<rparr>)"
    and "long \<Longrightarrow> \<exists>A B C. es = A @ B @ C \<and> stable_end A Released 30 \<and> stable_end B Pressed 5000
        \<and> (\<forall>e\<in>set C. fst e \<noteq> Some Uncertain) \<Longrightarrow>
      gate_history start timeout long es (g\<lparr>pg_phase := GP_FinalRelease\<rparr>)"
  using assms unfolding gate_history_def by simp_all

lemma gate_sampled_phase:
  "gate_sampled (g\<lparr>pg_phase := p\<rparr>) l now = (gate_sampled g l now)\<lparr>pg_phase := p\<rparr>"
  by (cases g) (simp add: gate_sampled_def Let_def)

text \<open>The only transition out of the final release on noise is back to the start.\<close>

lemma history_noise:
  assumes "gate_history start timeout long es g" and "pg_last_poll g \<le> now" and "now < pg_deadline g"
  shows "gate_history start timeout long (es @ [(Some Uncertain, now, False)])
    ((if pg_phase g = GP_FinalRelease then (gate_sampled g Uncertain now)\<lparr>pg_phase := GP_InitialRelease\<rparr>
      else gate_sampled g Uncertain now))"
proof (cases "pg_phase g = GP_FinalRelease")
  case True
  have "gate_history start timeout long es (g\<lparr>pg_phase := GP_InitialRelease\<rparr>)" by (rule history_phase(1) [OF assms(1)])
  from history_sample [OF this, of now "Some Uncertain"] assms(2,3) True show ?thesis
    by (simp add: gate_sampled_phase)
next
  case False
  with history_sample [OF assms, of "Some Uncertain"] show ?thesis by simp
qed

lemma gate_poll_sampled:
  assumes "\<not> (c \<or> now < pg_last_poll g \<or> pg_deadline g \<le> now \<or> pg_phase g = GP_Finished)"
    and "l \<noteq> Fault" and "l \<noteq> Uncertain" and "h = gate_sampled g l now"
  shows "gate_poll g (Some l, now, c) = (case checked_sub now (pg_since h) of None \<Rightarrow> None | Some d \<Rightarrow>
      Some (if pg_phase g = GP_InitialRelease \<and> l = Released \<and> pg_release_ms g \<le> d
            then (None, h\<lparr>pg_phase := GP_AwaitPress\<rparr>)
            else if pg_phase g = GP_AwaitPress \<and> l = Pressed \<and> pg_press_ms g \<le> d
            then (if pg_long_hold g then (None, h\<lparr>pg_phase := GP_FinalRelease\<rparr>)
                  else (Some True, h\<lparr>pg_phase := GP_Finished\<rparr>))
            else if pg_phase g = GP_FinalRelease \<and> l = Released \<and> pg_release_ms g \<le> d
            then (Some True, h\<lparr>pg_phase := GP_Finished\<rparr>)
            else (None, h)))"
  using assms by (simp add: gate_poll_def gate_sampled_def Let_def split: option.splits)

text \<open>The poll that sees a steady level, by the phase it is in.\<close>

lemma gate_step_steady:
  assumes H: "gate_history start timeout long es g" and l: "l \<noteq> Fault" "l \<noteq> Uncertain"
    and t: "pg_last_poll g \<le> now" "now < pg_deadline g" and p: "gate_poll g (Some l, now, False) = Some (r, g')"
  shows "(r = None \<longrightarrow> gate_history start timeout long (es @ [(Some l, now, False)]) g')
    \<and> (r = Some True \<longrightarrow> fresh_gesture Released Pressed 30 (if long then 5000 else 30) long {Uncertain}
         (es @ [(Some l, now, False)]))"
proof -
  let ?e = "(Some l, now, False)" and ?g = "gate_sampled g l now"
  have ph: "pg_phase g \<noteq> GP_Finished" and ms: "pg_release_ms g = 30" "pg_press_ms g = (if long then 5000 else 30)"
    "pg_long_hold g = long" using H by (auto simp: gate_history_def)
  have sam: "gate_history start timeout long (es @ [?e]) ?g" using history_sample [OF H t, of "Some l"] l by simp
  have "\<not> (False \<or> now < pg_last_poll g \<or> pg_deadline g \<le> now \<or> pg_phase g = GP_Finished)" using t ph by auto
  note poll = p [unfolded gate_poll_sampled [OF this l refl]]
  obtain d where d: "checked_sub now (pg_since ?g) = Some d" using poll by (auto split: option.splits)
  note poll = poll [unfolded d option.case]
  note steady = stable_press [OF H l(2) _ d]
  consider (arm) "pg_phase g = GP_InitialRelease" "l = Released" "30 \<le> d"
    | (press) "pg_phase g = GP_AwaitPress" "l = Pressed" "pg_press_ms g \<le> d"
    | (final) "pg_phase g = GP_FinalRelease" "l = Released" "30 \<le> d"
    | (wait) "r = None" "g' = ?g"
    using poll t ph ms by (auto split: if_splits)
  then show ?thesis
  proof cases
    case arm
    have "stable_end (es @ [?e]) Released 30"
      using steady [of 30 "[]" es Pressed 0] arm by (simp add: word_le_nat_alt)
    moreover have "r = None" "g' = ?g\<lparr>pg_phase := GP_AwaitPress\<rparr>" using poll t ph ms arm by auto
    ultimately show ?thesis using history_phase(2) [OF sam] by (metis append_Nil2 option.distinct(1))
  next
    case press
    then obtain A B where AB: "es = A @ B" "stable_end A Released 30" using H by (auto simp: gate_history_def)
    have hold: "stable_end (B @ [?e]) Pressed (if long then 5000 else 30)"
      using steady [of "if long then 5000 else 30" A B Released 30] press AB ms
      by (simp add: word_le_nat_alt split: if_splits)
    show ?thesis
    proof (cases long)
      case True
      then have r: "r = None" "g' = ?g\<lparr>pg_phase := GP_FinalRelease\<rparr>" using poll t ph ms press by auto
      have "gate_history start timeout long (es @ [?e]) (?g\<lparr>pg_phase := GP_FinalRelease\<rparr>)"
        by (rule history_phase(3) [OF sam True], rule exI [of _ A], rule exI [of _ "B @ [?e]"], rule exI [of _ "[]"])
          (use AB hold True in simp)
      with r show ?thesis by simp
    next
      case False
      then have "r = Some True" using poll t ph ms press by auto
      moreover have "fresh_gesture Released Pressed 30 30 False {Uncertain} (es @ [?e])"
        unfolding fresh_gesture_def
        by (rule exI [of _ A], rule exI [of _ "B @ [?e]"], rule exI [of _ "[]"]) (use AB hold False in simp)
      ultimately show ?thesis using False by simp
    qed
  next
    case final
    then obtain A B C where h: "long" "es = A @ B @ C" "stable_end A Released 30" "stable_end B Pressed 5000"
      "\<forall>e\<in>set C. fst e \<noteq> Some Uncertain" using H by (auto simp: gate_history_def)
    from stable_end_append [OF h(4)] have "stable_end (C @ [?e]) Released 30"
      using steady [of 30 "A @ B" C Pressed 5000] final h(2) by (simp add: word_le_nat_alt)
    then have "fresh_gesture Released Pressed 30 5000 True {Uncertain} (es @ [?e])"
      unfolding fresh_gesture_def
      by (intro exI [of _ A] exI [of _ B] exI [of _ "C @ [?e]"]) (use h l in auto)
    moreover have "r = Some True" using poll t ph ms final by auto
    ultimately show ?thesis using h(1) by simp
  next
    case wait
    with sam show ?thesis by simp
  qed
qed

lemma gate_step:
  assumes H: "gate_history start timeout long es g" and p: "gate_poll g e = Some (r, g')"
    and r: "r \<noteq> Some False"
  shows "orderly start (saturating_add start timeout) {Fault} (es @ [e])
    \<and> (r = None \<longrightarrow> gate_history start timeout long (es @ [e]) g')
    \<and> (r = Some True \<longrightarrow> fresh_gesture Released Pressed 30 (if long then 5000 else 30) long {Uncertain} (es @ [e]))"
proof -
  obtain s now c where e: "e = (s, now, c)" by (cases e)
  have ok: "\<not> (c \<or> now < pg_last_poll g \<or> pg_deadline g \<le> now \<or> pg_phase g = GP_Finished)" and s: "s \<noteq> Some Fault"
    using p r by (auto simp: e gate_poll_def Let_def split: if_splits)
  then have e: "e = (s, now, False)" and t: "pg_last_poll g \<le> now" "now < pg_deadline g" using e by auto
  have "start \<le> now" using H t(1) by (auto simp: gate_history_def)
  then have ord: "orderly start (saturating_add start timeout) {Fault} (es @ [e])"
    unfolding e using H t s by (intro orderly_snoc [of _ _ _ _ "pg_last_poll g"]) (auto simp: gate_history_def)
  consider "s = None" | "s = Some Uncertain" | l where "s = Some l" "l \<noteq> Uncertain" by (cases s) auto
  then show ?thesis
  proof cases
    case 1
    then have "r = None" "g' = g\<lparr>pg_last_poll := now\<rparr>" using p ok by (auto simp: e gate_poll_def Let_def)
    with 1 ord history_sample [OF H t, of None] show ?thesis by (simp add: e)
  next
    case 2
    then have "r = None" "g' = (if pg_phase g = GP_FinalRelease then (gate_sampled g Uncertain now)\<lparr>pg_phase := GP_InitialRelease\<rparr>
      else gate_sampled g Uncertain now)"
      using p ok by (auto simp: e gate_poll_def gate_sampled_def Let_def)
    with 2 ord history_noise [OF H t] show ?thesis by (simp add: e)
  next
    case 3
    with ord s gate_step_steady [OF H _ 3(2) t, of r g'] p show ?thesis by (simp add: e)
  qed
qed

lemma gate_run_history:
  assumes "gate_history start timeout long es g"
    and "gesture_run gate_poll g evs = Some (rs, g')" and "rs ! n = Some True" and "n < length rs"
  shows "orderly start (saturating_add start timeout) {Fault} (es @ take (Suc n) evs)
    \<and> fresh_gesture Released Pressed 30 (if long then 5000 else 30) long {Uncertain} (es @ take (Suc n) evs)"
  using assms
proof (induction evs arbitrary: es g rs n)
  case (Cons e evs)
  then obtain r g1 rs1 where p: "gate_poll g e = Some (r, g1)" and q: "gesture_run gate_poll g1 evs = Some (rs1, g')"
    and rs: "rs = r # rs1" by (auto split: option.splits)
  show ?case
  proof (cases n)
    case 0
    with Cons.prems(3) rs have "r = Some True" by simp
    with gate_step [OF Cons.prems(1) p] 0 show ?thesis by simp
  next
    case (Suc k)
    have "r = None"
      using gate.one_approval [OF Cons.prems(2), of 0 n] Cons.prems(3,4) Suc rs by (cases r) auto
    with gate_step [OF Cons.prems(1) p] have "gate_history start timeout long (es @ [e]) g1" by simp
    from Cons.IH [OF this q, of k] Cons.prems(3,4) Suc rs show ?thesis by simp
  qed
qed simp

subsection \<open>The maintenance gesture\<close>

text \<open>The level at construction counts as the first sample.\<close>

definition maintenance_event :: "bool \<times> u64 \<times> bool \<Rightarrow> bool poll_event" where
  "maintenance_event e = (Some (fst e), snd e)"

definition maintenance_history :: "u64 \<Rightarrow> bool poll_event list \<Rightarrow> maintenance_presence \<Rightarrow> bool" where
  "maintenance_history start es p \<longleftrightarrow> mpr_started p = start \<and> mpr_state p \<noteq> MS_Finished
     \<and> running es (mpr_last_pressed p) (mpr_changed p)
     \<and> (mpr_state p = MS_AwaitPress \<longrightarrow> (\<exists>A B. es = A @ B \<and> stable_end A False 25))
     \<and> (mpr_state p = MS_Holding \<longrightarrow> mpr_last_pressed p \<and> (\<exists>A B. es = A @ B \<and> stable_end A False 25))
     \<and> (mpr_state p = MS_FinalRelease \<longrightarrow> (\<exists>A B C. es = A @ B @ C \<and> stable_end A False 25 \<and> stable_end B True 5000))"

lemma maintenance_history_new:
  "maintenance_history start [(Some pressed, start, False)] (maintenance_new pressed start)"
  using running_new [of "[]" pressed start] by (simp add: maintenance_history_def maintenance_new_def)

lemma maintenance_step:
  assumes H: "maintenance_history start es p" and m: "maintenance_poll p e = Some (r, p')" and r: "r \<noteq> Some False"
  shows "(r = None \<longrightarrow> maintenance_history start (es @ [maintenance_event e]) p')
    \<and> (r = Some True \<longrightarrow> fresh_gesture False True 25 5000 True {} (es @ [maintenance_event e])
         \<and> unat (fst (snd e)) - unat start < 30000)"
proof -
  obtain b now c where e: "e = (b, now, c)" by (cases e)
  have ok: "\<not> (c \<or> now < mpr_changed p \<or> TIMEOUT_MS \<le> saturating_sub now (mpr_started p) \<or> mpr_state p = MS_Finished)"
    using m r by (auto simp: e maintenance_poll_def split: if_splits)
  then have c: "c = False" and t: "mpr_changed p \<le> now" "mpr_state p \<noteq> MS_Finished" by auto
  let ?ev = "(Some b, now, False)"
  define q where "q = (if b \<noteq> mpr_last_pressed p then p\<lparr>mpr_last_pressed := b, mpr_changed := now\<rparr> else p)"
  have ev: "maintenance_event e = ?ev" by (simp add: e c maintenance_event_def)
  have q: "mpr_started q = start" "mpr_state q = mpr_state p" "mpr_last_pressed q = b"
    using H by (auto simp: q_def maintenance_history_def)
  have run: "running (es @ [?ev]) b (mpr_changed q)"
    using H running_new [of es b now] by (auto simp: q_def maintenance_history_def intro: running_snoc)
  have old: "mpr_changed q \<noteq> now \<Longrightarrow> running es b (mpr_changed q)"
    using H by (auto simp: q_def maintenance_history_def split: if_splits)
  have time: "unat now - unat start < 30000"
    using ok q(1) H by (auto simp: TIMEOUT_MS_def maintenance_history_def word_le_nat_alt unat_saturating_sub not_le)
  have steady: "stable_end (B @ [?ev]) b k"
    if "of_nat k \<le> saturating_sub now (mpr_changed q)" "0 < k" "k < 2 ^ 64" "es = A @ B"
      "A \<noteq> [] \<Longrightarrow> stable_end A (\<not> b) j" for k A B j
  proof -
    have "k \<le> unat now - unat (mpr_changed q)"
      using that(1,3) by (simp add: word_le_nat_alt unat_saturating_sub unat_of_nat take_bit_nat_eq_self)
    with that(2) have "unat (mpr_changed q) + k \<le> unat now" "mpr_changed q \<noteq> now" by auto
    moreover from old [OF this(2)] have "running B b (mpr_changed q)"
      using that(4,5) running_behind [of A B b "mpr_changed q" "\<not> b" j] by (cases "A = []") auto
    ultimately show ?thesis by (intro stable_endI)
  qed
  have poll: "Some (r, p') = Some (case mpr_state p of
      MS_InitialRelease \<Rightarrow> (None, if \<not> b \<and> 25 \<le> saturating_sub now (mpr_changed q) then q\<lparr>mpr_state := MS_AwaitPress\<rparr> else q)
    | MS_AwaitPress \<Rightarrow> (None, if b \<and> 25 \<le> saturating_sub now (mpr_changed q) then q\<lparr>mpr_state := MS_Holding\<rparr> else q)
    | MS_Holding \<Rightarrow> (None, if \<not> b then q\<lparr>mpr_state := MS_InitialRelease\<rparr>
         else if 5000 \<le> saturating_sub now (mpr_changed q) then q\<lparr>mpr_state := MS_FinalRelease\<rparr> else q)
    | MS_FinalRelease \<Rightarrow> (if \<not> b \<and> 25 \<le> saturating_sub now (mpr_changed q)
         then (Some True, q\<lparr>mpr_state := MS_Finished\<rparr>) else (None, q))
    | MS_Finished \<Rightarrow> (None, q))"
    by (rule m [unfolded e maintenance_poll_def prod.case if_not_P [OF ok], folded q_def,
          unfolded Let_def q(2) DEBOUNCE_MS_def HOLD_MS_def, symmetric])
  show ?thesis
  proof (cases "mpr_state p")
    case MS_InitialRelease
    have "stable_end (es @ [?ev]) False 25" if "\<not> b" "25 \<le> saturating_sub now (mpr_changed q)"
      using steady [of 25 "[]" es 0] that by simp
    with poll MS_InitialRelease q run show ?thesis
      by (auto simp: ev maintenance_history_def intro: exI [of _ "es @ [?ev]"] split: if_splits)
  next
    case MS_AwaitPress
    then have "\<exists>A B. es @ [?ev] = A @ B \<and> stable_end A False 25"
      using H by (fastforce simp: maintenance_history_def)
    with poll MS_AwaitPress q run show ?thesis by (auto simp: ev maintenance_history_def split: if_splits)
  next
    case MS_Holding
    then obtain A B where AB: "es = A @ B" "stable_end A False 25" using H by (auto simp: maintenance_history_def)
    have "stable_end (B @ [?ev]) True 5000" if "b" "5000 \<le> saturating_sub now (mpr_changed q)"
      using steady [of 5000 A B 25] that AB by simp
    then have "\<exists>A B C. es @ [?ev] = A @ B @ C \<and> stable_end A False 25 \<and> stable_end B True 5000"
      if "b" "5000 \<le> saturating_sub now (mpr_changed q)"
      using AB that by (metis append.assoc append_Nil2)
    moreover have "\<exists>A B. es @ [?ev] = A @ B \<and> stable_end A False 25" using AB by auto
    ultimately show ?thesis
      using poll MS_Holding q run by (auto simp: ev maintenance_history_def split: if_splits)
  next
    case MS_FinalRelease
    then obtain A B C where h: "es = A @ B @ C" "stable_end A False 25" "stable_end B True 5000"
      using H by (auto simp: maintenance_history_def)
    have "stable_end (C @ [?ev]) False 25" if "\<not> b" "25 \<le> saturating_sub now (mpr_changed q)"
      using steady [of 25 "A @ B" C 5000] that h(1) stable_end_append [OF h(3), of A] by simp
    then have "fresh_gesture False True 25 5000 True {} (es @ [?ev])"
      if "\<not> b" "25 \<le> saturating_sub now (mpr_changed q)"
      using h that unfolding fresh_gesture_def by (intro exI [of _ A] exI [of _ B] exI [of _ "C @ [?ev]"]) simp
    moreover have "\<exists>A B C. es @ [?ev] = A @ B @ C \<and> stable_end A False 25 \<and> stable_end B True 5000"
      using h by auto
    moreover have "unat (fst (snd e)) - unat start < 30000" using time by (simp add: e)
    ultimately show ?thesis
      using poll MS_FinalRelease q run by (auto simp: ev maintenance_history_def split: if_splits)
  qed (use t in simp)
qed

lemma maintenance_run_history:
  assumes "maintenance_history start es p"
    and "gesture_run maintenance_poll p evs = Some (rs, p')" and "rs ! n = Some True" and "n < length rs"
  shows "fresh_gesture False True 25 5000 True {} (es @ map maintenance_event (take (Suc n) evs))
    \<and> unat (fst (snd (evs ! n))) - unat start < 30000"
  using assms
proof (induction evs arbitrary: es p rs n)
  case (Cons e evs)
  then obtain r p1 rs1 where p: "maintenance_poll p e = Some (r, p1)"
    and q: "gesture_run maintenance_poll p1 evs = Some (rs1, p')" and rs: "rs = r # rs1" by (auto split: option.splits)
  show ?case
  proof (cases n)
    case 0
    with Cons.prems(3) rs have "r = Some True" by simp
    with maintenance_step [OF Cons.prems(1) p] 0 show ?thesis by simp
  next
    case (Suc k)
    have "r = None"
      using maintenance.one_approval [OF Cons.prems(2), of 0 n] Cons.prems(3,4) Suc rs by (cases r) auto
    with maintenance_step [OF Cons.prems(1) p] have "maintenance_history start (es @ [maintenance_event e]) p1" by simp
    from Cons.IH [OF this q, of k] Cons.prems(3,4) Suc rs show ?thesis by simp
  qed
qed simp

subsection \<open>The provisioning gesture\<close>

fun provisioning_run :: "provisioning_gesture \<Rightarrow> (bool \<times> u64) list \<Rightarrow> provisioning_gesture" where
  "provisioning_run g [] = g"
| "provisioning_run g (e # es) = provisioning_run (snd (provisioning_sample g e)) es"

text \<open>
  The specification reads the whole sequence of samples: the hold is the time from the first
  sample after the last release to now.
\<close>

definition held_since :: "(bool \<times> u64) list \<Rightarrow> u64 option" where
  "held_since es = (let hold = takeWhile fst (rev es) in
     if hold = [] \<or> length hold = length es then None else Some (snd (last hold)))"

definition provisioning_abs :: "u64 \<Rightarrow> (bool \<times> u64) list \<Rightarrow> provisioning_gesture" where
  "provisioning_abs required es = \<lparr>pv_required_hold_ms = required,
     pv_release_seen = list_ex (\<lambda>e. \<not> fst e) es, pv_pressed_since_ms = held_since es\<rparr>"

lemma takeWhile_all: "length (takeWhile P xs) = length xs \<longleftrightarrow> list_all P xs"
  by (induction xs) auto

lemma held_since_snoc:
  "held_since (es @ [(False, t)]) = None"
  "list_all fst es \<Longrightarrow> held_since es = None"
  "\<not> list_all fst es \<Longrightarrow> held_since (es @ [(True, t)]) = (case held_since es of None \<Rightarrow> Some t | Some u \<Rightarrow> Some u)"
  using takeWhile_all [of fst "rev es"]
  by (auto simp: held_since_def Let_def list_all_iff)

lemma provisioning_sample_abs:
  "provisioning_sample (provisioning_abs required es) e =
     ((case held_since (es @ [e]) of None \<Rightarrow> False | Some t \<Rightarrow> required \<le> saturating_sub (snd e) t),
      provisioning_abs required (es @ [e]))"
proof -
  obtain b t where e: "e = (b, t)" by (cases e)
  have seen: "list_ex (\<lambda>e. \<not> fst e) es \<longleftrightarrow> \<not> list_all fst es" by (auto simp: list_all_iff list_ex_iff)
  have "held_since (es @ [(True, t)]) = None \<and> held_since es = None" if "list_all fst es"
    using that held_since_snoc(2) [of es] held_since_snoc(2) [of "es @ [(True, t)]"] by simp
  then show ?thesis
    using held_since_snoc(1) [of es t] held_since_snoc(3) [of es t]
    by (auto simp: e provisioning_sample_def provisioning_abs_def seen Let_def split: option.splits)
qed

lemma provisioning_run_abs: "provisioning_run (provisioning_abs required pre) es = provisioning_abs required (pre @ es)"
  by (induction es arbitrary: pre) (simp_all add: provisioning_sample_abs)

lemma provisioning_new_abs: "provisioning_new required = provisioning_abs required []"
  by (simp add: provisioning_new_def provisioning_abs_def held_since_def)

section \<open>Properties\<close>

text \<open>
  C8. The presence gate approves only a fresh gesture. If the poll number \<open>n\<close> of a gate started
  at \<open>start\<close> approves, then no poll up to it was cancelled, faulty, out of order or past the
  deadline, and the polls contain an uninterrupted release of 30 ms, afterwards an
  uninterrupted press of 30 ms (5 s for a long hold) and, for a long hold, a final release of
  30 ms with no uncertain sample in between; every later poll refuses.
\<close>

theorem gate_approval_is_fresh:
  assumes "gesture_run gate_poll (gate_new start timeout long) evs = Some (rs, g)"
    and "n < length rs" and "rs ! n = Some True"
  shows "orderly start (saturating_add start timeout) {Fault} (take (Suc n) evs)
    \<and> fresh_gesture Released Pressed 30 (if long then 5000 else 30) long {Uncertain} (take (Suc n) evs)
    \<and> (\<forall>j. n < j \<longrightarrow> j < length rs \<longrightarrow> rs ! j = Some False)"
  using gate_run_history [OF gate_history_new assms(1,3,2)] gate.one_approval [OF assms(1)] assms(3) by auto

theorem gate_approval_is_fresh_witness:
  "fresh_gesture Released Pressed 30 30 False {Uncertain} (take 4
     [(Some Released, 0, False), (Some Released, 40, False), (Some Pressed, 100, False), (Some Pressed, 140, False)])"
proof -
  have "gesture_run gate_poll (gate_new 0 15000 False)
      [(Some Released, 0, False), (Some Released, 40, False), (Some Pressed, 100, False), (Some Pressed, 140, False)]
    = Some ([None, None, None, Some True], \<lparr>pg_phase = GP_Finished, pg_deadline = 15000, pg_last_poll = 140,
        pg_last_level = Pressed, pg_since = 100, pg_release_ms = 30, pg_press_ms = 30, pg_long_hold = False\<rparr>)"
    by (simp add: gate_new_def gate_poll_def checked_sub_def saturating_add_def)
  from gate_approval_is_fresh [OF this, of 3] show ?thesis by (simp add: numeral_eq_Suc)
qed

text \<open>
  A polled gesture never panics and is consumed by its first verdict. Whatever the samples,
  times and cancellations, a run of the presence gate and a run of the maintenance gesture
  return one result per poll: waiting polls, then at most one verdict, then only refusals.
\<close>

theorem gestures_are_one_shot:
  "(\<exists>rs g. gesture_run gate_poll (gate_new start timeout long) evs = Some (rs, g)
      \<and> length rs = length evs \<and> consumed rs)
   \<and> (\<exists>rs p. gesture_run maintenance_poll (maintenance_new pressed start) mevs = Some (rs, p)
      \<and> length rs = length mevs \<and> consumed rs)"
proof
  have "gate_inv (gate_new start timeout long)" by (simp add: gate_inv_def gate_new_def)
  from gate.run_total [OF this, of evs] gate.run_consumed
  show "\<exists>rs g. gesture_run gate_poll (gate_new start timeout long) evs = Some (rs, g)
      \<and> length rs = length evs \<and> consumed rs" by blast
  from maintenance.run_total [OF TrueI, of "maintenance_new pressed start" mevs] maintenance.run_consumed
  show "\<exists>rs p. gesture_run maintenance_poll (maintenance_new pressed start) mevs = Some (rs, p)
      \<and> length rs = length mevs \<and> consumed rs" by blast
qed

text \<open>
  The maintenance gesture approves only after a release, an uninterrupted hold of five
  seconds and a final release, all within thirty seconds of its start; the level at
  construction counts as the first sample.
\<close>

theorem maintenance_approval_is_fresh:
  assumes "gesture_run maintenance_poll (maintenance_new pressed start) evs = Some (rs, p)"
    and "n < length rs" and "rs ! n = Some True"
  shows "fresh_gesture False True 25 5000 True {}
      ((Some pressed, start, False) # map maintenance_event (take (Suc n) evs))
    \<and> unat (fst (snd (evs ! n))) - unat start < 30000"
  using maintenance_run_history [OF maintenance_history_new assms(1,3,2)] by simp

theorem maintenance_approval_is_fresh_witness:
  "fresh_gesture False True 25 5000 True {} ((Some False, 0, False) # map maintenance_event (take 6
     [(False, 25, False), (True, 100, False), (True, 125, False), (True, 5100, False), (False, 5101, False),
      (False, 5126, False)]))"
proof -
  have "gesture_run maintenance_poll (maintenance_new False 0)
      [(False, 25, False), (True, 100, False), (True, 125, False), (True, 5100, False), (False, 5101, False),
      (False, 5126, False)]
    = Some ([None, None, None, None, None, Some True], \<lparr>mpr_state = MS_Finished, mpr_started = 0,
        mpr_changed = 5101, mpr_last_pressed = False\<rparr>)"
    by (simp add: maintenance_new_def maintenance_poll_def saturating_sub_def TIMEOUT_MS_def DEBOUNCE_MS_def HOLD_MS_def)
  from maintenance_approval_is_fresh [OF this, of 5] show ?thesis by (simp add: numeral_eq_Suc)
qed

text \<open>
  The provisioning gesture refines its specification over the whole history: a sample
  confirms exactly when it ends an uninterrupted series of pressed samples that follows a
  released one, and the time since the first of them is at least the required hold.
\<close>

theorem provisioning_gesture_refines:
  "provisioning_sample (provisioning_run (provisioning_new required) es) e =
     ((case held_since (es @ [e]) of None \<Rightarrow> False | Some t \<Rightarrow> required \<le> saturating_sub (snd e) t),
      provisioning_run (provisioning_new required) (es @ [e]))"
  using provisioning_sample_abs [of required es e]
  by (simp only: provisioning_new_abs provisioning_run_abs append_Nil)

end
