(* ===== verification/User_Presence.thy ===== *)
theory User_Presence
  imports Presence
begin

text \<open>
  \<^verbatim>\<open>src/platform/s2_user_presence.rs\<close>: the button, the LED and the presence gate of the board,
  the blocking confirmation used by updates and maintenance, and the Trussed user interface. A
  reading is what one poll takes from the environment: the uptime in milliseconds and whether
  the button pin is low. The wait hook is the record of the methods of its trait; a hook that
  panics is \<open>None\<close>. The loop of \<open>confirm\<close> is driven by the list of readings its polls take, and
  a list that ends before a verdict leaves the loop waiting. The user interface status is the
  type of the Trussed crate, of which the code uses two values.
\<close>

section \<open>The user hardware\<close>

type_synonym reading = "u64 \<times> bool"

record user_hardware =
  uh_led :: bool
  uh_gate :: "presence_gate option"

record 'k wait_hook =
  wh_begin_wait :: "'k \<Rightarrow> 'k option"
  wh_poll_wait :: "'k \<Rightarrow> 'k option"
  wh_end_wait :: "'k \<Rightarrow> 'k option"
  wh_cancelled :: "'k \<Rightarrow> bool"

definition UPDATE_USER_PRESENCE_TIMEOUT_MS :: u32 where "UPDATE_USER_PRESENCE_TIMEOUT_MS = 15000"

definition hardware_new :: user_hardware where
  "hardware_new = \<lparr>uh_led = False, uh_gate = None\<rparr>"

definition hardware_begin :: "user_hardware \<Rightarrow> u64 \<Rightarrow> u64 \<Rightarrow> bool \<Rightarrow> user_hardware" where
  "hardware_begin hw now timeout_ms long_hold =
     hw\<lparr>uh_gate := Some (gate_new now timeout_ms long_hold), uh_led := True\<rparr>"

definition hardware_end :: "user_hardware \<Rightarrow> user_hardware" where
  "hardware_end hw = hw\<lparr>uh_gate := None, uh_led := False\<rparr>"

definition finish_request :: "user_hardware \<Rightarrow> user_hardware" where
  "finish_request = hardware_end"

definition sample_of :: "reading \<Rightarrow> level" where
  "sample_of reading = (if snd reading then Pressed else Released)"

definition hardware_poll :: "user_hardware \<Rightarrow> reading \<Rightarrow> bool \<Rightarrow> (bool option \<times> user_hardware) option" where
  "hardware_poll hw reading cancelled = (case uh_gate hw of
       None \<Rightarrow> Some (None, hw)
     | Some gate \<Rightarrow> (case gate_poll gate (Some (sample_of reading), fst reading, cancelled) of
         None \<Rightarrow> None
       | Some (result, gate) \<Rightarrow>
           Some (result, hw\<lparr>uh_gate := Some gate, uh_led := uh_led hw \<or> ready_for_action gate\<rparr>)))"

section \<open>Blocking confirmation\<close>

fun confirm_loop ::
  "'k wait_hook \<Rightarrow> user_hardware \<Rightarrow> 'k \<Rightarrow> reading list \<Rightarrow> (bool option \<times> user_hardware \<times> 'k) option" where
  "confirm_loop W hw k [] = Some (None, hw, k)"
| "confirm_loop W hw k (r # rs) = do {
     k \<leftarrow> wh_poll_wait W k;
     (result, hw) \<leftarrow> hardware_poll hw r (wh_cancelled W k);
     case result of
       Some b \<Rightarrow> Some (Some b, hw, k)
     | None \<Rightarrow> confirm_loop W hw k rs
   }"

definition confirm ::
  "'k wait_hook \<Rightarrow> user_hardware \<Rightarrow> 'k \<Rightarrow> u64 \<Rightarrow> bool \<Rightarrow> u64 \<Rightarrow> reading list \<Rightarrow>
   (bool option \<times> user_hardware \<times> 'k) option" where
  "confirm W hw k timeout_ms long_hold now readings = do {
     let hw = hardware_begin hw now timeout_ms long_hold;
     k \<leftarrow> wh_begin_wait W k;
     (result, hw, k) \<leftarrow> confirm_loop W hw k readings;
     case result of
       None \<Rightarrow> Some (None, hw, k)
     | Some confirmed \<Rightarrow> do {
         k \<leftarrow> wh_end_wait W k;
         Some (Some confirmed, hardware_end hw, k)
       }
   }"

definition confirm_update_user_presence ::
  "'k wait_hook \<Rightarrow> user_hardware \<Rightarrow> 'k \<Rightarrow> u64 \<Rightarrow> reading list \<Rightarrow> (bool option \<times> user_hardware \<times> 'k) option" where
  "confirm_update_user_presence W hw k =
     confirm W hw k (ucast UPDATE_USER_PRESENCE_TIMEOUT_MS) False"

definition confirm_maintenance_user_presence ::
  "'k wait_hook \<Rightarrow> user_hardware \<Rightarrow> 'k \<Rightarrow> u64 \<Rightarrow> reading list \<Rightarrow> (bool option \<times> user_hardware \<times> 'k) option" where
  "confirm_maintenance_user_presence W hw k = confirm W hw k 30000 True"

section \<open>The Trussed user interface\<close>

datatype consent_level = CL_None | CL_Normal | CL_Strong

definition check_user_presence ::
  "'s \<Rightarrow> 'k wait_hook option \<Rightarrow> 's \<Rightarrow> user_hardware \<Rightarrow> 'k \<Rightarrow> reading \<Rightarrow> (consent_level \<times> user_hardware) option" where
  "check_user_presence waiting hook status hw k reading =
     (if status \<noteq> waiting then Some (CL_None, hw)
      else
        let cancelled = (case hook of None \<Rightarrow> False | Some W \<Rightarrow> wh_cancelled W k) in
        map_option (\<lambda>(r, hw). (if r = Some True then CL_Normal else CL_None, hw)) (hardware_poll hw reading cancelled))"

definition set_status ::
  "'s \<Rightarrow> 'k wait_hook option \<Rightarrow> 's \<Rightarrow> user_hardware \<Rightarrow> 'k \<Rightarrow> u64 \<Rightarrow> 's \<Rightarrow> ('s \<times> user_hardware \<times> 'k) option" where
  "set_status waiting hook old hw k now status =
     (let was_waiting = (old = waiting); is_waiting = (status = waiting) in
      if is_waiting then
        (case hook of
           None \<Rightarrow> Some (status, hardware_begin hw now 30000 False, k)
         | Some W \<Rightarrow> map_option (\<lambda>k. (status, hardware_begin hw now 30000 False, k)) (wh_begin_wait W k))
      else if \<not> is_waiting \<and> was_waiting then
        (case hook of
           None \<Rightarrow> Some (status, hardware_end hw, k)
         | Some W \<Rightarrow> map_option (\<lambda>k. (status, hardware_end hw, k)) (wh_end_wait W k))
      else Some (status, hw, k))"

definition ui_status :: "'s \<Rightarrow> 's \<Rightarrow> user_hardware \<Rightarrow> 's" where
  "ui_status idle status hw = (if uh_gate hw = None then idle else status)"

definition refresh :: "'s \<Rightarrow> 'k wait_hook option \<Rightarrow> 's \<Rightarrow> 'k \<Rightarrow> 'k option" where
  "refresh waiting hook status k =
     (case hook of Some W \<Rightarrow> if status = waiting then wh_poll_wait W k else Some k | None \<Rightarrow> Some k)"

section \<open>Lemmas\<close>

text \<open>
  The polls of the loop, as the events the gate sees: the cancellation flag is the one of the
  hook after its own poll.
\<close>

fun hook_states :: "'k wait_hook \<Rightarrow> 'k \<Rightarrow> reading list \<Rightarrow> 'k list option" where
  "hook_states W k [] = Some []"
| "hook_states W k (r # rs) = do {
     k \<leftarrow> wh_poll_wait W k;
     ks \<leftarrow> hook_states W k rs;
     Some (k # ks)
   }"

definition poll_events :: "'k wait_hook \<Rightarrow> 'k list \<Rightarrow> reading list \<Rightarrow> level poll_event list" where
  "poll_events W ks rs = map (\<lambda>(k, r). (Some (sample_of r), fst r, wh_cancelled W k)) (zip ks rs)"

text \<open>
  What the code relies on of a hook: from a state of its invariant, its methods return, to a
  state of the invariant.
\<close>

locale waiting_hook =
  fixes W :: "'k wait_hook" and I :: "'k \<Rightarrow> bool"
  assumes begin_ok: "I k \<Longrightarrow> \<exists>k'. wh_begin_wait W k = Some k' \<and> I k'"
    and poll_ok: "I k \<Longrightarrow> \<exists>k'. wh_poll_wait W k = Some k' \<and> I k'"
    and end_ok: "I k \<Longrightarrow> \<exists>k'. wh_end_wait W k = Some k' \<and> I k'"
begin

lemma states_total: "I k \<Longrightarrow> \<exists>ks. hook_states W k rs = Some ks \<and> length ks = length rs"
proof (induction rs arbitrary: k)
  case (Cons r rs)
  obtain k1 where "wh_poll_wait W k = Some k1" "I k1" using poll_ok [OF Cons.prems] by blast
  with Cons.IH [of k1] show ?case by auto
qed simp

text \<open>The loop returns the first verdict of the gate on these events.\<close>

lemma confirm_loop_run:
  assumes "I k" and "uh_gate hw = Some g" and "gate_inv g"
    and "hook_states W k rs = Some ks" and "gesture_run gate_poll g (poll_events W ks rs) = Some (out, g')"
  shows "\<exists>hw' k'. confirm_loop W hw k rs = Some (
     (case dropWhile (\<lambda>r. r = None) out of [] \<Rightarrow> None | v # _ \<Rightarrow> v), hw', k') \<and> I k'"
  using assms
proof (induction rs arbitrary: hw k ks g out)
  case (Cons r rs)
  obtain k1 ks1 where k1: "wh_poll_wait W k = Some k1" "hook_states W k1 rs = Some ks1" "ks = k1 # ks1"
    using Cons.prems(4) by (auto split: bind_splits)
  have I1: "I k1" using poll_ok [OF Cons.prems(1)] k1(1) by auto
  let ?ev = "(Some (sample_of r), fst r, wh_cancelled W k1)"
  obtain v g1 where p: "gate_poll g ?ev = Some (v, g1)" and i: "gate_inv g1" using gate_poll_total [OF Cons.prems(3)] by blast
  obtain out1 where o: "gesture_run gate_poll g1 (poll_events W ks1 rs) = Some (out1, g')" "out = v # out1"
    using Cons.prems(5) p by (auto simp: k1(3) poll_events_def split: option.splits)
  let ?hw = "hw\<lparr>uh_gate := Some g1, uh_led := uh_led hw \<or> ready_for_action g1\<rparr>"
  have hp: "hardware_poll hw r (wh_cancelled W k1) = Some (v, ?hw)"
    using Cons.prems(2) p by (simp add: hardware_poll_def)
  show ?case
  proof (cases v)
    case None
    with Cons.IH [OF I1 _ i k1(2) o(1), of ?hw] k1(1) hp o(2) show ?thesis by simp
  qed (use k1(1) I1 hp o(2) in simp)
qed (simp add: poll_events_def)

end

lemma first_verdict:
  assumes "dropWhile (\<lambda>r. r = None) out = v # rest"
  shows "\<exists>n. n < length out \<and> out ! n = v \<and> v \<noteq> None"
proof -
  have "v \<noteq> None" using hd_dropWhile [of "\<lambda>r. r = None" out] assms by simp
  moreover have "v \<in> set (dropWhile (\<lambda>r. r = None) out)" using assms by simp
  then have "v \<in> set out" by (rule set_dropWhileD)
  ultimately show ?thesis by (auto simp: in_set_conv_nth)
qed

text \<open>A poll at or past the deadline ends every gesture.\<close>

lemma deadline_kept: "gate_poll g e = Some (r, g') \<Longrightarrow> pg_deadline g' = pg_deadline g"
  by (auto simp: gate_poll_def Let_def split: prod.splits option.splits if_splits)

lemma deadline_verdict:
  assumes "gesture_run gate_poll g evs = Some (out, g')" and "e \<in> set evs" and "pg_deadline g \<le> fst (snd e)"
  shows "\<exists>v\<in>set out. v \<noteq> None"
  using assms
proof (induction evs arbitrary: g out)
  case (Cons a evs)
  then obtain v g1 out1 where p: "gate_poll g a = Some (v, g1)" "gesture_run gate_poll g1 evs = Some (out1, g')"
    "out = v # out1" by (auto split: option.splits)
  show ?case
  proof (cases "a = e")
    case True
    with p Cons.prems(3) have "v = Some False" by (auto simp: gate_poll_def split: prod.splits)
    with p(3) show ?thesis by (intro bexI [of _ v]) simp_all
  next
    case False
    with Cons.IH [OF p(2)] Cons.prems(2,3) deadline_kept [OF p(1)] p(3) show ?thesis by auto
  qed
qed simp

context waiting_hook
begin

lemma confirm_spec:
  assumes I: "I k" and k0: "wh_begin_wait W k = Some k0" and ks: "hook_states W k0 readings = Some ks"
  shows "\<exists>out g v. gesture_run gate_poll (gate_new now timeout long) (poll_events W ks readings) = Some (out, g)
    \<and> v = (case dropWhile (\<lambda>r. r = None) out of [] \<Rightarrow> None | v # _ \<Rightarrow> v)
    \<and> (\<exists>hw' k'. confirm W hw k timeout long now readings = Some (v, hw', k')
        \<and> (v \<noteq> None \<longrightarrow> uh_gate hw' = None \<and> \<not> uh_led hw') \<and> I k')"
proof -
  have I0: "I k0" using begin_ok [OF I] k0 by auto
  let ?hw = "hardware_begin hw now timeout long" and ?g = "gate_new now timeout long"
  have g: "uh_gate ?hw = Some ?g" "gate_inv ?g" by (simp_all add: hardware_begin_def gate_inv_def gate_new_def)
  obtain out g' where run: "gesture_run gate_poll ?g (poll_events W ks readings) = Some (out, g')"
    using gate.run_total [OF g(2)] by blast
  let ?v = "case dropWhile (\<lambda>r. r = None) out of [] \<Rightarrow> None | v # _ \<Rightarrow> v"
  obtain hw1 k1 where loop: "confirm_loop W ?hw k0 readings = Some (?v, hw1, k1)" and I1: "I k1"
    using confirm_loop_run [OF I0 g ks run] by blast
  obtain k2 where "wh_end_wait W k1 = Some k2" "I k2" using end_ok [OF I1] by blast
  with loop k0 I1 have "\<exists>hw' k'. confirm W hw k timeout long now readings = Some (?v, hw', k')
        \<and> (?v \<noteq> None \<longrightarrow> uh_gate hw' = None \<and> \<not> uh_led hw') \<and> I k'"
    by (cases ?v) (simp_all add: confirm_def Let_def hardware_end_def)
  with run show ?thesis by blast
qed

lemma confirm_fresh:
  assumes "I k" and "confirm W hw k timeout_ms long_hold now readings = Some (Some True, hw', k')"
  shows "\<exists>k0 ks n. wh_begin_wait W k = Some k0 \<and> hook_states W k0 readings = Some ks
    \<and> orderly now (saturating_add now timeout_ms) {Fault} (take n (poll_events W ks readings))
    \<and> fresh_gesture Released Pressed 30 (if long_hold then 5000 else 30) long_hold {Uncertain}
        (take n (poll_events W ks readings))"
proof -
  obtain k0 where k0: "wh_begin_wait W k = Some k0" "I k0" using begin_ok [OF assms(1)] by blast
  obtain ks where ks: "hook_states W k0 readings = Some ks" using states_total [OF k0(2)] by blast
  obtain out g where run: "gesture_run gate_poll (gate_new now timeout_ms long_hold) (poll_events W ks readings) = Some (out, g)"
    and v: "Some True = (case dropWhile (\<lambda>r. r = None) out of [] \<Rightarrow> None | v # _ \<Rightarrow> v)"
    using confirm_spec [OF assms(1) k0(1) ks, of now timeout_ms long_hold hw] assms(2) by auto
  obtain n where "n < length out" "out ! n = Some True"
    using v first_verdict [of out] by (cases "dropWhile (\<lambda>r. r = None) out") auto
  with gate_run_history [OF gate_history_new run] k0(1) ks show ?thesis by fastforce
qed

end

text \<open>The polls of the user interface while it waits, each with the hook state it sees.\<close>

fun check_run ::
  "'s \<Rightarrow> 'k wait_hook option \<Rightarrow> user_hardware \<Rightarrow> ('k \<times> reading) list \<Rightarrow> (consent_level list \<times> user_hardware) option" where
  "check_run waiting hook hw [] = Some ([], hw)"
| "check_run waiting hook hw (kr # krs) = do {
     (c, hw) \<leftarrow> check_user_presence waiting hook waiting hw (fst kr) (snd kr);
     (cs, hw) \<leftarrow> check_run waiting hook hw krs;
     Some (c # cs, hw)
   }"

definition check_events :: "'k wait_hook option \<Rightarrow> ('k \<times> reading) list \<Rightarrow> level poll_event list" where
  "check_events hook = map (\<lambda>(k, r). (Some (sample_of r), fst r,
     case hook of None \<Rightarrow> False | Some W \<Rightarrow> wh_cancelled W k))"

lemma check_run_gate:
  assumes "uh_gate hw = Some g" and "gate_inv g"
  shows "\<exists>out g' hw'. gesture_run gate_poll g (check_events hook krs) = Some (out, g')
    \<and> check_run waiting hook hw krs = Some (map (\<lambda>r. if r = Some True then CL_Normal else CL_None) out, hw')"
  using assms
proof (induction krs arbitrary: hw g)
  case (Cons kr krs)
  obtain k r where kr: "kr = (k, r)" by (cases kr)
  let ?ev = "(Some (sample_of r), fst r, case hook of None \<Rightarrow> False | Some W \<Rightarrow> wh_cancelled W k)"
  obtain v g1 where p: "gate_poll g ?ev = Some (v, g1)" "gate_inv g1" using gate_poll_total [OF Cons.prems(2)] by blast
  let ?hw = "hw\<lparr>uh_gate := Some g1, uh_led := uh_led hw \<or> ready_for_action g1\<rparr>"
  have "check_user_presence waiting hook waiting hw k r = Some (if v = Some True then CL_Normal else CL_None, ?hw)"
    using Cons.prems(1) p(1) by (simp add: check_user_presence_def hardware_poll_def Let_def)
  with Cons.IH [of ?hw g1] p show ?case by (auto simp: check_events_def kr)
qed (simp add: check_events_def)

section \<open>Properties\<close>


text \<open>A hook that counts its polls and is never cancelled.\<close>

definition counting_hook :: "nat wait_hook" where
  "counting_hook = \<lparr>wh_begin_wait = \<lambda>k. Some 0, wh_poll_wait = \<lambda>k. Some (k + 1), wh_end_wait = Some,
     wh_cancelled = \<lambda>k. False\<rparr>"

interpretation counting: waiting_hook counting_hook "\<lambda>_. True"
  by unfold_locales (simp_all add: counting_hook_def)

lemmas evaluate_confirm = confirm_def hardware_begin_def hardware_end_def hardware_poll_def hardware_new_def
  sample_of_def gate_new_def gate_poll_def checked_sub_def saturating_add_def counting_hook_def ready_for_action_def


text \<open>
  C33. A confirmation ends. With a hook whose methods return, as soon as one of the readings the
  loop takes is at or past the deadline, \<open>confirm\<close> has returned a verdict, the gesture is
  discarded and the LED is off.
\<close>

theorem confirmation_ends:
  assumes "waiting_hook W I" and "I k" and "\<exists>r\<in>set readings. saturating_add now timeout_ms \<le> fst r"
  shows "\<exists>b hw' k'. confirm W hw k timeout_ms long_hold now readings = Some (Some b, hw', k')
    \<and> uh_gate hw' = None \<and> \<not> uh_led hw'"
proof -
  obtain k0 where k0: "wh_begin_wait W k = Some k0" "I k0" using waiting_hook.begin_ok [OF assms(1,2)] by blast
  obtain ks where ks: "hook_states W k0 readings = Some ks" "length ks = length readings"
    using waiting_hook.states_total [OF assms(1) k0(2)] by blast
  obtain r where r: "r \<in> set readings" "saturating_add now timeout_ms \<le> fst r" using assms(3) by blast
  then obtain i where i: "i < length readings" "readings ! i = r" by (auto simp: in_set_conv_nth)
  let ?e = "(Some (sample_of r), fst r, wh_cancelled W (ks ! i))"
  have e: "?e \<in> set (poll_events W ks readings)"
    using i ks(2) by (force simp: poll_events_def in_set_conv_nth)
  obtain out g hw' k' where run: "gesture_run gate_poll (gate_new now timeout_ms long_hold) (poll_events W ks readings) = Some (out, g)"
    and c: "confirm W hw k timeout_ms long_hold now readings
        = Some ((case dropWhile (\<lambda>r. r = None) out of [] \<Rightarrow> None | v # _ \<Rightarrow> v), hw', k')"
      "(case dropWhile (\<lambda>r. r = None) out of [] \<Rightarrow> None | v # _ \<Rightarrow> v) \<noteq> None \<longrightarrow> uh_gate hw' = None \<and> \<not> uh_led hw'"
    using waiting_hook.confirm_spec [OF assms(1,2) k0(1) ks(1), of now timeout_ms long_hold hw] by auto
  have "\<exists>v\<in>set out. v \<noteq> None" using deadline_verdict [OF run e] r(2) by (simp add: gate_new_def)
  then obtain v rest where d: "dropWhile (\<lambda>r. r = None) out = v # rest"
    by (cases "dropWhile (\<lambda>r. r = None) out") (auto simp: dropWhile_eq_Nil_conv)
  then obtain b where "v = Some b" using first_verdict [OF d] by auto
  with c d show ?thesis by simp
qed

theorem confirmation_ends_witness:
  "\<exists>b hw' k'. confirm counting_hook hardware_new 0 15000 False 0 [(0, True), (20000, True)] = Some (Some b, hw', k')
    \<and> uh_gate hw' = None \<and> \<not> uh_led hw'"
  by (rule confirmation_ends [OF counting.waiting_hook_axioms TrueI]) (simp add: saturating_add_def)

text \<open>
  Consent given to the authenticator comes from a fresh gesture of its own wait. After the
  interface is set to wait at time \<open>now\<close>, its checks never panic, a check reports presence only
  when the checks made so far contain a release of 30 ms and then a press of 30 ms, none
  cancelled and all within thirty seconds, and no other check of that wait reports presence.
\<close>

theorem consent_is_fresh_and_single:
  assumes "set_status waiting hook old hw k now waiting = Some (status, hw1, k1)"
  shows "\<exists>cs hw2. check_run waiting hook hw1 krs = Some (cs, hw2) \<and> length cs = length krs
    \<and> (\<forall>n < length cs. cs ! n = CL_Normal \<longrightarrow>
        orderly now (saturating_add now 30000) {Fault} (take (Suc n) (check_events hook krs))
        \<and> fresh_gesture Released Pressed 30 30 False {Uncertain} (take (Suc n) (check_events hook krs))
        \<and> (\<forall>j < length cs. j \<noteq> n \<longrightarrow> cs ! j = CL_None))"
proof -
  let ?g = "gate_new now 30000 False"
  have g: "uh_gate hw1 = Some ?g" "gate_inv ?g"
    using assms by (auto simp: set_status_def hardware_begin_def gate_inv_def gate_new_def split: option.splits)
  obtain out g' hw2 where run: "gesture_run gate_poll ?g (check_events hook krs) = Some (out, g')"
    and cs: "check_run waiting hook hw1 krs = Some (map (\<lambda>r. if r = Some True then CL_Normal else CL_None) out, hw2)"
    using check_run_gate [OF g, of hook krs waiting] by blast
  have len: "length out = length krs" using gate.run_total [OF g(2), of "check_events hook krs"] run by (simp add: check_events_def)
  have "out ! j \<noteq> Some True" if "out ! n = Some True" "n < length out" "j < length out" "j \<noteq> n" for n j
    using that gate.one_approval [OF run, of n j] gate.one_approval [OF run, of j n] by (cases "n < j") auto
  with cs len gate_run_history [OF gate_history_new run] show ?thesis by (auto split: if_splits)
qed

theorem consent_is_fresh_and_single_witness:
  "fresh_gesture Released Pressed 30 30 False {Uncertain} (take 4 (check_events (None :: nat wait_hook option)
     [(0, 0, False), (0, 40, False), (0, 100, True), (0, 140, True)]))"
proof -
  have "set_status True (None :: nat wait_hook option) False hardware_new 0 0 True
      = Some (True, hardware_begin hardware_new 0 30000 False, 0)" by (simp add: set_status_def)
  from consent_is_fresh_and_single [OF this, of "[(0, 0, False), (0, 40, False), (0, 100, True), (0, 140, True)]"]
  obtain cs hw2 where run: "check_run True (None :: nat wait_hook option) (hardware_begin hardware_new 0 30000 False)
      [(0, 0, False), (0, 40, False), (0, 100, True), (0, 140, True)] = Some (cs, hw2)"
    and n: "\<And>n. n < length cs \<Longrightarrow> cs ! n = CL_Normal \<Longrightarrow> fresh_gesture Released Pressed 30 30 False {Uncertain}
      (take (Suc n) (check_events (None :: nat wait_hook option) [(0, 0, False), (0, 40, False), (0, 100, True), (0, 140, True)]))"
    by blast
  have "cs = [CL_None, CL_None, CL_None, CL_Normal]"
    using run by (simp add: check_user_presence_def evaluate_confirm)
  with n [of 3] show ?thesis by (simp add: numeral_eq_Suc)
qed

end
