(* ===== verification/Security_Epoch.thy ===== *)
theory Security_Epoch
  imports Salpa_Prelude
begin

text \<open>
  Raising the anti-rollback counter: \<^verbatim>\<open>src/platform/security_epoch.rs\<close> (the policy that turns
  an approved plan and an observed state into an exact set of fuse bits),
  \<^verbatim>\<open>src/platform/security_epoch_plan.rs\<close> (the fixed plan and its request binding),
  \<^verbatim>\<open>src/platform/security_epoch_transaction.rs\<close> (one programming attempt) and
  \<^verbatim>\<open>src/platform/s2_epoch_programmer.rs\<close> (its adapter to the ROM). Arrays are lists of their
  declared length. Every backend call of the transaction, the reads included, may change the
  state of the hardware; a failing assertion is \<open>None\<close>.
\<close>

unbundle bit_operations_syntax

section \<open>The policy\<close>

definition FIELD_WORD :: nat where "FIELD_WORD = 4"
definition FIELD_SHIFT :: nat where "FIELD_SHIFT = 11"
definition FIELD_MASK :: u32 where "FIELD_MASK = push_bit 11 0xffff"
definition SHARED_WRITE_DISABLE :: u32 where "SHARED_WRITE_DISABLE = push_bit 18 1"

record slot_evidence =
  se_signature_verified :: bool
  se_metadata_valid :: bool
  se_secure_version :: u32
  se_signed_content_digest :: bytes

record observed_state =
  ob_device_digest :: bytes
  ob_bootloader_digest :: bytes
  ob_trusted_root_digest :: bytes
  ob_block0 :: "u32 list"
  ob_running_slot :: u8
  ob_slots :: "slot_evidence list"

record approved_plan =
  ap_device_digest :: bytes
  ap_bootloader_digest :: bytes
  ap_trusted_root_digest :: bytes
  ap_expected_block0 :: "u32 list"
  ap_qualified_image_digests :: "bytes list"
  ap_target_epoch :: u8

datatype plan_error =
  PE_Identity | PE_Bootloader | PE_TrustRoot | PE_ChangedEfuses | PE_ProtectionDisabled | PE_WriteProtected
  | PE_EpochRange | PE_NoAdvance | PE_RunningSlot | PE_UnqualifiedSlot | PE_ChangedImage | PE_IncompatibleSlot
  | PE_Readback

record prepared_change =
  pc_before :: "u32 list"
  pc_after :: "u32 list"
  pc_delta :: u16
  pc_target_epoch :: u8

definition count_ones :: "'a::len word \<Rightarrow> nat" where
  "count_ones w = length (filter (bit w) [0..<LENGTH('a)])"

definition program_words :: "prepared_change \<Rightarrow> u32 list" where
  "program_words c = (replicate 8 0)[FIELD_WORD := push_bit FIELD_SHIFT (ucast (pc_delta c))]"

definition recheck_before :: "prepared_change \<Rightarrow> u32 list \<Rightarrow> plan_error + unit" where
  "recheck_before c block0 = (if block0 = pc_before c then Inr () else Inl PE_ChangedEfuses)"

definition verify_after :: "prepared_change \<Rightarrow> u32 list \<Rightarrow> plan_error + unit" where
  "verify_after c block0 = (if block0 = pc_after c then Inr () else Inl PE_Readback)"

definition secure_version_raw :: "u32 list \<Rightarrow> u16" where
  "secure_version_raw block0 = ucast (drop_bit FIELD_SHIFT (block0 ! FIELD_WORD AND FIELD_MASK))"

text \<open>The check of one slot, and the loop over both.\<close>

definition check_slot :: "u8 \<Rightarrow> bytes \<Rightarrow> slot_evidence \<Rightarrow> plan_error option" where
  "check_slot target digest slot =
     (if \<not> se_signature_verified slot \<or> \<not> se_metadata_valid slot then Some PE_UnqualifiedSlot
      else if se_secure_version slot < ucast target \<or> 16 < se_secure_version slot then Some PE_IncompatibleSlot
      else if se_signed_content_digest slot \<noteq> digest then Some PE_ChangedImage
      else None)"

fun check_slots :: "u8 \<Rightarrow> bytes list \<Rightarrow> nat \<Rightarrow> slot_evidence list \<Rightarrow> plan_error option" where
  "check_slots target digests i [] = None"
| "check_slots target digests i (slot # slots) = (case check_slot target (digests ! i) slot of
     Some e \<Rightarrow> Some e
   | None \<Rightarrow> check_slots target digests (i + 1) slots)"

text \<open>One step of the loop over the sixteen counter bits.\<close>

definition delta_step :: "u16 \<Rightarrow> nat \<Rightarrow> u16 \<times> nat \<Rightarrow> u16 \<times> nat" where
  "delta_step current b st = (case st of (delta, remaining) \<Rightarrow>
     let m = push_bit b 1 in
     if current AND m = 0 \<and> 0 < remaining then (delta OR m, remaining - 1) else (delta, remaining))"

definition counter_delta :: "u16 \<Rightarrow> nat \<Rightarrow> u16" where
  "counter_delta current remaining = fst (fold (delta_step current) [0..<16] (0, remaining))"

definition prepare :: "approved_plan \<Rightarrow> observed_state \<Rightarrow> plan_error + prepared_change" where
  "prepare plan observed =
     (if ap_device_digest plan \<noteq> ob_device_digest observed then Inl PE_Identity
      else if ap_bootloader_digest plan \<noteq> ob_bootloader_digest observed then Inl PE_Bootloader
      else if ap_trusted_root_digest plan \<noteq> ob_trusted_root_digest observed then Inl PE_TrustRoot
      else if ap_expected_block0 plan \<noteq> ob_block0 observed then Inl PE_ChangedEfuses
      else
        let secure_boot = (ob_block0 observed ! 3 AND push_bit 20 1 \<noteq> 0);
          flash_crypt_count = drop_bit 18 (ob_block0 observed ! 2) AND 7
        in
        if \<not> secure_boot \<or> count_ones flash_crypt_count mod 2 \<noteq> 1 then Inl PE_ProtectionDisabled
        else if ob_block0 observed ! 0 AND SHARED_WRITE_DISABLE \<noteq> 0 then Inl PE_WriteProtected
        else if 16 < ap_target_epoch plan then Inl PE_EpochRange
        else
          let current = secure_version_raw (ob_block0 observed); count = count_ones current in
          if unat (ap_target_epoch plan) \<le> count then Inl PE_NoAdvance
          else if 1 < ob_running_slot observed then Inl PE_RunningSlot
          else (case check_slots (ap_target_epoch plan) (ap_qualified_image_digests plan) 0 (ob_slots observed) of
              Some e \<Rightarrow> Inl e
            | None \<Rightarrow>
                let delta = counter_delta current (unat (ap_target_epoch plan) - count) in
                Inr \<lparr>pc_before = ob_block0 observed,
                  pc_after = (ob_block0 observed)[FIELD_WORD :=
                    ob_block0 observed ! FIELD_WORD OR push_bit FIELD_SHIFT (ucast delta)],
                  pc_delta = delta, pc_target_epoch = ap_target_epoch plan\<rparr>))"

section \<open>The plan of the maintenance image\<close>

definition PLAN_BYTES :: nat where "PLAN_BYTES = 164"
definition PLAN_MAGIC :: bytes where "PLAN_MAGIC = [0x52, 0x4b, 0x4d, 0x50, 0x4c, 0x41, 0x4e, 0x31]"

record maintenance_plan =
  mp_device_digest :: bytes
  mp_bootloader_digest :: bytes
  mp_trusted_root_digest :: bytes
  mp_expected_block0 :: "u32 list"
  mp_fallback_digest :: bytes
  mp_target_epoch :: u8
  mp_revision_major :: u8
  mp_revision_minor :: u8

definition requested_images :: "bytes \<Rightarrow> bytes \<Rightarrow> bytes list option option" where
  "requested_images request plan_digest =
     (if request = [0x13] then Some None
      else if length request \<noteq> 97 \<or> request ! 0 \<notin> {0x14, 0x15} \<or> take 32 (drop 1 request) \<noteq> plan_digest
      then None
      else Some (Some [take 32 (drop 33 request), take 32 (drop 65 request)]))"

definition plan_field :: "bytes \<Rightarrow> nat \<Rightarrow> bytes" where
  "plan_field bs a = take 32 (drop a bs)"

definition plan_decode :: "bytes \<Rightarrow> maintenance_plan option" where
  "plan_decode bs =
     (if length bs \<noteq> PLAN_BYTES \<or> take 8 bs \<noteq> PLAN_MAGIC \<or> bs ! 163 \<noteq> 0 then None
      else (case those (map from_le32 (chunks 4 (take 24 (drop 104 bs)))) of
         None \<Rightarrow> None
       | Some block0 \<Rightarrow>
           let plan = \<lparr>mp_device_digest = plan_field bs 8, mp_bootloader_digest = plan_field bs 40,
             mp_trusted_root_digest = plan_field bs 72, mp_expected_block0 = block0,
             mp_fallback_digest = plan_field bs 128, mp_target_epoch = bs ! 160,
             mp_revision_major = bs ! 161, mp_revision_minor = bs ! 162\<rparr>
           in
           if \<not> (1 \<le> mp_target_epoch plan \<and> mp_target_epoch plan \<le> 16)
              \<or> block0 ! 0 AND push_bit 18 1 \<noteq> 0
              \<or> unat (mp_target_epoch plan) \<le> count_ones (secure_version_raw block0)
              \<or> replicate 32 0 \<in> {mp_device_digest plan, mp_bootloader_digest plan,
                   mp_trusted_root_digest plan, mp_fallback_digest plan}
           then None else Some plan))"

section \<open>The transaction\<close>

record snapshot =
  sn_block0 :: "u32 list"
  sn_repeat_errors :: "u32 list"

record 'b epoch_backend =
  eb_apb_hz :: "'b \<Rightarrow> u32 \<times> 'b"
  eb_idle :: "'b \<Rightarrow> bool \<times> 'b"
  eb_set_timing :: "'b \<Rightarrow> bool \<times> 'b"
  eb_refresh :: "'b \<Rightarrow> bool \<times> 'b"
  eb_snapshot :: "'b \<Rightarrow> snapshot \<times> 'b"
  eb_clear_staging :: "'b \<Rightarrow> 'b"
  eb_staging :: "'b \<Rightarrow> u32 list \<times> 'b"
  eb_stage_counter :: "'b \<Rightarrow> u32 list \<Rightarrow> 'b option"
  eb_program_block0 :: "'b \<Rightarrow> bool \<times> 'b"

datatype transaction_error =
  TE_AlreadyAttempted | TE_Clock | TE_Busy | TE_Timing | TE_Refresh | TE_Coding | TE_State plan_error
  | TE_Staging | TE_Program

fun transaction_status_code :: "transaction_error \<Rightarrow> u8" where
  "transaction_status_code TE_AlreadyAttempted = 1"
| "transaction_status_code TE_Clock = 2"
| "transaction_status_code TE_Busy = 3"
| "transaction_status_code TE_Timing = 4"
| "transaction_status_code TE_Refresh = 5"
| "transaction_status_code TE_Coding = 6"
| "transaction_status_code (TE_State _) = 7"
| "transaction_status_code TE_Staging = 8"
| "transaction_status_code TE_Program = 9"

definition controller_commands_idle :: "('h \<Rightarrow> u32 \<times> 'h) \<Rightarrow> 'h \<Rightarrow> bool \<times> 'h" where
  "controller_commands_idle read_command h = (case read_command h of (a, h) \<Rightarrow>
     if a AND 3 = 0 then (case read_command h of (b, h) \<Rightarrow> (b AND 3 = 0, h)) else (False, h))"

definition check_before :: "prepared_change \<Rightarrow> snapshot \<Rightarrow> transaction_error option" where
  "check_before change s =
     (if sn_repeat_errors s \<noteq> replicate 5 0 then Some TE_Coding
      else (case recheck_before change (sn_block0 s) of Inl e \<Rightarrow> Some (TE_State e) | Inr _ \<Rightarrow> None))"

record 'b transaction =
  tr_backend :: 'b
  tr_attempted :: bool

definition transaction_new :: "'b \<Rightarrow> 'b transaction" where
  "transaction_new backend = \<lparr>tr_backend = backend, tr_attempted = False\<rparr>"

text \<open>The checks between staging and programming, and the steps from programming on.\<close>

definition check_staged ::
  "'b epoch_backend \<Rightarrow> prepared_change \<Rightarrow> u32 list \<Rightarrow> 'b \<Rightarrow> transaction_error option \<times> 'b" where
  "check_staged B change expected b = (case eb_staging B b of (st, b) \<Rightarrow>
     if st \<noteq> expected then (Some TE_Staging, b)
     else (case eb_idle B b of (idle, b) \<Rightarrow>
       if \<not> idle then (Some TE_Busy, b)
       else (case eb_snapshot B b of (s, b) \<Rightarrow> (check_before change s, b))))"

definition finish_attempt ::
  "'b epoch_backend \<Rightarrow> prepared_change \<Rightarrow> 'b \<Rightarrow> (transaction_error + unit) \<times> 'b" where
  "finish_attempt B change b =
     (case eb_program_block0 B b of (programmed, b) \<Rightarrow>
      case eb_staging B (eb_clear_staging B b) of (st, b) \<Rightarrow>
      case eb_refresh B b of (refreshed, b) \<Rightarrow>
      case eb_snapshot B b of (after, b) \<Rightarrow>
        (if st \<noteq> replicate 11 0 then Inl TE_Staging
         else if \<not> refreshed then Inl TE_Refresh
         else if sn_repeat_errors after \<noteq> replicate 5 0 then Inl TE_Coding
         else (case verify_after change (sn_block0 after) of
             Inl e \<Rightarrow> Inl (TE_State e)
           | Inr _ \<Rightarrow> if \<not> programmed then Inl TE_Program else Inr ()), b))"

definition stage_and_program ::
  "'b epoch_backend \<Rightarrow> prepared_change \<Rightarrow> 'b \<Rightarrow> ((transaction_error + unit) \<times> 'b) option" where
  "stage_and_program B change b =
     (case eb_staging B (eb_clear_staging B b) of (st, b) \<Rightarrow>
      if st \<noteq> replicate 11 0 then Some (Inl TE_Staging, b)
      else
        let words = program_words change; expected = words @ replicate 3 0 in
        (case eb_stage_counter B b words of
           None \<Rightarrow> None
         | Some b \<Rightarrow> (case check_staged B change expected b of
             (Some e, b) \<Rightarrow> Some (Inl e, eb_clear_staging B b)
           | (None, b) \<Rightarrow> Some (finish_attempt B change b))))"

definition attempt ::
  "'b epoch_backend \<Rightarrow> prepared_change \<Rightarrow> 'b transaction \<Rightarrow> ((transaction_error + unit) \<times> 'b transaction) option" where
  "attempt B change t =
     (if tr_attempted t then Some (Inl TE_AlreadyAttempted, t)
      else
        let done_with = (\<lambda>(r, b). (r, \<lparr>tr_backend = b, tr_attempted = True\<rparr>)) in
        map_option done_with
          (case eb_apb_hz B (tr_backend t) of (hz, b) \<Rightarrow>
           if hz \<noteq> 80000000 then Some (Inl TE_Clock, b)
           else case eb_idle B b of (idle, b) \<Rightarrow>
           if \<not> idle then Some (Inl TE_Busy, b)
           else case eb_set_timing B b of (timing, b) \<Rightarrow>
           if \<not> timing then Some (Inl TE_Timing, b)
           else case eb_refresh B b of (refreshed, b) \<Rightarrow>
           if \<not> refreshed then Some (Inl TE_Refresh, b)
           else case eb_snapshot B b of (s, b) \<Rightarrow>
           (case check_before change s of
              Some e \<Rightarrow> Some (Inl e, b)
            | None \<Rightarrow> stage_and_program B change b)))"

section \<open>The adapter to the ROM\<close>

definition EFUSE_ERROR_OFFSETS :: "nat list" where "EFUSE_ERROR_OFFSETS = [0x17c, 0x180, 0x184, 0x188, 0x190]"

record 'h efuse_rom =
  er_register :: "'h \<Rightarrow> nat \<Rightarrow> u32 \<times> 'h"
  er_write_register :: "'h \<Rightarrow> nat \<Rightarrow> u32 \<Rightarrow> 'h"
  er_set_timing :: "'h \<Rightarrow> u32 \<Rightarrow> u32 \<times> 'h"
  er_read :: "'h \<Rightarrow> u32 \<times> 'h"
  er_clear_program_registers :: "'h \<Rightarrow> 'h"
  er_program :: "'h \<Rightarrow> u32 \<Rightarrow> u32 \<times> 'h"
  er_apb_hz :: "'h \<Rightarrow> u32 \<times> 'h"

fun read_registers :: "'h efuse_rom \<Rightarrow> nat list \<Rightarrow> 'h \<Rightarrow> u32 list \<times> 'h" where
  "read_registers E [] h = ([], h)"
| "read_registers E (offset # rest) h = (case er_register E h offset of (w, h) \<Rightarrow>
     case read_registers E rest h of (ws, h) \<Rightarrow> (w # ws, h))"

definition efuse_snapshot :: "'h efuse_rom \<Rightarrow> 'h \<Rightarrow> snapshot \<times> 'h" where
  "efuse_snapshot E h =
     (case read_registers E (map (\<lambda>i. 0x2c + i * 4) [0..<6]) h of (block0, h) \<Rightarrow>
      case read_registers E EFUSE_ERROR_OFFSETS h of (errors, h) \<Rightarrow>
        (\<lparr>sn_block0 = block0, sn_repeat_errors = errors\<rparr>, h))"

definition rom_stage_counter :: "'h efuse_rom \<Rightarrow> 'h \<Rightarrow> u32 list \<Rightarrow> 'h option" where
  "rom_stage_counter E h words =
     (if list_all (\<lambda>(i, word). i = 4 \<or> word = 0) (enumerate 0 words) \<and> words ! 4 AND NOT (push_bit 11 0xffff) = 0
      then Some (er_write_register E h 0x10 (words ! 4)) else None)"

definition rom_backend :: "'h efuse_rom \<Rightarrow> 'h epoch_backend" where
  "rom_backend E = \<lparr>
     eb_apb_hz = er_apb_hz E,
     eb_idle = controller_commands_idle (\<lambda>h. er_register E h 0x1d4),
     eb_set_timing = (\<lambda>h. case er_apb_hz E h of (hz, h) \<Rightarrow> case er_set_timing E h hz of (r, h) \<Rightarrow> (r = 0, h)),
     eb_refresh = (\<lambda>h. case er_read E h of (r, h) \<Rightarrow> (r = 0, h)),
     eb_snapshot = efuse_snapshot E,
     eb_clear_staging = er_clear_program_registers E,
     eb_staging = read_registers E (map (\<lambda>i. i * 4) [0..<11]),
     eb_stage_counter = rom_stage_counter E,
     eb_program_block0 = (\<lambda>h. case er_program E h 0 of (r, h) \<Rightarrow> (r = 0, h))\<rparr>"

text \<open>The per-boot latch around the whole transaction.\<close>

definition programmer_attempt ::
  "'h efuse_rom \<Rightarrow> prepared_change \<Rightarrow> bool \<times> 'h \<Rightarrow> ((transaction_error + unit) \<times> bool \<times> 'h) option" where
  "programmer_attempt E change st = (case st of (attempted, h) \<Rightarrow>
     if attempted then Some (Inl TE_AlreadyAttempted, True, h)
     else map_option (\<lambda>(r, t). (r, True, tr_backend t)) (attempt (rom_backend E) change (transaction_new h)))"

section \<open>Lemmas on the policy\<close>

lemma count_ones_card: "count_ones w = card {n. bit w n}" for w :: "'a::len word"
proof -
  have "n < LENGTH('a)" if "bit w n" for n using that by (rule bit_imp_le_length)
  then have "{i. i < length [0..<LENGTH('a)] \<and> bit w ([0..<LENGTH('a)] ! i)} = {n. bit w n}" by auto
  then show ?thesis by (simp add: count_ones_def length_filter_conv_card)
qed

lemma finite_bits [simp]: "finite {n. bit (w :: 'a::len word) n}"
  by (rule finite_subset [of _ "{..<LENGTH('a)}"]) (auto dest: bit_imp_le_length)

lemma single_bit_clear: "b < 16 \<Longrightarrow> (w :: u16) AND push_bit b 1 = 0 \<longleftrightarrow> \<not> bit w b"
proof -
  assume b: "b < 16"
  have "bit (w AND push_bit b 1) n \<longleftrightarrow> n = b \<and> bit w b" for n
    using b unfolding bit_and_iff bit_push_bit_iff bit_1_iff by (auto dest: bit_imp_le_length)
  then show ?thesis by (metis (no_types, lifting) bit_word_eqI bit_0_eq bot_apply bot_bool_def)
qed

lemma fold_delta:
  assumes "k \<le> 16" and "fold (delta_step current) [0..<k] (0, rem) = (d, left)"
  shows "{n. bit d n} \<subseteq> {n. n < k \<and> \<not> bit current n} \<and> card {n. bit d n} + left = rem
    \<and> (left = 0 \<or> {n. bit d n} = {n. n < k \<and> \<not> bit current n})"
  using assms
proof (induction k arbitrary: d left)
  case (Suc k)
  obtain d1 l1 where f: "fold (delta_step current) [0..<k] (0, rem) = (d1, l1)" by (meson surj_pair)
  note IH = Suc.IH [OF _ f]
  have d: "delta_step current k (d1, l1) = (d, left)" using Suc.prems(2) f by simp
  have k: "k < 16" using Suc.prems(1) by simp
  show ?case
  proof (cases "\<not> bit current k \<and> 0 < l1")
    case True
    then have dl: "d = d1 OR push_bit k 1" "left = l1 - 1"
      using d k by (auto simp: delta_step_def Let_def single_bit_clear simp del: push_bit_of_1)
    have bits: "{n. bit d n} = insert k {n. bit d1 n}"
      using k unfolding dl bit_or_iff bit_push_bit_iff bit_1_iff by auto
    have "k \<notin> {n. bit d1 n}" using IH k by auto
    then have "card {n. bit d n} = Suc (card {n. bit d1 n})" by (simp add: bits)
    with IH True k bits dl(2) show ?thesis by (auto simp: less_Suc_eq)
  next
    case False
    then have "d = d1" "left = l1" using d k by (auto simp: delta_step_def Let_def single_bit_clear simp del: push_bit_of_1)
    with IH False k show ?thesis by (auto simp: less_Suc_eq)
  qed
qed (simp add: bot_fun_def)

lemma counter_delta_spec:
  assumes "count_ones current < target" and "target \<le> 16"
    and "d = counter_delta current (target - count_ones current)"
  shows "d AND current = 0" and "count_ones (current OR d) = target"
proof -
  obtain left where f: "fold (delta_step current) [0..<16] (0, target - count_ones current) = (d, left)"
    using assms(3) by (metis counter_delta_def prod.collapse)
  let ?C = "{n. bit current n}" and ?D = "{n. bit d n}"
  note spec = fold_delta [OF order_refl f]
  then have disj: "?C \<inter> ?D = {}" by auto
  show "d AND current = 0" using disj by (intro bit_word_eqI) (auto simp: bit_and_iff)
  have or: "{n. bit (current OR d) n} = ?C \<union> ?D" by (auto simp: bit_or_iff)
  have sum: "card (?C \<union> ?D) = card ?C + card ?D" using disj by (simp add: card_Un_disjoint)
  have "left = 0"
  proof (rule ccontr)
    assume "left \<noteq> 0"
    with spec have "?D = {n. n < 16 \<and> \<not> bit current n}" by auto
    moreover have "?C \<subseteq> {n. n < 16}" by (auto dest: bit_imp_le_length)
    ultimately have "?C \<union> ?D = {n. n < 16}" by auto
    then have "card ?C + card ?D = 16" using sum by simp
    moreover have "card ?D + left = target - card ?C" using spec by (simp add: count_ones_card)
    ultimately show False using \<open>left \<noteq> 0\<close> assms(1,2) unfolding count_ones_card by arith
  qed
  with spec sum or assms(1) show "count_ones (current OR d) = target" by (simp add: count_ones_card)
qed

lemma field_bits: "bit FIELD_MASK n \<longleftrightarrow> 11 \<le> n \<and> n < 27"
proof -
  have "(0xffff :: u32) = mask 16" by (simp add: mask_eq_exp_minus_1)
  then show ?thesis unfolding FIELD_MASK_def \<open>0xffff = mask 16\<close> bit_push_bit_iff bit_mask_iff by auto
qed

lemma raw_bits: "bit (secure_version_raw block0) n \<longleftrightarrow> n < 16 \<and> bit (block0 ! 4) (n + 11)"
  unfolding secure_version_raw_def FIELD_WORD_def FIELD_SHIFT_def
  by (auto simp: bit_ucast_iff bit_drop_bit_eq bit_and_iff field_bits add.commute)

lemma field_shift_bits: "bit (push_bit FIELD_SHIFT (ucast (d :: u16)) :: u32) n \<longleftrightarrow> 11 \<le> n \<and> n < 27 \<and> bit d (n - 11)"
  unfolding FIELD_SHIFT_def bit_push_bit_iff bit_ucast_iff by (auto dest: bit_imp_le_length)

lemma check_slots_two:
  "check_slots target [a, b] 0 [s, t] = None \<longleftrightarrow> check_slot target a s = None \<and> check_slot target b t = None"
  by (auto split: option.splits)

text \<open>What a prepared change is, given the state it was prepared from.\<close>

definition exact_change :: "u32 list \<Rightarrow> u8 \<Rightarrow> prepared_change \<Rightarrow> bool" where
  "exact_change block0 target c \<longleftrightarrow> pc_before c = block0 \<and> pc_target_epoch c = target
     \<and> pc_delta c AND secure_version_raw block0 = 0
     \<and> count_ones (secure_version_raw block0 OR pc_delta c) = unat target
     \<and> pc_after c = block0[4 := block0 ! 4 OR push_bit 11 (ucast (pc_delta c))]
     \<and> (length block0 = 6 \<longrightarrow> secure_version_raw (pc_after c) = secure_version_raw block0 OR pc_delta c)
     \<and> program_words c = [0, 0, 0, 0, push_bit 11 (ucast (pc_delta c)), 0, 0, 0]
     \<and> push_bit 11 (ucast (pc_delta c)) AND NOT FIELD_MASK = 0"

lemma unat_ucast_u8: "unat (ucast (w :: u8) :: u32) = unat w"
  using unsigned_less [of w, where 'a = nat] by (simp add: unsigned_ucast_eq take_bit_nat_eq_self)

lemma prepare_exact:
  assumes "prepare plan observed = Inr c"
  shows "exact_change (ob_block0 observed) (ap_target_epoch plan) c"
proof -
  let ?b = "ob_block0 observed" and ?t = "unat (ap_target_epoch plan)"
  have t: "?t \<le> 16" "count_ones (secure_version_raw ?b) < ?t"
    and c: "pc_before c = ?b" "pc_target_epoch c = ap_target_epoch plan"
      "pc_delta c = counter_delta (secure_version_raw ?b) (?t - count_ones (secure_version_raw ?b))"
      "pc_after c = ?b[4 := ?b ! 4 OR push_bit 11 (ucast (pc_delta c))]"
    using assms
    by (auto simp: prepare_def Let_def FIELD_WORD_def FIELD_SHIFT_def word_less_nat_alt not_less not_le
        split: if_splits option.splits)
  note spec = counter_delta_spec [OF t(2,1) c(3)]
  have "bit (push_bit FIELD_SHIFT (ucast (pc_delta c)) AND NOT FIELD_MASK :: u32) n = False" for n
    unfolding bit_and_iff bit_not_iff field_shift_bits field_bits by auto
  then have outside: "push_bit 11 (ucast (pc_delta c)) AND NOT FIELD_MASK = 0"
    by (intro bit_word_eqI) (simp add: FIELD_SHIFT_def)
  have "secure_version_raw (pc_after c) = secure_version_raw ?b OR pc_delta c" if "length ?b = 6"
    using that unfolding c(4) FIELD_SHIFT_def [symmetric]
    by (intro bit_word_eqI) (auto simp: raw_bits bit_or_iff field_shift_bits)
  with spec outside c show ?thesis
    by (simp add: exact_change_def program_words_def FIELD_WORD_def FIELD_SHIFT_def numeral_eq_Suc)
qed

section \<open>Lemmas on the plan\<close>

text \<open>The layout of the plan, as an encoder.\<close>

definition plan_bytes :: "maintenance_plan \<Rightarrow> bytes" where
  "plan_bytes p = PLAN_MAGIC @ mp_device_digest p @ mp_bootloader_digest p @ mp_trusted_root_digest p
     @ concat (map to_le32 (mp_expected_block0 p)) @ mp_fallback_digest p
     @ [mp_target_epoch p, mp_revision_major p, mp_revision_minor p, 0]"

definition plan_wf :: "maintenance_plan \<Rightarrow> bool" where
  "plan_wf p \<longleftrightarrow> length (mp_device_digest p) = 32 \<and> length (mp_bootloader_digest p) = 32
     \<and> length (mp_trusted_root_digest p) = 32 \<and> length (mp_fallback_digest p) = 32 \<and> length (mp_expected_block0 p) = 6
     \<and> 1 \<le> mp_target_epoch p \<and> mp_target_epoch p \<le> 16 \<and> mp_expected_block0 p ! 0 AND push_bit 18 1 = 0
     \<and> count_ones (secure_version_raw (mp_expected_block0 p)) < unat (mp_target_epoch p)
     \<and> replicate 32 0 \<notin> {mp_device_digest p, mp_bootloader_digest p, mp_trusted_root_digest p, mp_fallback_digest p}"

lemma chunks_concat: "0 < n \<Longrightarrow> list_all (\<lambda>x. length x = n) xss \<Longrightarrow> chunks n (concat xss) = xss"
proof (induction xss)
  case (Cons xs xss)
  then show ?case by (subst chunks.simps) auto
qed simp

lemma those_words: "those (map from_le32 cs) = Some ws \<longleftrightarrow> cs = map to_le32 ws"
proof (induction cs arbitrary: ws)
  case (Cons c cs)
  then show ?case
    by (cases ws) (auto simp: le32.dec_eq_Some_iff codec_simps le32.enc_inject split: option.splits)
qed auto

lemma drop_split: "drop a bs = take n (drop a bs) @ drop (a + n) bs"
  by (metis add.commute append_take_drop_id drop_drop)

lemma split_plan:
  assumes "length bs = 164"
  shows "bs = take 8 bs @ plan_field bs 8 @ plan_field bs 40 @ plan_field bs 72 @ take 24 (drop 104 bs)
    @ plan_field bs 128 @ [bs ! 160, bs ! 161, bs ! 162, bs ! 163]"
proof -
  have four: "drop 160 bs = [bs ! 160, bs ! 161, bs ! 162, bs ! 163]"
    using assms by (simp add: Cons_nth_drop_Suc [symmetric])
  have "bs = take 8 bs @ drop 8 bs" "drop 8 bs = take 32 (drop 8 bs) @ drop 40 bs"
    "drop 40 bs = take 32 (drop 40 bs) @ drop 72 bs" "drop 72 bs = take 32 (drop 72 bs) @ drop 104 bs"
    "drop 104 bs = take 24 (drop 104 bs) @ drop 128 bs" "drop 128 bs = take 32 (drop 128 bs) @ drop 160 bs"
    using drop_split [of 8 bs 32] drop_split [of 40 bs 32] drop_split [of 72 bs 32] drop_split [of 104 bs 24]
      drop_split [of 128 bs 32] by simp_all
  then show ?thesis unfolding plan_field_def using four by metis
qed

lemma plan_decode_iff: "plan_decode bs = Some p \<longleftrightarrow> bs = plan_bytes p \<and> plan_wf p"
proof
  assume d: "plan_decode bs = Some p"
  have len: "length bs = 164" and magic: "take 8 bs = PLAN_MAGIC" "bs ! 163 = 0"
    using d by (auto simp: plan_decode_def PLAN_BYTES_def split: if_splits)
  obtain block0 where b: "those (map from_le32 (chunks 4 (take 24 (drop 104 bs)))) = Some block0"
    using d by (auto simp: plan_decode_def Let_def split: if_splits option.splits)
  have c: "chunks 4 (take 24 (drop 104 bs)) = map to_le32 block0" using b by (simp add: those_words)
  have "length (chunks 4 (take 24 (drop 104 bs))) * 4 = 24"
    using length_chunks [of 4 "take 24 (drop 104 bs)"] len by simp
  then have six: "length block0 = 6" using c by simp
  have words: "take 24 (drop 104 bs) = concat (map to_le32 block0)"
    using concat_chunks [of 4 "take 24 (drop 104 bs)"] c by simp
  have p: "p = \<lparr>mp_device_digest = plan_field bs 8, mp_bootloader_digest = plan_field bs 40,
      mp_trusted_root_digest = plan_field bs 72, mp_expected_block0 = block0,
      mp_fallback_digest = plan_field bs 128, mp_target_epoch = bs ! 160,
      mp_revision_major = bs ! 161, mp_revision_minor = bs ! 162\<rparr>"
    and wf: "\<not> (\<not> (1 \<le> bs ! 160 \<and> bs ! 160 \<le> 16) \<or> block0 ! 0 AND push_bit 18 1 \<noteq> 0
      \<or> unat (bs ! 160) \<le> count_ones (secure_version_raw block0)
      \<or> replicate 32 0 \<in> {plan_field bs 8, plan_field bs 40, plan_field bs 72, plan_field bs 128})"
    using d b by (auto simp: plan_decode_def Let_def split: if_splits)
  have "length (plan_field bs 8) = 32" "length (plan_field bs 40) = 32" "length (plan_field bs 72) = 32"
    "length (plan_field bs 128) = 32" using len by (simp_all add: plan_field_def)
  with six wf have "plan_wf p" unfolding plan_wf_def p by (simp add: word_less_1 flip: not_less)
  moreover have "bs = plan_bytes p" using split_plan [OF len] magic words unfolding plan_bytes_def p by simp
  ultimately show "bs = plan_bytes p \<and> plan_wf p" by blast
next
  assume a: "bs = plan_bytes p \<and> plan_wf p"
  then have wf: "plan_wf p" and bs: "bs = plan_bytes p" by auto
  have l: "length PLAN_MAGIC = 8" "length (concat (map to_le32 (mp_expected_block0 p))) = 24"
    using wf by (simp_all add: PLAN_MAGIC_def plan_wf_def length_concat comp_def sum_list_triv)
  note lens = l wf [unfolded plan_wf_def]
  have fields: "length bs = 164" "take 8 bs = PLAN_MAGIC" "plan_field bs 8 = mp_device_digest p"
    "plan_field bs 40 = mp_bootloader_digest p" "plan_field bs 72 = mp_trusted_root_digest p"
    "take 24 (drop 104 bs) = concat (map to_le32 (mp_expected_block0 p))" "plan_field bs 128 = mp_fallback_digest p"
    "bs ! 160 = mp_target_epoch p" "bs ! 161 = mp_revision_major p" "bs ! 162 = mp_revision_minor p" "bs ! 163 = 0"
    using lens by (simp_all add: bs plan_bytes_def plan_field_def nth_append)
  have "chunks 4 (concat (map to_le32 (mp_expected_block0 p))) = map to_le32 (mp_expected_block0 p)"
    by (rule chunks_concat) (simp_all add: list_all_iff)
  then have "those (map from_le32 (chunks 4 (take 24 (drop 104 bs)))) = Some (mp_expected_block0 p)"
    unfolding fields those_words by simp
  with fields wf show "plan_decode bs = Some p"
    unfolding plan_decode_def PLAN_BYTES_def plan_wf_def by (simp add: word_less_1 flip: not_less)
qed

lemma requested_images_iff:
  assumes "length digest = 32"
  shows "requested_images request digest = Some (Some [a, b]) \<longleftrightarrow>
    (\<exists>cmd\<in>{0x14, 0x15}. request = cmd # digest @ a @ b) \<and> length a = 32 \<and> length b = 32"
proof
  assume r: "requested_images request digest = Some (Some [a, b])"
  then have len: "length request = 97" and cmd: "request ! 0 \<in> {0x14, 0x15}" and d: "take 32 (drop 1 request) = digest"
    and ab: "a = take 32 (drop 33 request)" "b = take 32 (drop 65 request)"
    by (auto simp: requested_images_def split: if_splits)
  have "request = request ! 0 # drop 1 request" using len by (metis Cons_nth_drop_Suc One_nat_def drop0 zero_less_numeral)
  moreover have "drop 1 request = digest @ a @ b"
    using drop_split [of 1 request 32] drop_split [of 33 request 32] len d ab by simp
  ultimately show "(\<exists>cmd\<in>{0x14, 0x15}. request = cmd # digest @ a @ b) \<and> length a = 32 \<and> length b = 32"
    using cmd len ab by auto
next
  assume "(\<exists>cmd\<in>{0x14, 0x15}. request = cmd # digest @ a @ b) \<and> length a = 32 \<and> length b = 32"
  then show "requested_images request digest = Some (Some [a, b])"
    using assms by (auto simp: requested_images_def numeral_eq_Suc)
qed

section \<open>Lemmas on the transaction\<close>

text \<open>
  The hardware contract. \<open>fuses\<close> is the physical BLOCK0, \<open>shadow\<close> its read registers and
  \<open>staged\<close> the programming registers. Fuses change only by programming, which may burn any
  subset of the staged bits; a successful refresh makes the read registers current.
\<close>

definition burns :: "u32 list \<Rightarrow> u32 list \<Rightarrow> u32 list \<Rightarrow> bool" where
  "burns st f g \<longleftrightarrow> length g = length f \<and> (\<forall>i < length f. \<exists>x. x AND NOT (st ! i) = 0 \<and> g ! i = f ! i OR x)"

definition fuse_law ::
  "'b epoch_backend \<Rightarrow> ('b \<Rightarrow> u32 list) \<Rightarrow> ('b \<Rightarrow> u32 list) \<Rightarrow> ('b \<Rightarrow> u32 list) \<Rightarrow> bool" where
  "fuse_law B fuses shadow staged \<longleftrightarrow> (\<forall>b.
     (\<forall>x b'. eb_apb_hz B b = (x, b') \<longrightarrow> fuses b' = fuses b)
     \<and> (\<forall>x b'. eb_idle B b = (x, b') \<longrightarrow> fuses b' = fuses b \<and> shadow b' = shadow b \<and> staged b' = staged b)
     \<and> (\<forall>x b'. eb_set_timing B b = (x, b') \<longrightarrow> fuses b' = fuses b)
     \<and> (\<forall>x b'. eb_refresh B b = (x, b') \<longrightarrow> fuses b' = fuses b \<and> (x \<longrightarrow> shadow b' = fuses b'))
     \<and> (\<forall>s b'. eb_snapshot B b = (s, b') \<longrightarrow> fuses b' = fuses b \<and> shadow b' = shadow b \<and> staged b' = staged b
          \<and> sn_block0 s = shadow b)
     \<and> fuses (eb_clear_staging B b) = fuses b \<and> shadow (eb_clear_staging B b) = shadow b
     \<and> (\<forall>st b'. eb_staging B b = (st, b') \<longrightarrow> fuses b' = fuses b \<and> shadow b' = shadow b \<and> staged b' = staged b
          \<and> st = staged b)
     \<and> (\<forall>ws b'. eb_stage_counter B b ws = Some b' \<longrightarrow> fuses b' = fuses b \<and> shadow b' = shadow b)
     \<and> (\<forall>x b'. eb_program_block0 B b = (x, b') \<longrightarrow> burns (staged b) (fuses b) (fuses b')))"

lemma fuse_lawD:
  assumes "fuse_law B fuses shadow staged"
  shows "eb_apb_hz B b = (hz, b') \<Longrightarrow> fuses b' = fuses b"
    and "eb_idle B b = (x, b') \<Longrightarrow> fuses b' = fuses b \<and> shadow b' = shadow b \<and> staged b' = staged b"
    and "eb_set_timing B b = (x, b') \<Longrightarrow> fuses b' = fuses b"
    and "eb_refresh B b = (x, b') \<Longrightarrow> fuses b' = fuses b \<and> (x \<longrightarrow> shadow b' = fuses b')"
    and "eb_snapshot B b = (s, b') \<Longrightarrow> fuses b' = fuses b \<and> shadow b' = shadow b \<and> staged b' = staged b
          \<and> sn_block0 s = shadow b"
    and "fuses (eb_clear_staging B b) = fuses b" and "shadow (eb_clear_staging B b) = shadow b"
    and "eb_staging B b = (st, b') \<Longrightarrow> fuses b' = fuses b \<and> shadow b' = shadow b \<and> staged b' = staged b \<and> st = staged b"
    and "eb_stage_counter B b ws = Some b' \<Longrightarrow> fuses b' = fuses b \<and> shadow b' = shadow b"
    and "eb_program_block0 B b = (x, b') \<Longrightarrow> burns (staged b) (fuses b) (fuses b')"
  using assms unfolding fuse_law_def by blast+

lemma check_before_None: "check_before c s = None \<longleftrightarrow> sn_repeat_errors s = replicate 5 0 \<and> sn_block0 s = pc_before c"
  by (simp add: check_before_def recheck_before_def)

lemma check_staged_law:
  assumes L: "fuse_law B fuses shadow staged" and "check_staged B c expected b = (e, b')"
  shows "fuses b' = fuses b" and "e = None \<Longrightarrow> staged b' = expected \<and> shadow b = pc_before c"
proof -
  obtain st b1 where 1: "eb_staging B b = (st, b1)" by (meson surj_pair)
  obtain x b2 where 2: "eb_idle B b1 = (x, b2)" by (meson surj_pair)
  obtain s b3 where 3: "eb_snapshot B b2 = (s, b3)" by (meson surj_pair)
  note laws = fuse_lawD(8) [OF L 1] fuse_lawD(2) [OF L 2] fuse_lawD(5) [OF L 3]
  have e: "(e, b') = (if st \<noteq> expected then (Some TE_Staging, b1) else if \<not> x then (Some TE_Busy, b2)
      else (check_before c s, b3))"
    using assms(2) 1 2 3 by (auto simp: check_staged_def)
  then show "fuses b' = fuses b" "e = None \<Longrightarrow> staged b' = expected \<and> shadow b = pc_before c"
    using laws by (auto simp: check_before_None eq_commute [of None "check_before c s"] split: if_splits)
qed

lemma finish_attempt_law:
  assumes L: "fuse_law B fuses shadow staged" and "finish_attempt B c b = (r, b')"
  shows "burns (staged b) (fuses b) (fuses b')" and "r = Inr () \<Longrightarrow> fuses b' = pc_after c"
proof -
  obtain x b1 where 1: "eb_program_block0 B b = (x, b1)" by (meson surj_pair)
  obtain st b2 where 2: "eb_staging B (eb_clear_staging B b1) = (st, b2)" by (meson surj_pair)
  obtain y b3 where 3: "eb_refresh B b2 = (y, b3)" by (meson surj_pair)
  obtain s b4 where 4: "eb_snapshot B b3 = (s, b4)" by (meson surj_pair)
  note laws = fuse_lawD(10) [OF L 1] fuse_lawD(8) [OF L 2] fuse_lawD(6,7) [OF L, of b1] fuse_lawD(4) [OF L 3] fuse_lawD(5) [OF L 4]
  have b': "b' = b4" and r: "r = Inr () \<Longrightarrow> y \<and> sn_block0 s = pc_after c"
    using assms(2) 1 2 3 4 by (auto simp: finish_attempt_def verify_after_def split: if_splits)
  show "burns (staged b) (fuses b) (fuses b')" using laws b' by simp
  show "r = Inr () \<Longrightarrow> fuses b' = pc_after c" using laws b' r by auto
qed

lemma burns_refl: "burns st f f"
  by (auto simp: burns_def intro!: exI [of _ 0])

lemma stage_and_program_law:
  assumes L: "fuse_law B fuses shadow staged" and "stage_and_program B c b = Some (r, b')"
    and fresh: "shadow b = fuses b"
  shows "fuses b' = fuses b \<or> fuses b = pc_before c \<and> burns (program_words c @ replicate 3 0) (fuses b) (fuses b')"
    and "r = Inr () \<Longrightarrow> fuses b' = pc_after c"
proof -
  obtain st b1 where 1: "eb_staging B (eb_clear_staging B b) = (st, b1)" by (meson surj_pair)
  have b1: "fuses b1 = fuses b" "shadow b1 = fuses b" using fuse_lawD(8) [OF L 1] fuse_lawD(6,7) [OF L] fresh by simp_all
  show "fuses b' = fuses b \<or> fuses b = pc_before c \<and> burns (program_words c @ replicate 3 0) (fuses b) (fuses b')"
    "r = Inr () \<Longrightarrow> fuses b' = pc_after c"
  proof (atomize (full), cases "st = replicate 11 0")
    case False
    with assms(2) 1 b1 show "(fuses b' = fuses b \<or> fuses b = pc_before c \<and> burns (program_words c @ replicate 3 0) (fuses b) (fuses b'))
      \<and> (r = Inr () \<longrightarrow> fuses b' = pc_after c)" by (auto simp: stage_and_program_def)
  next
    case True
    then obtain b2 where 2: "eb_stage_counter B b1 (program_words c) = Some b2"
      using assms(2) 1 by (auto simp: stage_and_program_def Let_def split: option.splits)
    obtain e b3 where 3: "check_staged B c (program_words c @ replicate 3 0) b2 = (e, b3)" by (meson surj_pair)
    note laws = fuse_lawD(9) [OF L 2] check_staged_law [OF L 3]
    show "(fuses b' = fuses b \<or> fuses b = pc_before c \<and> burns (program_words c @ replicate 3 0) (fuses b) (fuses b'))
      \<and> (r = Inr () \<longrightarrow> fuses b' = pc_after c)"
    proof (cases e)
      case None
      then have "finish_attempt B c b3 = (r, b')"
        using assms(2) 1 2 3 True by (auto simp: stage_and_program_def Let_def)
      from finish_attempt_law [OF L this] None laws b1 show ?thesis by auto
    next
      case (Some err)
      then have "r = Inl err" "b' = eb_clear_staging B b3"
        using assms(2) 1 2 3 True by (auto simp: stage_and_program_def Let_def)
      with laws b1 fuse_lawD(6) [OF L] show ?thesis by simp
    qed
  qed
qed

lemma attempt_law:
  assumes L: "fuse_law B fuses shadow staged" and "attempt B c t = Some (r, t')"
  shows "tr_attempted t'"
    and "fuses (tr_backend t') = fuses (tr_backend t)
      \<or> fuses (tr_backend t) = pc_before c
        \<and> burns (program_words c @ replicate 3 0) (fuses (tr_backend t)) (fuses (tr_backend t'))"
    and "r = Inr () \<Longrightarrow> fuses (tr_backend t') = pc_after c"
proof -
  let ?f = "fuses (tr_backend t)"
  let ?P = "\<lambda>r g. (g = ?f \<or> ?f = pc_before c \<and> burns (program_words c @ replicate 3 0) ?f g) \<and> (r = Inr () \<longrightarrow> g = pc_after c)"
  have "tr_attempted t' \<and> ?P r (fuses (tr_backend t'))"
  proof (cases "tr_attempted t")
    case True
    with assms(2) show ?thesis by (auto simp: attempt_def)
  next
    case False
    obtain hz b1 where 1: "eb_apb_hz B (tr_backend t) = (hz, b1)" by (meson surj_pair)
    obtain x b2 where 2: "eb_idle B b1 = (x, b2)" by (meson surj_pair)
    obtain y b3 where 3: "eb_set_timing B b2 = (y, b3)" by (meson surj_pair)
    obtain z b4 where 4: "eb_refresh B b3 = (z, b4)" by (meson surj_pair)
    obtain s b5 where 5: "eb_snapshot B b4 = (s, b5)" by (meson surj_pair)
    note laws = fuse_lawD(1) [OF L 1] fuse_lawD(2) [OF L 2] fuse_lawD(3) [OF L 3] fuse_lawD(4) [OF L 4] fuse_lawD(5) [OF L 5]
    from assms(2) False obtain b' where att: "(if hz \<noteq> 80000000 then Some (Inl TE_Clock, b1)
        else if \<not> x then Some (Inl TE_Busy, b2) else if \<not> y then Some (Inl TE_Timing, b3)
        else if \<not> z then Some (Inl TE_Refresh, b4)
        else (case check_before c s of Some e \<Rightarrow> Some (Inl e, b5) | None \<Rightarrow> stage_and_program B c b5)) = Some (r, b')"
      and t': "t' = \<lparr>tr_backend = b', tr_attempted = True\<rparr>"
      by (auto simp: attempt_def Let_def 1 2 3 4 5 split: prod.splits)
    have "?P r (fuses b')"
    proof (cases "hz = 80000000 \<and> x \<and> y \<and> z \<and> check_before c s = None")
      case True
      then have "stage_and_program B c b5 = Some (r, b')" "shadow b5 = fuses b5" using att laws by auto
      from stage_and_program_law [OF L this] laws show ?thesis by simp
    next
      case False
      with att laws show ?thesis by (auto split: if_splits option.splits)
    qed
    then show ?thesis by (simp add: t')
  qed
  then show "tr_attempted t'" "fuses (tr_backend t') = ?f
      \<or> ?f = pc_before c \<and> burns (program_words c @ replicate 3 0) ?f (fuses (tr_backend t'))"
    "r = Inr () \<Longrightarrow> fuses (tr_backend t') = pc_after c" by blast+
qed

text \<open>The same contract at the registers and routines of the ROM.\<close>

definition efuse_law ::
  "'h efuse_rom \<Rightarrow> ('h \<Rightarrow> u32 list) \<Rightarrow> ('h \<Rightarrow> u32 list) \<Rightarrow> ('h \<Rightarrow> u32 list) \<Rightarrow> bool" where
  "efuse_law E fuses shadow staged \<longleftrightarrow> (\<forall>h. length (shadow h) = 6 \<and> length (staged h) = 11
     \<and> (\<forall>offset w h'. er_register E h offset = (w, h') \<longrightarrow>
          fuses h' = fuses h \<and> shadow h' = shadow h \<and> staged h' = staged h
          \<and> (\<forall>i < 6. offset = 0x2c + i * 4 \<longrightarrow> w = shadow h ! i) \<and> (\<forall>i < 11. offset = i * 4 \<longrightarrow> w = staged h ! i))
     \<and> (\<forall>offset w. fuses (er_write_register E h offset w) = fuses h
          \<and> shadow (er_write_register E h offset w) = shadow h)
     \<and> (\<forall>hz x h'. er_set_timing E h hz = (x, h') \<longrightarrow> fuses h' = fuses h)
     \<and> (\<forall>x h'. er_read E h = (x, h') \<longrightarrow> fuses h' = fuses h \<and> (x = 0 \<longrightarrow> shadow h' = fuses h'))
     \<and> fuses (er_clear_program_registers E h) = fuses h \<and> shadow (er_clear_program_registers E h) = shadow h
     \<and> (\<forall>x h'. er_program E h 0 = (x, h') \<longrightarrow> burns (staged h) (fuses h) (fuses h'))
     \<and> (\<forall>x h'. er_apb_hz E h = (x, h') \<longrightarrow> fuses h' = fuses h))"

lemma read_registers_law:
  assumes "efuse_law E fuses shadow staged" and "read_registers E os h = (ws, h')"
  shows "fuses h' = fuses h \<and> shadow h' = shadow h \<and> staged h' = staged h \<and> length ws = length os
    \<and> (\<forall>j < length os. (\<forall>i < 6. os ! j = 0x2c + i * 4 \<longrightarrow> ws ! j = shadow h ! i)
         \<and> (\<forall>i < 11. os ! j = i * 4 \<longrightarrow> ws ! j = staged h ! i))"
  using assms(2)
proof (induction os arbitrary: h ws)
  case (Cons o' os)
  obtain w h1 where 1: "er_register E h o' = (w, h1)" by (meson surj_pair)
  obtain ws1 where 2: "read_registers E os h1 = (ws1, h')" and ws: "ws = w # ws1"
    using Cons.prems 1 by (auto split: prod.splits)
  have "fuses h1 = fuses h \<and> shadow h1 = shadow h \<and> staged h1 = staged h
      \<and> (\<forall>i < 6. o' = 0x2c + i * 4 \<longrightarrow> w = shadow h ! i) \<and> (\<forall>i < 11. o' = i * 4 \<longrightarrow> w = staged h ! i)"
    using assms(1) 1 unfolding efuse_law_def by blast
  with Cons.IH [OF 2] show ?case by (auto simp: ws nth_Cons split: nat.splits)
qed simp

lemma rom_backend_law:
  assumes L: "efuse_law E fuses shadow staged"
  shows "fuse_law (rom_backend E) fuses shadow staged"
proof -
  note law = L [unfolded efuse_law_def]
  have snap: "fuses h' = fuses h \<and> shadow h' = shadow h \<and> staged h' = staged h \<and> sn_block0 s = shadow h"
    if sn: "efuse_snapshot E h = (s, h')" for h s h'
  proof -
    obtain bl h1 where 1: "read_registers E (map (\<lambda>i. 0x2c + i * 4) [0..<6]) h = (bl, h1)" by (meson surj_pair)
    obtain er where 2: "read_registers E EFUSE_ERROR_OFFSETS h1 = (er, h')" and s: "sn_block0 s = bl"
      using sn 1 by (auto simp: efuse_snapshot_def split: prod.splits)
    have "bl = shadow h"
      using read_registers_law [OF L 1] law by (auto intro!: nth_equalityI)
    with read_registers_law [OF L 1] read_registers_law [OF L 2] s show ?thesis by simp
  qed
  have stg: "fuses h' = fuses h \<and> shadow h' = shadow h \<and> staged h' = staged h \<and> st = staged h"
    if "read_registers E (map (\<lambda>i. i * 4) [0..<11]) h = (st, h')" for h st h'
    using read_registers_law [OF L that] law by (auto intro!: nth_equalityI)
  have idle: "fuses h' = fuses h \<and> shadow h' = shadow h \<and> staged h' = staged h"
    if "controller_commands_idle (\<lambda>h. er_register E h 0x1d4) h = (x, h')" for h x h'
    using that law unfolding controller_commands_idle_def by (auto split: prod.splits if_splits)
  have timing: "fuses h' = fuses h"
    if t: "(case er_apb_hz E h of (hz, h) \<Rightarrow> case er_set_timing E h hz of (r, h) \<Rightarrow> (r = 0, h)) = (x, h')" for h x h'
  proof -
    obtain hz h1 where 1: "er_apb_hz E h = (hz, h1)" by (meson surj_pair)
    obtain r where 2: "er_set_timing E h1 hz = (r, h')" using t 1 by (auto split: prod.splits)
    from 1 2 law show ?thesis by metis
  qed
  have refresh: "fuses h' = fuses h \<and> (x \<longrightarrow> shadow h' = fuses h')"
    if "(case er_read E h of (r, h) \<Rightarrow> (r = 0, h)) = (x, h')" for h x h'
    using that law by (auto split: prod.splits)
  have prog: "burns (staged h) (fuses h) (fuses h')"
    if "(case er_program E h 0 of (r, h) \<Rightarrow> (r = 0, h)) = (x, h')" for h x h'
    using that law by (auto split: prod.splits)
  have stage: "fuses h' = fuses h \<and> shadow h' = shadow h" if "rom_stage_counter E h ws = Some h'" for h ws h'
    using that law by (auto simp: rom_stage_counter_def split: if_splits)
  have rest: "fuses h' = fuses h" if "er_apb_hz E h = (x, h')" for h x h' using that law by blast
  have clr: "fuses (er_clear_program_registers E h) = fuses h \<and> shadow (er_clear_program_registers E h) = shadow h" for h
    using law by blast
  show ?thesis
    unfolding fuse_law_def rom_backend_def epoch_backend.simps
    by (intro allI conjI impI; (drule snap | drule stg | drule idle | drule timing | drule refresh | drule prog
          | drule stage | drule rest)?; simp add: clr)
qed

text \<open>The adapter accepts what a prepared change stages, and burning that touches the counter only.\<close>

lemma stage_exact:
  assumes "exact_change block0 target c"
  shows "rom_stage_counter E h (program_words c) = Some (er_write_register E h 0x10 (program_words c ! 4))"
proof -
  have "program_words c = [0, 0, 0, 0, push_bit 11 (ucast (pc_delta c)), 0, 0, 0]"
    "push_bit 11 (ucast (pc_delta c)) AND NOT FIELD_MASK = 0"
    using assms by (simp_all add: exact_change_def)
  then show ?thesis by (simp add: rom_stage_counter_def FIELD_MASK_def)
qed

lemma stage_and_program_total:
  "exact_change block0 target c \<Longrightarrow> stage_and_program (rom_backend E) c h \<noteq> None"
  using stage_exact [of block0 target c E]
  by (auto simp: stage_and_program_def Let_def rom_backend_def split: prod.splits option.splits)

lemma attempt_total: "exact_change block0 target c \<Longrightarrow> attempt (rom_backend E) c t \<noteq> None"
  using stage_and_program_total [of block0 target c E]
  by (auto simp: attempt_def Let_def split: prod.splits option.splits)

lemma counter_burn:
  assumes "exact_change block0 target c" and "length f = 6" and "burns (program_words c @ replicate 3 0) f g"
  shows "\<exists>x. x AND NOT (push_bit 11 (ucast (pc_delta c))) = 0 \<and> g = f[4 := f ! 4 OR x]"
proof -
  have w: "program_words c = [0, 0, 0, 0, push_bit 11 (ucast (pc_delta c)), 0, 0, 0]"
    using assms(1) by (simp add: exact_change_def)
  have other: "g ! i = f ! i" if i: "i < 6" "i \<noteq> 4" for i
  proof -
    obtain x where x: "x AND NOT ((program_words c @ replicate 3 0) ! i) = 0" "g ! i = f ! i OR x"
      using assms(2,3) i(1) by (auto simp: burns_def)
    have "i = 0 \<or> i = 1 \<or> i = 2 \<or> i = 3 \<or> i = 5" using i by arith
    then have "(program_words c @ replicate 3 0) ! i = 0" unfolding w by auto
    with x show ?thesis by simp
  qed
  obtain x where x: "x AND NOT ((program_words c @ replicate 3 0) ! 4) = 0" "g ! 4 = f ! 4 OR x"
    using assms(2,3) unfolding burns_def by (auto dest: spec [of _ 4])
  have "g = f[4 := f ! 4 OR x]"
    using assms(2,3) other x(2) by (intro nth_equalityI) (auto simp: burns_def nth_list_update)
  moreover have "x AND NOT (push_bit 11 (ucast (pc_delta c))) = 0" using x(1) unfolding w by simp
  ultimately show ?thesis by blast
qed

section \<open>Properties\<close>

text \<open>Everything an accepted plan has established, and what the prepared change is.\<close>

lemma prepare_accepts:
  assumes "prepare plan observed = Inr c"
  shows "ap_device_digest plan = ob_device_digest observed \<and> ap_bootloader_digest plan = ob_bootloader_digest observed
    \<and> ap_trusted_root_digest plan = ob_trusted_root_digest observed \<and> ap_expected_block0 plan = ob_block0 observed
    \<and> bit (ob_block0 observed ! 3) 20 \<and> \<not> bit (ob_block0 observed ! 0) 18
    \<and> count_ones (secure_version_raw (ob_block0 observed)) < unat (ap_target_epoch plan) \<and> unat (ap_target_epoch plan) \<le> 16
    \<and> (\<forall>i < length (ob_slots observed). let slot = ob_slots observed ! i in
         se_signature_verified slot \<and> se_metadata_valid slot
         \<and> unat (ap_target_epoch plan) \<le> unat (se_secure_version slot) \<and> unat (se_secure_version slot) \<le> 16
         \<and> se_signed_content_digest slot = ap_qualified_image_digests plan ! i)
    \<and> exact_change (ob_block0 observed) (ap_target_epoch plan) c"
proof -
  have one: "(w :: u32) AND push_bit n 1 = 0 \<longleftrightarrow> \<not> bit w n" if "n < 32" for w n
  proof -
    have "bit (w AND push_bit n 1) m \<longleftrightarrow> m = n \<and> bit w n" for m
      using that unfolding bit_and_iff bit_push_bit_iff bit_1_iff by (auto dest: bit_imp_le_length)
    then show ?thesis by (metis (no_types, lifting) bit_word_eqI bit_0_eq bot_apply bot_bool_def)
  qed
  have slots: "check_slots t ds k ss = None \<Longrightarrow> i < length ss \<Longrightarrow>
      check_slot t (ds ! (k + i)) (ss ! i) = None" for t ds k ss i
  proof (induction ss arbitrary: k i)
    case (Cons s ss)
    then show ?case using Cons.IH [of "Suc k" "i - 1"] by (cases i) (auto split: option.splits)
  qed simp
  have slot: "check_slot t d s = None \<longleftrightarrow> se_signature_verified s \<and> se_metadata_valid s
      \<and> unat t \<le> unat (se_secure_version s) \<and> unat (se_secure_version s) \<le> 16 \<and> se_signed_content_digest s = d" for t d s
    by (auto simp: check_slot_def word_less_nat_alt unat_ucast_u8 not_less)
  have "check_slots (ap_target_epoch plan) (ap_qualified_image_digests plan) 0 (ob_slots observed) = None"
    using assms by (auto simp: prepare_def Let_def split: if_splits option.splits)
  from slots [OF this] prepare_exact [OF assms] assms show ?thesis
    unfolding prepare_def Let_def
    by (auto simp: slot SHARED_WRITE_DISABLE_def one word_less_nat_alt not_le not_less
        simp del: push_bit_of_1 split: if_splits option.splits)
qed


definition example_block0 :: "u32 list" where "example_block0 = [0, 0, push_bit 18 1, push_bit 20 1, 0, 0]"

definition example_evidence :: slot_evidence where
  "example_evidence = \<lparr>se_signature_verified = True, se_metadata_valid = True, se_secure_version = 2,
     se_signed_content_digest = [4]\<rparr>"

definition example_plan :: approved_plan where
  "example_plan = \<lparr>ap_device_digest = [1], ap_bootloader_digest = [2], ap_trusted_root_digest = [3],
     ap_expected_block0 = example_block0, ap_qualified_image_digests = [[4], [4]], ap_target_epoch = 2\<rparr>"

definition example_observed :: observed_state where
  "example_observed = \<lparr>ob_device_digest = [1], ob_bootloader_digest = [2], ob_trusted_root_digest = [3],
     ob_block0 = example_block0, ob_running_slot = 0, ob_slots = [example_evidence, example_evidence]\<rparr>"

lemma example_prepared:
  "prepare example_plan example_observed = Inr \<lparr>pc_before = example_block0,
     pc_after = example_block0[4 := push_bit 11 3], pc_delta = 3, pc_target_epoch = 2\<rparr>"
  by code_simp


lemma programmer_attempt_law:
  assumes "efuse_law E fuses shadow staged" and "exact_change block0 target c" and "length (fuses h) = 6"
  shows "\<exists>r h'. programmer_attempt E c (attempted, h) = Some (r, True, h')
    \<and> (attempted \<longrightarrow> r = Inl TE_AlreadyAttempted \<and> h' = h)
    \<and> (fuses h' \<noteq> fuses h \<longrightarrow> fuses h = block0
        \<and> (\<exists>x. x AND NOT (push_bit 11 (ucast (pc_delta c))) = 0 \<and> fuses h' = (fuses h)[4 := fuses h ! 4 OR x]))
    \<and> (r = Inr () \<longrightarrow> fuses h' = pc_after c)"
proof (cases attempted)
  case False
  obtain r t where a: "attempt (rom_backend E) c (transaction_new h) = Some (r, t)"
    using attempt_total [OF assms(2), of E "transaction_new h"] by auto
  note law = attempt_law [OF rom_backend_law [OF assms(1)] a]
  have "pc_before c = block0" using assms(2) by (simp add: exact_change_def)
  with law counter_burn [OF assms(2,3), of "fuses (tr_backend t)"] a False show ?thesis
    by (auto simp: programmer_attempt_def transaction_new_def)
qed (simp add: programmer_attempt_def)

text \<open>
  C12. The programmer burns the approved counter bits or nothing, once per boot. On hardware
  that meets the contract and for an exact change, an attempt never panics and sets the latch;
  a later attempt is refused and does not touch the hardware; the fuses are unchanged unless
  they were exactly the approved BLOCK0, and then only bits of the change can be set, in the
  counter word alone, even when programming fails; and success means BLOCK0 is the expected one.
\<close>

theorem epoch_attempt_burns_only_counter:
  assumes "efuse_law E fuses shadow staged" and "exact_change block0 target c" and "length (fuses h) = 6"
  shows "\<exists>r h'. programmer_attempt E c (attempted, h) = Some (r, True, h')
    \<and> (attempted \<longrightarrow> r = Inl TE_AlreadyAttempted \<and> h' = h)
    \<and> (fuses h' \<noteq> fuses h \<longrightarrow> fuses h = block0
        \<and> (\<exists>x. x AND NOT (push_bit 11 (ucast (pc_delta c))) = 0 \<and> fuses h' = (fuses h)[4 := fuses h ! 4 OR x]))
    \<and> (r = Inr () \<longrightarrow> fuses h' = pc_after c)"
  by (rule programmer_attempt_law [OF assms])

text \<open>A simulated controller: fuses, read registers and programming registers, padded with zeros.\<close>

definition pad :: "nat \<Rightarrow> u32 list \<Rightarrow> u32 list" where
  "pad n ws = take n (ws @ replicate n 0)"

lemma length_pad [simp]: "length (pad n ws) = n" by (simp add: pad_def)

lemma pad_pad: "length ws = n \<Longrightarrow> pad n ws = ws" by (simp add: pad_def)

definition ram_efuse :: "(u32 list \<times> u32 list \<times> u32 list) efuse_rom" where
  "ram_efuse = \<lparr>
     er_register = \<lambda>h offset. (if offset < 44 then pad 11 (snd (snd h)) ! (offset div 4)
        else if offset < 68 then pad 6 (fst (snd h)) ! ((offset - 44) div 4) else 0, h),
     er_write_register = \<lambda>h offset w. (fst h, fst (snd h), (pad 11 (snd (snd h)))[offset div 4 := w]),
     er_set_timing = \<lambda>h hz. (0, h),
     er_read = \<lambda>h. (0, (fst h, fst h, snd (snd h))),
     er_clear_program_registers = \<lambda>h. (fst h, fst (snd h), replicate 11 0),
     er_program = \<lambda>h blk. (0, (map2 (OR) (pad 6 (fst h)) (pad 11 (snd (snd h))), snd h)),
     er_apb_hz = \<lambda>h. (80000000, h)\<rparr>"

lemma ram_efuse_law:
  "efuse_law ram_efuse (\<lambda>h. pad 6 (fst h)) (\<lambda>h. pad 6 (fst (snd h))) (\<lambda>h. pad 11 (snd (snd h)))"
proof -
  have "burns (pad 11 st) (pad 6 f) (pad 6 (map2 (OR) (pad 6 f) (pad 11 st)))" for f st
    by (auto simp: burns_def pad_pad [of "map2 _ _ _"] intro!: exI [of _ "pad 11 st ! i" for i])
  then show ?thesis by (auto simp: efuse_law_def ram_efuse_def)
qed

theorem epoch_attempt_burns_only_counter_witness:
  "\<exists>r h'. programmer_attempt ram_efuse \<lparr>pc_before = example_block0, pc_after = example_block0[4 := push_bit 11 3],
      pc_delta = 3, pc_target_epoch = 2\<rparr> (False, example_block0, [], []) = Some (r, True, h')
    \<and> (r = Inr () \<longrightarrow> pad 6 (fst h') = example_block0[4 := push_bit 11 3])"
proof -
  have "exact_change example_block0 2 \<lparr>pc_before = example_block0, pc_after = example_block0[4 := push_bit 11 3],
      pc_delta = 3, pc_target_epoch = 2\<rparr>"
    using prepare_exact [OF example_prepared] by (simp add: example_plan_def example_observed_def)
  from epoch_attempt_burns_only_counter [OF ram_efuse_law this, of "(example_block0, [], [])" False]
  show ?thesis by auto
qed

text \<open>
  C40. The plan of the maintenance image is decoded exactly: \<open>decode\<close> accepts a byte string if
  and only if it is the documented layout of the returned plan, with digests that are not zero,
  a target in range that advances the counter of the expected BLOCK0, and an unlocked counter.
\<close>

theorem plan_round_trip: "plan_decode bs = Some p \<longleftrightarrow> bs = plan_bytes p \<and> plan_wf p"
  by (rule plan_decode_iff)

text \<open>
  A rehearsal or programming request names the plan and both images exactly: the images
  are returned if and only if the request is one of the two commands, the digest of the plan
  and two digests of 32 bytes; no target epoch is taken from a request.
\<close>

theorem request_binds_plan_and_images:
  assumes "length plan_digest = 32"
  shows "requested_images request plan_digest = Some (Some [a, b]) \<longleftrightarrow>
    (\<exists>cmd\<in>{0x14, 0x15}. request = cmd # plan_digest @ a @ b) \<and> length a = 32 \<and> length b = 32"
  by (rule requested_images_iff [OF assms])

theorem request_binds_plan_and_images_witness:
  "requested_images (0x14 # replicate 32 7 @ replicate 32 1 @ replicate 32 2) (replicate 32 7)
    = Some (Some [replicate 32 1, replicate 32 2])"
  by (subst request_binds_plan_and_images) auto

end
