(* ===== verification/Maintenance.thy ===== *)
theory Maintenance
  imports Update_Backend User_Presence Security_Epoch
begin

text \<open>
  The diagnostic and maintenance requests of the vendor command:
  \<^verbatim>\<open>src/platform/security_status.rs\<close>, \<^verbatim>\<open>src/platform/security_epoch_preview.rs\<close> and
  \<^verbatim>\<open>src/platform/security_epoch_maintenance.rs\<close>. They compose the OTA metadata, the verifier of
  installed images, the epoch policy, the presence gesture and the eFuse programmer. The
  functions of the HAL that read eFuse fields are the record \<open>efuse_hal\<close>; the digest of the
  trusted key and the embedded plan are the constants of the build and are arguments. The
  confirmation loop takes its button readings from a list; \<open>Waits\<close> is a loop whose list ended
  before a verdict.
\<close>

section \<open>Security status\<close>

datatype efuse_field =
    SECURE_BOOT_EN | DIS_DOWNLOAD_MODE | DIS_USB_DOWNLOAD_MODE | ENABLE_SECURITY_DOWNLOAD | DIS_USB
  | HARD_DIS_JTAG | SECURE_BOOT_KEY_REVOKE0 | SECURE_BOOT_KEY_REVOKE1 | SECURE_BOOT_KEY_REVOKE2
  | SECURE_VERSION | WR_DIS | SPI_BOOT_CRYPT_CNT | RD_DIS

record 'h efuse_hal =
  eh_read_bit :: "'h \<Rightarrow> efuse_field \<Rightarrow> bool"
  eh_read_field_u8 :: "'h \<Rightarrow> efuse_field \<Rightarrow> u8"
  eh_read_field_u16 :: "'h \<Rightarrow> efuse_field \<Rightarrow> u16"
  eh_read_field_u32 :: "'h \<Rightarrow> efuse_field \<Rightarrow> u32"
  eh_major_chip_version :: "'h \<Rightarrow> u8"
  eh_minor_chip_version :: "'h \<Rightarrow> u8"
  eh_base_mac_address :: "'h \<Rightarrow> bytes"

definition SECURITY_STATUS_REQUEST :: u8 where "SECURITY_STATUS_REQUEST = 0x11"
definition SECURITY_STATUS_RESPONSE_SIZE :: nat where "SECURITY_STATUS_RESPONSE_SIZE = 32"

record security_status =
  st_secure_version_raw :: u16
  st_write_disable :: u32
  st_policy_flags :: u32
  st_flash_crypt_count :: u8
  st_read_disable :: u8
  st_revoked_roots :: u8
  st_revision_major :: u8
  st_revision_minor :: u8
  st_application_secure_version :: u32

definition security_status_encode :: "security_status \<Rightarrow> bytes \<Rightarrow> (nat \<times> bytes) option" where
  "security_status_encode s output = do {
     let out = zeroize output;
     out \<leftarrow> copy_from_slice out 0 4 [0x52, 0x4b, 0x53, 0x31];
     out \<leftarrow> copy_from_slice out 4 6 (to_le16 (st_secure_version_raw s));
     out \<leftarrow> store out 6 (of_nat (count_ones (st_secure_version_raw s)));
     out \<leftarrow> copy_from_slice out 8 12 (to_le32 (st_write_disable s));
     out \<leftarrow> copy_from_slice out 12 16 (to_le32 (st_policy_flags s));
     out \<leftarrow> store out 16 (st_flash_crypt_count s);
     out \<leftarrow> store out 17 (st_read_disable s);
     out \<leftarrow> store out 18 (st_revoked_roots s);
     out \<leftarrow> store out 19 (st_revision_major s);
     out \<leftarrow> store out 20 (st_revision_minor s);
     out \<leftarrow> copy_from_slice out 24 28 (to_le32 (st_application_secure_version s));
     Some (SECURITY_STATUS_RESPONSE_SIZE, out)
   }"

definition policy_fields :: "efuse_field list" where
  "policy_fields = [SECURE_BOOT_EN, DIS_DOWNLOAD_MODE, DIS_USB_DOWNLOAD_MODE, ENABLE_SECURITY_DOWNLOAD,
     DIS_USB, HARD_DIS_JTAG]"

definition security_status_read :: "'h efuse_hal \<Rightarrow> 'h \<Rightarrow> u32 \<Rightarrow> security_status" where
  "security_status_read U h application_secure_version =
     (let policy_flags = fold (\<lambda>(i, field) flags. flags OR push_bit i (of_bool (eh_read_bit U h field)))
            (enumerate 0 policy_fields) 0;
        revoked_roots = of_bool (eh_read_bit U h SECURE_BOOT_KEY_REVOKE0)
          OR push_bit 1 (of_bool (eh_read_bit U h SECURE_BOOT_KEY_REVOKE1))
          OR push_bit 2 (of_bool (eh_read_bit U h SECURE_BOOT_KEY_REVOKE2))
      in \<lparr>st_secure_version_raw = eh_read_field_u16 U h SECURE_VERSION,
          st_write_disable = eh_read_field_u32 U h WR_DIS, st_policy_flags = policy_flags,
          st_flash_crypt_count = eh_read_field_u8 U h SPI_BOOT_CRYPT_CNT,
          st_read_disable = eh_read_field_u8 U h RD_DIS, st_revoked_roots = revoked_roots,
          st_revision_major = eh_major_chip_version U h, st_revision_minor = eh_minor_chip_version U h,
          st_application_secure_version = application_secure_version\<rparr>)"

section \<open>Preview of an installed image\<close>

definition PREVIEW_REQUEST :: u8 where "PREVIEW_REQUEST = 0x12"
definition PREVIEW_RESPONSE_SIZE :: nat where "PREVIEW_RESPONSE_SIZE = 64"

datatype preview_error = PV_Busy | PV_Layout | PV_Image | PV_Request

fun preview_number :: "preview_error \<Rightarrow> u8" where
  "preview_number PV_Busy = 1"
| "preview_number PV_Layout = 2"
| "preview_number PV_Image = 3"
| "preview_number PV_Request = 4"

definition requested_slot :: "bytes \<Rightarrow> phase \<Rightarrow> preview_error + u8" where
  "requested_slot request ph =
     (if length request \<noteq> 2 \<or> request ! 0 \<noteq> PREVIEW_REQUEST \<or> 1 < request ! 1 then Inl PV_Request
      else if ph \<noteq> Ph_Idle then Inl PV_Busy else Inr (request ! 1))"

definition preview_encode ::
  "u8 \<Rightarrow> preview_error + qualified_layout_record \<times> verified_installed_image \<Rightarrow> bytes \<Rightarrow> (nat \<times> bytes) option" where
  "preview_encode slot result output = do {
     let out = zeroize output;
     out \<leftarrow> copy_from_slice out 0 4 [0x52, 0x4b, 0x45, 0x31];
     out \<leftarrow> store out 5 slot;
     out \<leftarrow> (case result of
         Inr (layout, img) \<Rightarrow> do {
           out \<leftarrow> store out 6 (ql_running_slot layout);
           out \<leftarrow> copy_from_slice out 8 12 (to_le32 (vi_secure_version img));
           out \<leftarrow> copy_from_slice out 12 16 (to_le32 (vi_signed_image_bytes img));
           out \<leftarrow> copy_from_slice out 16 48 (vi_signed_content_digest img);
           out \<leftarrow> copy_from_slice out 48 52 (to_le32 (fst (ql_sequences layout)));
           copy_from_slice out 52 56 (to_le32 (snd (ql_sequences layout)))
         }
       | Inl error \<Rightarrow> store out 4 (preview_number error));
     Some (PREVIEW_RESPONSE_SIZE, out)
   }"

definition preview_check ::
  "bool \<Rightarrow> 'f rom \<Rightarrow> 'x sha256 \<Rightarrow> bytes \<Rightarrow> u32 \<Rightarrow> u8 \<Rightarrow>
   ('f fe_state, preview_error, qualified_layout_record \<times> verified_installed_image) rust" where
  "preview_check enc R H root descriptor_address slot =
     try_then (map_err (\<lambda>_. PV_Layout) (qualified_layout enc R descriptor_address)) (\<lambda>before.
     try_then (map_err (\<lambda>_. PV_Image)
       (verify_installed_slot (esp_backend enc R descriptor_address) H slot root)) (\<lambda>image.
     try_then (map_err (\<lambda>_. PV_Layout) (qualified_layout enc R descriptor_address)) (\<lambda>after.
     if before \<noteq> after then rust_err PV_Layout else rust_ok (after, image))))"

text \<open>\<^term>\<open>None\<close> in the answer is a request of another handler.\<close>

definition preview_handle ::
  "bool \<Rightarrow> 'f rom \<Rightarrow> 'x sha256 \<Rightarrow> bytes \<Rightarrow> bytes \<Rightarrow> u32 \<Rightarrow> phase \<Rightarrow> bytes \<Rightarrow> 'f fe_state \<Rightarrow>
   ((nat \<times> bytes) option \<times> 'f fe_state) option" where
  "preview_handle enc R H root request descriptor_address ph output s =
     (if request = [] \<or> hd request \<noteq> PREVIEW_REQUEST then Some (None, s)
      else (case requested_slot request ph of
          Inl error \<Rightarrow> map_option (\<lambda>r. (Some r, s)) (preview_encode (- 1) (Inl error) output)
        | Inr slot \<Rightarrow> do {
            (result, s) \<leftarrow> preview_check enc R H root descriptor_address slot s;
            r \<leftarrow> preview_encode slot result output;
            Some (Some r, s)
          }))"

section \<open>Epoch maintenance\<close>

datatype 'a blocking = Waits | Returns 'a

datatype maintenance_error =
  ME_Request | ME_Busy | ME_Plan | ME_Image | ME_Presence | ME_Transaction | ME_Binding | ME_Cancelled

fun maintenance_number :: "maintenance_error \<Rightarrow> u8" where
  "maintenance_number ME_Request = 1"
| "maintenance_number ME_Busy = 2"
| "maintenance_number ME_Plan = 3"
| "maintenance_number ME_Image = 4"
| "maintenance_number ME_Presence = 5"
| "maintenance_number ME_Transaction = 6"
| "maintenance_number ME_Binding = 7"
| "maintenance_number ME_Cancelled = 8"

definition INSPECT :: u8 where "INSPECT = 0x13"
definition PROGRAM :: u8 where "PROGRAM = 0x14"
definition REHEARSE :: u8 where "REHEARSE = 0x15"

record qualified_change =
  qd_change :: prepared_change
  qd_layout :: qualified_layout_record
  qd_raw :: u16

text \<open>The hardware a maintenance request reaches.\<close>

record ('f, 'h, 'k) maintenance_device =
  md_flash :: "'f fe_state"
  md_attempted :: bool
  md_efuse :: 'h
  md_hardware :: user_hardware
  md_hook :: 'k

definition on_flash :: "('f fe_state, 'e, 'a) rust \<Rightarrow> (('f, 'h, 'k) maintenance_device, 'e, 'a) rust" where
  "on_flash op d = map_option (\<lambda>(r, s). (r, d\<lparr>md_flash := s\<rparr>)) (op (md_flash d))"

definition on_efuse :: "('h \<Rightarrow> 'a \<times> 'h) \<Rightarrow> (('f, 'h, 'k) maintenance_device, 'e, 'a) rust" where
  "on_efuse op d = (case op (md_efuse d) of (a, h) \<Rightarrow> Some (Inr a, d\<lparr>md_efuse := h\<rparr>))"

definition from_efuse :: "('h \<Rightarrow> 'a) \<Rightarrow> (('f, 'h, 'k) maintenance_device, 'e, 'a) rust" where
  "from_efuse get d = Some (Inr (get (md_efuse d)), d)"

text \<open>The loop over \<^verbatim>\<open>(0x1000..0xd000).step_by(1024)\<close>: each word is hashed on its own.\<close>

fun hash_bootloader ::
  "'f rom \<Rightarrow> 'x sha256 \<Rightarrow> u32 list \<Rightarrow> 'x \<Rightarrow> ('f fe_state, maintenance_error, 'x) rust" where
  "hash_bootloader R H [] x s = Some (Inr x, s)"
| "hash_bootloader R H (offset # rest) x s =
     try_then (map_err (\<lambda>_. ME_Binding) (hw_result (\<lambda>f. rom_spi_read R f offset 1024))) (\<lambda>buffer.
     hash_bootloader R H rest (foldl (sha_update H) x (chunks 4 buffer))) s"

definition bootloader_ciphertext_digest ::
  "'f rom \<Rightarrow> 'x sha256 \<Rightarrow> ('f fe_state, maintenance_error, bytes) rust" where
  "bootloader_ciphertext_digest R H =
     try_then (hash_bootloader R H (map (\<lambda>i. 0x1000 + of_nat (i * 1024)) [0..<48]) (sha_new H)) (\<lambda>x.
     rust_ok (sha_finalize H x))"

text \<open>The loop that verifies the two slots.\<close>

fun verify_slots ::
  "bool \<Rightarrow> 'f rom \<Rightarrow> 'x sha256 \<Rightarrow> u32 \<Rightarrow> bytes \<Rightarrow> u8 list \<Rightarrow> ('f fe_state, maintenance_error, slot_evidence list) rust"
where
  "verify_slots enc R H descriptor root [] s = Some (Inr [], s)"
| "verify_slots enc R H descriptor root (slot # rest) s =
     try_then (map_err (\<lambda>_. ME_Image) (verify_installed_slot (esp_backend enc R descriptor) H slot root)) (\<lambda>image.
     try_then (verify_slots enc R H descriptor root rest) (\<lambda>slots.
     rust_ok (\<lparr>se_signature_verified = True, se_metadata_valid = True,
       se_secure_version = vi_secure_version image,
       se_signed_content_digest = vi_signed_content_digest image\<rparr> # slots))) s"

definition qualify ::
  "bool \<Rightarrow> 'f rom \<Rightarrow> 'h efuse_rom \<Rightarrow> 'h efuse_hal \<Rightarrow> 'x sha256 \<Rightarrow> bytes \<Rightarrow> bytes \<Rightarrow> u32 \<Rightarrow> bytes list option \<Rightarrow>
   (('f, 'h, 'k) maintenance_device, maintenance_error, qualified_change) rust" where
  "qualify enc R E U H root SCOPE descriptor expected =
     try_then (ok_or ME_Plan (plan_decode SCOPE)) (\<lambda>scope.
     try_then (from_efuse (\<lambda>h. (eh_major_chip_version U h, eh_minor_chip_version U h))) (\<lambda>(major, minor).
     try_then (guard_err (major \<noteq> mp_revision_major scope \<or> minor \<noteq> mp_revision_minor scope) ME_Binding) (\<lambda>_.
     try_then (on_efuse (efuse_snapshot E)) (\<lambda>before.
     try_then (guard_err (sn_repeat_errors before \<noteq> replicate 5 0) ME_Binding) (\<lambda>_.
     try_then (on_flash (map_err (\<lambda>_. ME_Image) (qualified_layout enc R descriptor))) (\<lambda>layout.
     try_then (on_flash (verify_slots enc R H descriptor root [0, 1])) (\<lambda>slots.
     try_then (or_panic (Option.bind (checked_sub 1 (ql_running_slot layout)) (\<lambda>i. index slots (unat i)))) (\<lambda>other.
     try_then (guard_err (se_signed_content_digest other \<noteq> mp_fallback_digest scope) ME_Binding) (\<lambda>_.
     try_then (from_efuse (\<lambda>h. sha_digest H (eh_base_mac_address U h))) (\<lambda>device_digest.
     try_then (on_flash (bootloader_ciphertext_digest R H)) (\<lambda>bootloader_digest.
     let observed = \<lparr>ob_device_digest = device_digest, ob_bootloader_digest = bootloader_digest,
           ob_trusted_root_digest = root, ob_block0 = sn_block0 before,
           ob_running_slot = ql_running_slot layout, ob_slots = slots\<rparr>;
         plan = \<lparr>ap_device_digest = mp_device_digest scope, ap_bootloader_digest = mp_bootloader_digest scope,
           ap_trusted_root_digest = mp_trusted_root_digest scope, ap_expected_block0 = mp_expected_block0 scope,
           ap_qualified_image_digests =
             (case expected of Some images \<Rightarrow> images | None \<Rightarrow> map se_signed_content_digest slots),
           ap_target_epoch = mp_target_epoch scope\<rparr>
     in
     try_then (case prepare plan observed of Inl _ \<Rightarrow> rust_err ME_Binding | Inr change \<Rightarrow> rust_ok change) (\<lambda>change.
     try_then (on_flash (map_err (\<lambda>_. ME_Image) (qualified_layout enc R descriptor))) (\<lambda>layout'.
     try_then (guard_err (layout' \<noteq> layout) ME_Binding) (\<lambda>_.
     try_then (on_efuse (efuse_snapshot E)) (\<lambda>now.
     try_then (guard_err (now \<noteq> before) ME_Binding) (\<lambda>_.
     rust_ok \<lparr>qd_change = change, qd_layout = layout, qd_raw = secure_version_raw (sn_block0 before)\<rparr>))))))))))))))))"

text \<open>
  The closure of \<^verbatim>\<open>handle\<close>. Its errors carry what it has already written at offset 5 of the
  output, the code of a failed transaction.
\<close>

datatype maintenance_stop = Stopped maintenance_error u8 | Blocked

definition confirm_step ::
  "'k wait_hook \<Rightarrow> u64 \<Rightarrow> reading list \<Rightarrow> (('f, 'h, 'k) maintenance_device, maintenance_stop, unit) rust" where
  "confirm_step W now readings d =
     (case confirm_maintenance_user_presence W (md_hardware d) (md_hook d) now readings of
        None \<Rightarrow> None
      | Some (verdict, hw, k) \<Rightarrow>
          let d = d\<lparr>md_hardware := hw, md_hook := k\<rparr> in
          (case verdict of
             None \<Rightarrow> Some (Inl Blocked, d)
           | Some False \<Rightarrow> Some (Inl (Stopped ME_Presence 0), d)
           | Some True \<Rightarrow> Some (Inr (), d)))"

definition poll_step :: "'k wait_hook \<Rightarrow> (('f, 'h, 'k) maintenance_device, 'e, bool) rust" where
  "poll_step W d = map_option (\<lambda>k. (Inr (wh_cancelled W k), d\<lparr>md_hook := k\<rparr>)) (wh_poll_wait W (md_hook d))"

definition program_step ::
  "'h efuse_rom \<Rightarrow> prepared_change \<Rightarrow> (('f, 'h, 'k) maintenance_device, maintenance_stop, unit) rust" where
  "program_step E change d =
     (case programmer_attempt E change (md_attempted d, md_efuse d) of
        None \<Rightarrow> None
      | Some (r, attempted, h) \<Rightarrow>
          let d = d\<lparr>md_attempted := attempted, md_efuse := h\<rparr> in
          (case r of
             Inl e \<Rightarrow> Some (Inl (Stopped ME_Transaction (transaction_status_code e)), d)
           | Inr _ \<Rightarrow> Some (Inr (), d)))"

definition approved_qualification ::
  "bool \<Rightarrow> 'f rom \<Rightarrow> 'h efuse_rom \<Rightarrow> 'h efuse_hal \<Rightarrow> 'x sha256 \<Rightarrow> bytes \<Rightarrow> bytes \<Rightarrow> 'k wait_hook \<Rightarrow> u64 \<Rightarrow>
   reading list \<Rightarrow> u32 \<Rightarrow> bytes list option \<Rightarrow> (('f, 'h, 'k) maintenance_device, maintenance_stop, qualified_change) rust" where
  "approved_qualification enc R E U H root SCOPE W now readings descriptor expected =
     try_then (map_err (\<lambda>e. Stopped e 0) (qualify enc R E U H root SCOPE descriptor expected)) (\<lambda>first.
     if expected = None then rust_ok first
     else
       try_then (confirm_step W now readings) (\<lambda>_.
       try_then (map_err (\<lambda>e. Stopped e 0) (qualify enc R E U H root SCOPE descriptor expected)) (\<lambda>second.
       try_then (guard_err (qd_layout first \<noteq> qd_layout second) (Stopped ME_Binding 0)) (\<lambda>_.
       try_then (poll_step W) (\<lambda>cancelled.
       try_then (guard_err cancelled (Stopped ME_Cancelled 0)) (\<lambda>_. rust_ok second))))))"

definition maintenance_report :: "bytes \<Rightarrow> bytes \<Rightarrow> u8 \<Rightarrow> qualified_change \<Rightarrow> u32 \<Rightarrow> bytes option" where
  "maintenance_report output plan_digest cmd q hz = do {
     out \<leftarrow> store output 5 (pc_target_epoch (qd_change q));
     out \<leftarrow> store out 6 (ql_running_slot (qd_layout q));
     out \<leftarrow> store out 7 (of_nat (count_ones (qd_raw q)));
     out \<leftarrow> copy_from_slice out 8 40 plan_digest;
     out \<leftarrow> copy_from_slice out 40 44 (to_le32 (fst (ql_sequences (qd_layout q))));
     out \<leftarrow> copy_from_slice out 44 48 (to_le32 (snd (ql_sequences (qd_layout q))));
     out \<leftarrow> copy_from_slice out 48 52 (to_le32 hz);
     out \<leftarrow> copy_from_slice out 52 54 (to_le16 (qd_raw q));
     out \<leftarrow> copy_from_slice out 54 56 (to_le16 (pc_delta (qd_change q)));
     store out 56 cmd
   }"

definition maintenance_run ::
  "bool \<Rightarrow> 'f rom \<Rightarrow> 'h efuse_rom \<Rightarrow> 'h efuse_hal \<Rightarrow> 'x sha256 \<Rightarrow> bytes \<Rightarrow> bytes \<Rightarrow> 'k wait_hook \<Rightarrow> u64 \<Rightarrow>
   reading list \<Rightarrow> bytes \<Rightarrow> u32 \<Rightarrow> phase \<Rightarrow> bytes \<Rightarrow> (('f, 'h, 'k) maintenance_device, maintenance_stop, bytes) rust" where
  "maintenance_run enc R E U H root SCOPE W now readings request descriptor ph output =
     try_then (guard_err (ph \<noteq> Ph_Idle) (Stopped ME_Busy 0)) (\<lambda>_.
     try_then (ok_or (Stopped ME_Request 0) (requested_images request (sha_digest H SCOPE))) (\<lambda>expected.
     try_then (approved_qualification enc R E U H root SCOPE W now readings descriptor expected) (\<lambda>q.
     try_then (or_panic (index request 0)) (\<lambda>cmd.
     try_then (if cmd = PROGRAM then program_step E (qd_change q) else rust_ok ()) (\<lambda>_.
     try_then (on_efuse (er_apb_hz E)) (\<lambda>hz.
     or_panic (maintenance_report output (sha_digest H SCOPE) cmd q hz)))))))"

definition maintenance_handle ::
  "bool \<Rightarrow> 'f rom \<Rightarrow> 'h efuse_rom \<Rightarrow> 'h efuse_hal \<Rightarrow> 'x sha256 \<Rightarrow> bytes \<Rightarrow> bytes \<Rightarrow> 'k wait_hook \<Rightarrow> u64 \<Rightarrow>
   reading list \<Rightarrow> bytes \<Rightarrow> u32 \<Rightarrow> phase \<Rightarrow> bytes \<Rightarrow> ('f, 'h, 'k) maintenance_device \<Rightarrow>
   ((nat \<times> bytes) option blocking \<times> ('f, 'h, 'k) maintenance_device) option" where
  "maintenance_handle enc R E U H root SCOPE W now readings request descriptor ph output d =
     (if request = [] \<or> hd request \<notin> {INSPECT, PROGRAM, REHEARSE} then Some (Returns None, d)
      else do {
        out \<leftarrow> copy_from_slice (zeroize output) 0 4 [0x52, 0x4b, 0x4d, 0x31];
        (result, d) \<leftarrow> maintenance_run enc R E U H root SCOPE W now readings request descriptor ph out d;
        case result of
          Inl Blocked \<Rightarrow> Some (Waits, d)
        | Inl (Stopped error code) \<Rightarrow> do {
            out \<leftarrow> store out 5 code;
            out \<leftarrow> store out 4 (maintenance_number error);
            Some (Returns (Some (64, out)), d)
          }
        | Inr out \<Rightarrow> Some (Returns (Some (64, out)), d)
      })"

section \<open>Lemmas\<close>

lemma qualified_layout_yields:
  assumes C: "rom_contract enc R mem page"
  shows "yields (qualified_layout enc R d) s (\<lambda>r s'. slot_content mem s' = slot_content mem s
    \<and> (\<forall>layout. r = Inr layout \<longrightarrow> ql_running_slot layout \<le> 1))"
proof -
  have entries: "yields (read_raw_entries enc R) s (\<lambda>_ s'. slot_content mem s' = slot_content mem s)" for s
    using read_raw_entries_confined [OF C, of s] slots_outside_otadata(2) [of mem s]
    unfolding yields_def confined_def by blast
  have running: "yields (running_app_offset R d) s (\<lambda>_ s'. s' = s)"
    by (simp add: running_app_offset_def yields_def Let_def ok_or_def rust_ok_def rust_err_def split: option.split)
  have pure: "\<exists>l. qualified_layout_from_entries es off = Some l \<and> (\<forall>x. l = Some x \<longrightarrow> ql_running_slot x \<le> 1)" for es off
  proof -
    have slot: "ucast (v mod OTA_SLOT_COUNT :: u32) \<le> (1 :: u8)" for v
      using word_mod_2 [of v] unfolding OTA_SLOT_COUNT_def by (elim disjE) (simp_all only:, simp_all)
    have sub: "slot_offset q = Some x \<Longrightarrow> \<exists>v. checked_sub q 1 = Some v" for q x
      by (cases "checked_sub q 1") (auto simp: slot_offset_def)
    show ?thesis
      unfolding qualified_layout_from_entries_def
      using slot by (auto split: option.split dest: sub)
  qed
  show ?thesis
    unfolding qualified_layout_def read_entries_def
  proof (rule yields_bind [OF running], simp, simp)
    fix off
    let ?Q = "\<lambda>r s'. slot_content mem s' = slot_content mem s \<and> (\<forall>layout. r = Inr layout \<longrightarrow> ql_running_slot layout \<le> 1)"
    have "yields (try_then (read_raw_entries enc R) (\<lambda>es. try_then (ok_or CE_InvalidLayout (active_entry es))
        (\<lambda>active. rust_ok (es, active)))) s (\<lambda>_ s'. slot_content mem s' = slot_content mem s)"
      by (rule yields_bind [OF entries]) (auto split: option.split)
    then show "yields (try_then (try_then (read_raw_entries enc R) (\<lambda>es. try_then (ok_or CE_InvalidLayout (active_entry es))
        (\<lambda>active. rust_ok (es, active)))) (\<lambda>(es, _). try_then (or_panic (qualified_layout_from_entries es off))
        (ok_or CE_InvalidLayout))) s ?Q"
    proof (rule yields_bind)
      fix a :: "ota_entries \<times> nat" and s' assume s': "slot_content mem s' = slot_content mem s"
      obtain es i where a: "a = (es, i)" by (cases a)
      obtain l where "qualified_layout_from_entries es off = Some l" "\<forall>x. l = Some x \<longrightarrow> ql_running_slot x \<le> 1"
        using pure by blast
      with s' show "yields (case a of (es, _) \<Rightarrow> try_then (or_panic (qualified_layout_from_entries es off))
          (ok_or CE_InvalidLayout)) s' ?Q"
        by (cases l) (simp_all add: a ok_or_def)
    qed simp
  qed
qed

text \<open>What qualification leaves as it was: everything but counters internal to the two devices.\<close>

definition same_device ::
  "('h \<Rightarrow> u32 list) \<Rightarrow> ('h \<Rightarrow> u32 list) \<Rightarrow> ('f \<Rightarrow> nat \<Rightarrow> u8) \<Rightarrow> ('f, 'h, 'k) maintenance_device \<Rightarrow>
   ('f, 'h, 'k) maintenance_device \<Rightarrow> bool" where
  "same_device fuses shadow mem d d' \<longleftrightarrow> fuses (md_efuse d') = fuses (md_efuse d)
     \<and> shadow (md_efuse d') = shadow (md_efuse d) \<and> slot_content mem (md_flash d') = slot_content mem (md_flash d)
     \<and> md_attempted d' = md_attempted d \<and> md_hardware d' = md_hardware d \<and> md_hook d' = md_hook d"

lemma same_device_refl [simp]: "same_device fuses shadow mem d d"
  by (simp add: same_device_def)

lemma same_device_trans:
  "same_device fuses shadow mem d d1 \<Longrightarrow> same_device fuses shadow mem d1 d2 \<Longrightarrow> same_device fuses shadow mem d d2"
  by (simp add: same_device_def)

lemma on_flash_yields:
  assumes "yields m (md_flash d) (\<lambda>r s'. slot_content mem s' = slot_content mem (md_flash d) \<and> P r)"
  shows "yields (on_flash m) d (\<lambda>r d'. same_device fuses shadow mem d d' \<and> P r)"
  using assms by (auto simp: yields_def on_flash_def same_device_def)

lemma snapshot_yields:
  assumes "efuse_law E fuses shadow staged"
  shows "yields (on_efuse (efuse_snapshot E)) d (\<lambda>r d'. same_device fuses shadow mem d d'
    \<and> (\<exists>s. r = Inr s \<and> sn_block0 s = shadow (md_efuse d)))"
proof -
  obtain s h where "efuse_snapshot E (md_efuse d) = (s, h)" by (meson surj_pair)
  with fuse_lawD(5) [OF rom_backend_law [OF assms], of "md_efuse d" s h] show ?thesis
    by (simp add: rom_backend_def yields_def on_efuse_def same_device_def)
qed

lemma from_efuse_yields [simp]: "yields (try_then (from_efuse get) f) d Q = yields (f (get (md_efuse d))) d Q"
  by (simp add: yields_def from_efuse_def try_then_def)

lemma hash_bootloader_yields:
  assumes C: "rom_contract enc R mem page"
  shows "yields (hash_bootloader R H offs x) s (\<lambda>_ s'. slot_content mem s' = slot_content mem s)"
proof (induction offs arbitrary: x s)
  case (Cons off offs)
  have "yields (map_err (\<lambda>_. ME_Binding) (hw_result (\<lambda>f. rom_spi_read R f off 1024))) s
      (\<lambda>_ s'. slot_content mem s' = slot_content mem s)" (is "yields ?m s _")
    using rom_contractD(7) [OF C, of "fe_hw s" off 1024] unfolding yields_map_err
    by (auto simp: yields_def hw_result_def on_hw_def intro!: slot_content_mem split: prod.splits)
  then have "yields (try_then ?m (\<lambda>buffer. hash_bootloader R H offs (foldl (sha_update H) x (chunks 4 buffer)))) s
      (\<lambda>_ s'. slot_content mem s' = slot_content mem s)"
    by (rule yields_bind) (simp, rule yields_mono [OF Cons.IH], simp)
  then show ?case by (simp add: yields_def)
qed (simp add: yields_def)

lemma bootloader_yields:
  assumes C: "rom_contract enc R mem page"
  shows "yields (bootloader_ciphertext_digest R H) s (\<lambda>_ s'. slot_content mem s' = slot_content mem s)"
  unfolding bootloader_ciphertext_digest_def
  by (rule yields_bind [OF hash_bootloader_yields [OF C]]) simp_all

lemma verified_slot_yields:
  assumes C: "rom_contract enc R mem page" and S: "sha_contract H"
  shows "yields (map_err g (verify_installed_slot (esp_backend enc R descriptor) H slot root)) s
    (\<lambda>r s'. slot_content mem s' = slot_content mem s
      \<and> (\<forall>i. r = Inr i \<longrightarrow> installed_spec H (rsa_verdict R) slot root (slot_content mem s slot) = Inr i))"
proof -
  have "good_reader True (esp_backend enc R descriptor) (slot_content mem) (rsa_verdict R)"
    using esp_flash_backend_lemma [OF C] by (simp add: good_reader_def flash_backend_def)
  from refines_installed [OF this S, of slot root s] obtain r b' where
    "verify_installed_slot (esp_backend enc R descriptor) H slot root s = Some (r, b')"
    "slot_content mem b' = slot_content mem s"
    "r = installed_spec H (rsa_verdict R) slot root (slot_content mem s slot) \<or> isl r"
    by (auto simp: refines_def)
  then show ?thesis
    unfolding yields_map_err by (auto simp: yields_def split: sum.splits)
qed

lemma verify_slots_yields:
  assumes C: "rom_contract enc R mem page" and "sha_contract H"
  shows "yields (verify_slots enc R H descriptor root slots) s (\<lambda>r s'. slot_content mem s' = slot_content mem s
    \<and> (\<forall>es. r = Inr es \<longrightarrow> list_all2 (\<lambda>slot e. \<exists>i. installed_spec H (rsa_verdict R) slot root (slot_content mem s slot) = Inr i
         \<and> se_secure_version e = vi_secure_version i \<and> se_signed_content_digest e = vi_signed_content_digest i) slots es))"
proof (induction slots arbitrary: s)
  case (Cons slot slots)
  let ?m = "map_err (\<lambda>_. ME_Image) (verify_installed_slot (esp_backend enc R descriptor) H slot root)"
  note one = verified_slot_yields [OF C assms(2), where g = "\<lambda>_. ME_Image" and descriptor = descriptor and slot = slot and root = root and s = s]
  from one have "yields (try_then ?m (\<lambda>i. try_then (verify_slots enc R H descriptor root slots) (\<lambda>es.
      rust_ok (\<lparr>se_signature_verified = True, se_metadata_valid = True, se_secure_version = vi_secure_version i,
        se_signed_content_digest = vi_signed_content_digest i\<rparr> # es)))) s (\<lambda>r s'. slot_content mem s' = slot_content mem s
    \<and> (\<forall>es. r = Inr es \<longrightarrow> list_all2 (\<lambda>slot e. \<exists>i. installed_spec H (rsa_verdict R) slot root (slot_content mem s slot) = Inr i
         \<and> se_secure_version e = vi_secure_version i \<and> se_signed_content_digest e = vi_signed_content_digest i) (slot # slots) es))"
  proof (rule yields_bind)
    fix i s' assume i: "slot_content mem s' = slot_content mem s
        \<and> (\<forall>j. (Inr i :: maintenance_error + _) = Inr j \<longrightarrow> installed_spec H (rsa_verdict R) slot root (slot_content mem s slot) = Inr j)"
    show "yields (try_then (verify_slots enc R H descriptor root slots) (\<lambda>es.
      rust_ok (\<lparr>se_signature_verified = True, se_metadata_valid = True, se_secure_version = vi_secure_version i,
        se_signed_content_digest = vi_signed_content_digest i\<rparr> # es))) s' (\<lambda>r s'. slot_content mem s' = slot_content mem s
    \<and> (\<forall>es. r = Inr es \<longrightarrow> list_all2 (\<lambda>slot e. \<exists>i. installed_spec H (rsa_verdict R) slot root (slot_content mem s slot) = Inr i
         \<and> se_secure_version e = vi_secure_version i \<and> se_signed_content_digest e = vi_signed_content_digest i) (slot # slots) es))"
      by (rule yields_bind [OF Cons.IH]) (use i in simp_all)
  qed simp
  then show ?case by (simp add: yields_def)
qed (simp add: yields_def)

text \<open>What a successful qualification has established about the device as it was.\<close>

definition qualified_for ::
  "'f rom \<Rightarrow> 'x sha256 \<Rightarrow> bytes \<Rightarrow> bytes \<Rightarrow> u32 list \<Rightarrow> (u8 \<Rightarrow> bytes) \<Rightarrow> bytes list option \<Rightarrow> prepared_change \<Rightarrow> bool" where
  "qualified_for R H root SCOPE block0 content expected change \<longleftrightarrow>
     (\<exists>scope images. plan_decode SCOPE = Some scope \<and> mp_trusted_root_digest scope = root
        \<and> mp_expected_block0 scope = block0 \<and> exact_change block0 (mp_target_epoch scope) change
        \<and> length images = 2
        \<and> (\<forall>i < 2. installed_spec H (rsa_verdict R) (of_nat i) root (content (of_nat i)) = Inr (images ! i)
             \<and> unat (mp_target_epoch scope) \<le> unat (vi_secure_version (images ! i))
             \<and> (\<forall>digests. expected = Some digests \<longrightarrow> vi_signed_content_digest (images ! i) = digests ! i)))"

lemma prepared_qualified:
  assumes "plan_decode SCOPE = Some scope"
    and slots: "list_all2 (\<lambda>slot e. \<exists>i. installed_spec H (rsa_verdict R) slot root (content slot) = Inr i
         \<and> se_secure_version e = vi_secure_version i \<and> se_signed_content_digest e = vi_signed_content_digest i) [0, 1] slots"
    and "prepare \<lparr>ap_device_digest = mp_device_digest scope, ap_bootloader_digest = mp_bootloader_digest scope,
           ap_trusted_root_digest = mp_trusted_root_digest scope, ap_expected_block0 = mp_expected_block0 scope,
           ap_qualified_image_digests = (case expected of Some images \<Rightarrow> images | None \<Rightarrow> map se_signed_content_digest slots),
           ap_target_epoch = mp_target_epoch scope\<rparr>
         \<lparr>ob_device_digest = dd, ob_bootloader_digest = bd, ob_trusted_root_digest = root, ob_block0 = block0,
           ob_running_slot = rs, ob_slots = slots\<rparr> = Inr change"
  shows "qualified_for R H root SCOPE block0 content expected change"
proof -
  obtain e0 e1 i0 i1 where sl: "slots = [e0, e1]"
    and i: "installed_spec H (rsa_verdict R) 0 root (content 0) = Inr i0" "se_secure_version e0 = vi_secure_version i0"
      "se_signed_content_digest e0 = vi_signed_content_digest i0"
      "installed_spec H (rsa_verdict R) 1 root (content 1) = Inr i1" "se_secure_version e1 = vi_secure_version i1"
      "se_signed_content_digest e1 = vi_signed_content_digest i1"
    using slots by (auto simp: list_all2_Cons1)
  have two: "(\<forall>i < (2 :: nat). P i) \<longleftrightarrow> P 0 \<and> P 1" for P by (auto simp: numeral_2_eq_2 less_Suc_eq)
  note acc = prepare_accepts [OF assms(3)]
  show ?thesis
    unfolding qualified_for_def
    by (rule exI [of _ scope], rule exI [of _ "[i0, i1]"])
      (use acc assms(1) i in \<open>auto simp: sl two Let_def\<close>)
qed

lemma qualify_yields:
  assumes C: "rom_contract enc R mem page" and S: "sha_contract H" and F: "efuse_law E fuses shadow staged"
  shows "yields (qualify enc R E U H root SCOPE descriptor expected) d (\<lambda>r d'. same_device fuses shadow mem d d'
    \<and> (\<forall>q. r = Inr q \<longrightarrow> qualified_for R H root SCOPE (shadow (md_efuse d)) (slot_content mem (md_flash d)) expected (qd_change q)))"
proof -
  let ?same = "same_device fuses shadow mem" and ?c = "slot_content mem (md_flash d)"
  have layout: "yields (on_flash (map_err (\<lambda>_. ME_Image) (qualified_layout enc R descriptor))) x
      (\<lambda>r x'. ?same x x' \<and> (\<forall>l. r = Inr l \<longrightarrow> ql_running_slot l \<le> 1))" for x
    by (rule on_flash_yields, unfold yields_map_err, rule yields_mono [OF qualified_layout_yields [OF C]])
      (auto split: sum.splits)
  have slots: "yields (on_flash (verify_slots enc R H descriptor root [0, 1])) x (\<lambda>r x'. ?same d x'
      \<and> (\<forall>es. r = Inr es \<longrightarrow> list_all2 (\<lambda>slot e. \<exists>i. installed_spec H (rsa_verdict R) slot root (?c slot) = Inr i
         \<and> se_secure_version e = vi_secure_version i \<and> se_signed_content_digest e = vi_signed_content_digest i) [0, 1] es))"
    if "?same d x" for x
  proof -
    have "slot_content mem (md_flash x) = ?c" using that by (simp add: same_device_def)
    with verify_slots_yields [OF C S, of descriptor root "[0, 1]" "md_flash x"]
    have "yields (on_flash (verify_slots enc R H descriptor root [0, 1])) x (\<lambda>r x'. ?same x x'
      \<and> (\<forall>es. r = Inr es \<longrightarrow> list_all2 (\<lambda>slot e. \<exists>i. installed_spec H (rsa_verdict R) slot root (?c slot) = Inr i
         \<and> se_secure_version e = vi_secure_version i \<and> se_signed_content_digest e = vi_signed_content_digest i) [0, 1] es))"
      by (intro on_flash_yields) simp
    then show ?thesis by (rule yields_mono) (use that in \<open>blast intro: same_device_trans\<close>)
  qed
  have other: "\<exists>e. Option.bind (checked_sub 1 slot) (\<lambda>i. index es (unat i)) = Some e"
    if "slot \<le> (1 :: u8)" and "list_all2 P [0, 1 :: u8] es" for slot P and es :: "slot_evidence list"
    using that by (auto simp: word_le_one checked_sub_def index_def list_all2_Cons1)
  have boot: "yields (on_flash (bootloader_ciphertext_digest R H)) x (\<lambda>r x'. ?same x x' \<and> True)" for x
    by (rule on_flash_yields) (simp add: bootloader_yields [OF C])
  note snap = snapshot_yields [OF F, where mem = mem]
  show ?thesis
    unfolding qualify_def
    apply (simp split: option.split prod.split)
    apply (intro allI impI)
    apply (rule yields_bind [OF snap])
     apply simp
    apply clarsimp
    apply (rule yields_bind [OF layout])
     apply (simp add: same_device_trans)
    apply (rule yields_bind [OF slots])
      apply (blast intro: same_device_trans)
     apply (simp add: same_device_trans)
    apply clarsimp
    apply (frule (1) other)
    apply (elim exE)
    apply (simp only: try_then_pure yields_pure from_efuse_yields split: if_split)
    apply (intro conjI impI allI)
      apply simp
     apply simp
    apply (rule yields_bind [OF boot])
     apply (blast intro: same_device_trans)
    apply (simp split: sum.split)
    apply (intro conjI allI impI)
     apply (blast intro: same_device_trans)
    apply (rule yields_bind [OF layout])
     apply (blast intro: same_device_trans)
    apply clarsimp
    apply (rule conjI, blast intro: same_device_trans)
    apply (intro impI, rule yields_bind [OF snap])
     apply simp
    apply clarsimp
    apply (intro conjI impI; blast intro: same_device_trans prepared_qualified)
    done
qed

text \<open>The persistent part of the device: fuses, read registers, images and the per-boot latch.\<close>

definition kept ::
  "('h \<Rightarrow> u32 list) \<Rightarrow> ('h \<Rightarrow> u32 list) \<Rightarrow> ('f \<Rightarrow> nat \<Rightarrow> u8) \<Rightarrow> ('f, 'h, 'k) maintenance_device \<Rightarrow>
   ('f, 'h, 'k) maintenance_device \<Rightarrow> bool" where
  "kept fuses shadow mem d d' \<longleftrightarrow> fuses (md_efuse d') = fuses (md_efuse d)
     \<and> shadow (md_efuse d') = shadow (md_efuse d) \<and> slot_content mem (md_flash d') = slot_content mem (md_flash d)
     \<and> md_attempted d' = md_attempted d"

definition fresh_hold :: "'k wait_hook \<Rightarrow> 'k \<Rightarrow> u64 \<Rightarrow> reading list \<Rightarrow> bool" where
  "fresh_hold W k now readings \<longleftrightarrow> (\<exists>k0 ks n. wh_begin_wait W k = Some k0 \<and> hook_states W k0 readings = Some ks
     \<and> orderly now (saturating_add now 30000) {Fault} (take n (poll_events W ks readings))
     \<and> fresh_gesture Released Pressed 30 5000 True {Uncertain} (take n (poll_events W ks readings)))"

lemma confirm_step_yields:
  assumes W: "waiting_hook W I" and I: "I (md_hook d)"
  shows "yields (confirm_step W now readings) d (\<lambda>r d'. kept fuses shadow mem d d' \<and> I (md_hook d')
    \<and> (\<forall>u. r = Inr u \<longrightarrow> fresh_hold W (md_hook d) now readings))"
proof -
  obtain k0 where k0: "wh_begin_wait W (md_hook d) = Some k0" "I k0" using waiting_hook.begin_ok [OF W I] by blast
  obtain ks where ks: "hook_states W k0 readings = Some ks" using waiting_hook.states_total [OF W k0(2)] by blast
  obtain v hw k where c: "confirm_maintenance_user_presence W (md_hardware d) (md_hook d) now readings = Some (v, hw, k)" "I k"
    using waiting_hook.confirm_spec [OF W I k0(1) ks, of now 30000 True "md_hardware d"]
    by (auto simp: confirm_maintenance_user_presence_def)
  have fresh: "fresh_hold W (md_hook d) now readings" if "v = Some True"
    using waiting_hook.confirm_fresh [OF W I, of "md_hardware d" 30000 True now readings hw k] c that
    by (simp add: confirm_maintenance_user_presence_def fresh_hold_def)
  show ?thesis
    using fresh c by (cases v) (auto simp: yields_def confirm_step_def kept_def Let_def split: bool.splits)
qed

lemma poll_step_yields:
  assumes "waiting_hook W I" and "I (md_hook d)"
  shows "yields (poll_step W) d (\<lambda>r d'. kept fuses shadow mem d d' \<and> (\<exists>c. r = Inr c))"
proof -
  obtain k where "wh_poll_wait W (md_hook d) = Some k" using waiting_hook.poll_ok [OF assms] by blast
  then show ?thesis by (simp add: yields_def poll_step_def kept_def)
qed

lemma kept_trans: "kept fuses shadow mem d d1 \<Longrightarrow> kept fuses shadow mem d1 d2 \<Longrightarrow> kept fuses shadow mem d d2"
  by (simp add: kept_def)

lemma same_device_kept: "same_device fuses shadow mem d d' \<Longrightarrow> kept fuses shadow mem d d' \<and> md_hook d' = md_hook d"
  by (simp add: same_device_def kept_def)

lemma approved_yields:
  assumes C: "rom_contract enc R mem page" and S: "sha_contract H" and F: "efuse_law E fuses shadow staged"
    and W: "waiting_hook W I" "I (md_hook d)"
  shows "yields (approved_qualification enc R E U H root SCOPE W now readings descriptor expected) d (\<lambda>r d'.
    kept fuses shadow mem d d' \<and> (\<forall>q. r = Inr q \<longrightarrow>
      qualified_for R H root SCOPE (shadow (md_efuse d)) (slot_content mem (md_flash d)) expected (qd_change q)
      \<and> (expected \<noteq> None \<longrightarrow> fresh_hold W (md_hook d) now readings)))"
proof -
  let ?kept = "kept fuses shadow mem"
  have qual: "yields (map_err (\<lambda>e. Stopped e 0) (qualify enc R E U H root SCOPE descriptor ex)) x (\<lambda>r x'.
      ?kept x x' \<and> md_hook x' = md_hook x \<and> (\<forall>q. r = Inr q \<longrightarrow>
        qualified_for R H root SCOPE (shadow (md_efuse x)) (slot_content mem (md_flash x)) ex (qd_change q)))" for x ex
    unfolding yields_map_err
    by (rule yields_mono [OF qualify_yields [OF C S F]]) (auto dest: same_device_kept split: sum.splits)
  show ?thesis
    unfolding approved_qualification_def
    apply (rule yields_bind [OF qual])
     apply simp
    apply (cases expected)
     apply simp
    apply clarsimp
    apply (rule yields_bind [OF confirm_step_yields [OF W(1), where fuses = fuses and shadow = shadow and mem = mem]])
      apply (simp add: W(2))
     apply (auto intro: kept_trans)[1]
    apply clarsimp
    apply (rule yields_bind [OF qual])
     apply (auto intro: kept_trans)[1]
    apply (simp, intro conjI impI)
     apply (blast intro: kept_trans)
    apply (rule yields_bind [OF poll_step_yields [OF W(1), where fuses = fuses and shadow = shadow and mem = mem]])
      apply simp
     apply simp
    apply (clarsimp, intro conjI impI)
      apply (blast intro: kept_trans)
     apply (blast intro: kept_trans)
    apply (simp add: kept_def)
    done
qed

lemma program_step_yields:
  assumes "efuse_law E fuses shadow staged" and "exact_change block0 target c" and "length (fuses (md_efuse d)) = 6"
  shows "yields (program_step E c) d (\<lambda>r d'. slot_content mem (md_flash d') = slot_content mem (md_flash d) \<and> md_attempted d'
    \<and> (fuses (md_efuse d') \<noteq> fuses (md_efuse d) \<longrightarrow> \<not> md_attempted d \<and> fuses (md_efuse d) = block0
        \<and> (\<exists>x. x AND NOT (push_bit 11 (ucast (pc_delta c))) = 0
             \<and> fuses (md_efuse d') = (fuses (md_efuse d))[4 := fuses (md_efuse d) ! 4 OR x]))
    \<and> (\<forall>u. r = Inr u \<longrightarrow> fuses (md_efuse d') = pc_after c))"
  using programmer_attempt_law [OF assms, of "md_attempted d"]
  by (auto simp: yields_def program_step_def Let_def simp del: push_bit_of_1 split: sum.splits)

lemma maintenance_report_total:
  assumes "length output = 64" and "length plan_digest = 32"
  shows "\<exists>out. maintenance_report output plan_digest cmd q hz = Some out \<and> length out = 64 \<and> out ! 4 = output ! 4"
  using assms
  by (simp add: maintenance_report_def store_def copy_from_slice_def to_le32_def to_le16_def nth_append)

text \<open>The only way a request may change fuses.\<close>

definition approved_burn ::
  "'f rom \<Rightarrow> 'x sha256 \<Rightarrow> bytes \<Rightarrow> bytes \<Rightarrow> 'k wait_hook \<Rightarrow> u64 \<Rightarrow> reading list \<Rightarrow> bytes \<Rightarrow> phase \<Rightarrow> ('h \<Rightarrow> u32 list) \<Rightarrow>
   ('f \<Rightarrow> nat \<Rightarrow> u8) \<Rightarrow> ('f, 'h, 'k) maintenance_device \<Rightarrow> ('f, 'h, 'k) maintenance_device \<Rightarrow> bool" where
  "approved_burn R H root SCOPE W now readings request ph fuses mem d d' \<longleftrightarrow>
     ph = Ph_Idle \<and> \<not> md_attempted d \<and> md_attempted d' \<and> fresh_hold W (md_hook d) now readings
     \<and> (\<exists>a b change x. request = PROGRAM # sha_digest H SCOPE @ a @ b \<and> length a = 32 \<and> length b = 32
          \<and> qualified_for R H root SCOPE (fuses (md_efuse d)) (slot_content mem (md_flash d)) (Some [a, b]) change
          \<and> x AND NOT (push_bit 11 (ucast (pc_delta change))) = 0
          \<and> fuses (md_efuse d') = (fuses (md_efuse d))[4 := fuses (md_efuse d) ! 4 OR x])"

lemma requested_images_cases:
  assumes "requested_images request digest = Some expected" and "length digest = 32"
  shows "\<exists>cmd rest. request = cmd # rest \<and> (cmd = PROGRAM \<longrightarrow> (\<exists>a b. expected = Some [a, b]
    \<and> request = PROGRAM # digest @ a @ b \<and> length a = 32 \<and> length b = 32))"
proof (cases expected)
  case None
  with assms(1) show ?thesis by (auto simp: requested_images_def PROGRAM_def split: if_splits)
next
  case (Some images)
  then obtain a b where ab: "images = [a, b]" using assms(1) by (auto simp: requested_images_def split: if_splits)
  with Some assms requested_images_iff [OF assms(2), of request a b] show ?thesis by (auto simp: PROGRAM_def)
qed

lemma approved_burn_cong:
  "fuses (md_efuse d3) = fuses (md_efuse d2) \<Longrightarrow> md_attempted d3 = md_attempted d2 \<Longrightarrow>
   approved_burn R H root SCOPE W now readings request ph fuses mem d d3
   = approved_burn R H root SCOPE W now readings request ph fuses mem d d2"
  by (simp add: approved_burn_def)

lemma apb_yields:
  assumes "efuse_law E fuses shadow staged"
  shows "yields (on_efuse (er_apb_hz E)) d (\<lambda>r d'. fuses (md_efuse d') = fuses (md_efuse d) \<and> md_flash d' = md_flash d
    \<and> md_attempted d' = md_attempted d \<and> (\<exists>hz. r = Inr hz))"
proof -
  obtain hz h where "er_apb_hz E (md_efuse d) = (hz, h)" by (meson surj_pair)
  moreover from this have "fuses h = fuses (md_efuse d)" using assms unfolding efuse_law_def by blast
  ultimately show ?thesis by (simp add: yields_def on_efuse_def)
qed

lemma commanded_program_yields:
  assumes F: "efuse_law E fuses shadow staged" and k: "kept fuses shadow mem d d1"
    and q: "qualified_for R H root SCOPE (shadow (md_efuse d)) (slot_content mem (md_flash d)) expected (qd_change q)"
    and fresh: "expected \<noteq> None \<longrightarrow> fresh_hold W (md_hook d) now readings"
    and req: "request = cmd # rest" "cmd = PROGRAM \<longrightarrow> (\<exists>a b. expected = Some [a, b]
        \<and> request = PROGRAM # sha_digest H SCOPE @ a @ b \<and> length a = 32 \<and> length b = 32)"
    and ph: "ph = Ph_Idle" and len: "length (fuses (md_efuse d)) = 6"
  shows "yields (if cmd = PROGRAM then program_step E (qd_change q) else rust_ok ()) d1 (\<lambda>r d2.
      slot_content mem (md_flash d2) = slot_content mem (md_flash d)
      \<and> (fuses (md_efuse d2) = fuses (md_efuse d) \<or> approved_burn R H root SCOPE W now readings request ph fuses mem d d2)
      \<and> (\<forall>u. r = Inr u \<longrightarrow> hd request = PROGRAM \<longrightarrow> (\<exists>scope c. plan_decode SCOPE = Some scope
         \<and> exact_change (mp_expected_block0 scope) (mp_target_epoch scope) c \<and> fuses (md_efuse d2) = pc_after c)))"
    (is "yields _ d1 ?Q")
proof (cases "cmd = PROGRAM")
  case False
  with k req show ?thesis by (simp add: kept_def)
next
  case True
  with req obtain a b where ab: "expected = Some [a, b]" "request = PROGRAM # sha_digest H SCOPE @ a @ b"
    "length a = 32" "length b = 32" by blast
  obtain scope where scope: "plan_decode SCOPE = Some scope" "mp_expected_block0 scope = shadow (md_efuse d)"
    and ex: "exact_change (shadow (md_efuse d)) (mp_target_epoch scope) (qd_change q)"
    using q by (auto simp: qualified_for_def)
  have len1: "length (fuses (md_efuse d1)) = 6" using k len by (simp add: kept_def)
  have "yields (program_step E (qd_change q)) d1 ?Q"
    by (rule yields_mono [OF program_step_yields [OF F ex len1, where mem = mem]])
      (use k q fresh ab ph scope ex in \<open>auto simp: kept_def approved_burn_def simp del: push_bit_of_1\<close>, blast+)
  with True show ?thesis by simp
qed

lemma maintenance_run_yields:
  assumes C: "rom_contract enc R mem page" and S: "sha_contract H" and F: "efuse_law E fuses shadow staged"
    and W: "waiting_hook W I" "I (md_hook d)" and len: "length (sha_digest H SCOPE) = 32" "length output = 64" "length (fuses (md_efuse d)) = 6"
  shows "yields (maintenance_run enc R E U H root SCOPE W now readings request descriptor ph output) d (\<lambda>r d'.
    slot_content mem (md_flash d') = slot_content mem (md_flash d)
    \<and> (fuses (md_efuse d') = fuses (md_efuse d)
        \<or> approved_burn R H root SCOPE W now readings request ph fuses mem d d')
    \<and> (\<forall>out. r = Inr out \<longrightarrow> length out = 64 \<and> out ! 4 = output ! 4
        \<and> (hd request = PROGRAM \<longrightarrow> (\<exists>scope c. plan_decode SCOPE = Some scope
             \<and> exact_change (mp_expected_block0 scope) (mp_target_epoch scope) c \<and> fuses (md_efuse d') = pc_after c))))"
    (is "yields _ d ?Q")
proof -
  have "yields (try_then (approved_qualification enc R E U H root SCOPE W now readings descriptor expected) (\<lambda>q.
     try_then (or_panic (index request 0)) (\<lambda>cmd.
     try_then (if cmd = PROGRAM then program_step E (qd_change q) else rust_ok ()) (\<lambda>_.
     try_then (on_efuse (er_apb_hz E)) (\<lambda>hz.
     or_panic (maintenance_report output (sha_digest H SCOPE) cmd q hz)))))) d ?Q"
    if ph: "ph = Ph_Idle" and ri: "requested_images request (sha_digest H SCOPE) = Some expected" for expected
  proof (rule yields_bind [OF approved_yields [OF C S F W]], (auto simp: kept_def)[1])
    fix q :: qualified_change and d1
    assume "kept fuses shadow mem d d1 \<and> (\<forall>q'. (Inr q :: maintenance_stop + _) = Inr q' \<longrightarrow>
      qualified_for R H root SCOPE (shadow (md_efuse d)) (slot_content mem (md_flash d)) expected (qd_change q')
      \<and> (expected \<noteq> None \<longrightarrow> fresh_hold W (md_hook d) now readings))"
    then have k: "kept fuses shadow mem d d1"
      and q: "qualified_for R H root SCOPE (shadow (md_efuse d)) (slot_content mem (md_flash d)) expected (qd_change q)"
      and fresh: "expected \<noteq> None \<longrightarrow> fresh_hold W (md_hook d) now readings" by auto
    obtain cmd rest where req: "request = cmd # rest" and prog: "cmd = PROGRAM \<longrightarrow> (\<exists>a b. expected = Some [a, b]
        \<and> request = PROGRAM # sha_digest H SCOPE @ a @ b \<and> length a = 32 \<and> length b = 32)"
      using requested_images_cases [OF ri len(1)] by blast
    show "yields (try_then (or_panic (index request 0)) (\<lambda>cmd.
     try_then (if cmd = PROGRAM then program_step E (qd_change q) else rust_ok ()) (\<lambda>_.
     try_then (on_efuse (er_apb_hz E)) (\<lambda>hz.
     or_panic (maintenance_report output (sha_digest H SCOPE) cmd q hz))))) d1 ?Q"
    proof -
      note prg = commanded_program_yields [OF F k q fresh req prog ph len(3)]
      have idx: "index request 0 = Some cmd" by (simp add: req index_def)
      show ?thesis
        unfolding idx try_then_pure
        apply (rule yields_bind [OF prg])
         apply simp
        apply (rule yields_bind [OF apb_yields [OF F]])
         apply simp
        subgoal for u d2 hz d3
          using maintenance_report_total [OF len(2,1), of cmd q hz]
          by (elim conjE exE) (simp add: approved_burn_cong [of fuses d3 d2])
        done
    qed
  qed
  then show ?thesis
    unfolding maintenance_run_def by (auto split: option.split)
qed

text \<open>The answers of the two read-only requests.\<close>

lemma security_status_total:
  assumes "length output = 64"
  shows "\<exists>out. security_status_encode s output = Some (32, out) \<and> length out = 64 \<and> out ! 0 = 0x52"
  using assms
  by (simp add: security_status_encode_def SECURITY_STATUS_RESPONSE_SIZE_def store_def copy_from_slice_def zeroize_def
      to_le32_def to_le16_def nth_append)

lemma preview_encode_total:
  assumes "length output = 64" and "\<forall>layout img. result = Inr (layout, img) \<longrightarrow> length (vi_signed_content_digest img) = 32"
  shows "\<exists>out. preview_encode slot result output = Some (64, out) \<and> length out = 64 \<and> out ! 0 = 0x52
    \<and> out ! 4 = (case result of Inl e \<Rightarrow> preview_number e | Inr _ \<Rightarrow> 0) \<and> out ! 5 = slot
    \<and> (\<forall>layout img. result = Inr (layout, img) \<longrightarrow> out ! 6 = ql_running_slot layout
        \<and> take 4 (drop 8 out) = to_le32 (vi_secure_version img) \<and> take 32 (drop 16 out) = vi_signed_content_digest img)"
proof (cases result)
  case (Inl e)
  with assms(1) show ?thesis
    by (simp add: preview_encode_def PREVIEW_RESPONSE_SIZE_def store_def copy_from_slice_def zeroize_def nth_append)
next
  case (Inr x)
  then obtain layout img where x: "x = (layout, img)" by (cases x)
  with Inr assms have "length (vi_signed_content_digest img) = 32" by simp
  with assms(1) Inr x show ?thesis
    by (simp add: preview_encode_def PREVIEW_RESPONSE_SIZE_def store_def copy_from_slice_def zeroize_def to_le32_def
        nth_append drop_Cons' )
qed

lemma installed_digest: "installed_spec H rsa slot key img = Inr i \<Longrightarrow> \<exists>x. vi_signed_content_digest i = sha_digest H x"
  by (auto simp: installed_spec_def signature_spec_def Let_def split: if_splits option.splits sum.splits)

lemma preview_check_yields:
  assumes C: "rom_contract enc R mem page" and S: "sha_contract H"
  shows "yields (preview_check enc R H root descriptor slot) s (\<lambda>r s'. slot_content mem s' = slot_content mem s
    \<and> (\<forall>layout img. r = Inr (layout, img) \<longrightarrow> ql_running_slot layout \<le> 1
         \<and> installed_spec H (rsa_verdict R) slot root (slot_content mem s slot) = Inr img))"
proof -
  have layout: "yields (map_err (\<lambda>_. PV_Layout) (qualified_layout enc R descriptor)) x
      (\<lambda>r x'. slot_content mem x' = slot_content mem x \<and> (\<forall>l. r = Inr l \<longrightarrow> ql_running_slot l \<le> 1))" for x
    unfolding yields_map_err by (rule yields_mono [OF qualified_layout_yields [OF C]]) (auto split: sum.splits)
  note img = verified_slot_yields [OF C S, where g = "\<lambda>_. PV_Image" and descriptor = descriptor and slot = slot and root = root]
  show ?thesis
    unfolding preview_check_def
    apply (rule yields_bind [OF layout], simp)
    apply (rule yields_bind [OF img], simp)
    apply (rule yields_bind [OF layout], simp, simp)
    done
qed

text \<open>A device of the two simulated controllers, and a hash that keeps 32 bytes of its input.\<close>

definition short_sha :: "bytes sha256" where
  "short_sha = \<lparr>sha_new = [], sha_update = (@), sha_finalize = \<lambda>x. take 32 (x @ replicate 32 0)\<rparr>"

lemma short_sha_contract: "sha_contract short_sha" and short_sha_length: "length (sha_digest short_sha x) = 32"
proof -
  have "foldl (@) acc cs = acc @ concat cs" for acc :: bytes and cs by (induction cs arbitrary: acc) simp_all
  then show "sha_contract short_sha" by (simp add: sha_contract_def sha_digest_def short_sha_def)
qed (simp add: sha_digest_def short_sha_def)

definition ram_hal :: "(u32 list \<times> u32 list \<times> u32 list) efuse_hal" where
  "ram_hal = \<lparr>eh_read_bit = \<lambda>h f. False, eh_read_field_u8 = \<lambda>h f. 0, eh_read_field_u16 = \<lambda>h f. 0,
     eh_read_field_u32 = \<lambda>h f. 0, eh_major_chip_version = \<lambda>h. 1, eh_minor_chip_version = \<lambda>h. 0,
     eh_base_mac_address = \<lambda>h. [1, 2, 3, 4, 5, 6]\<rparr>"

definition example_flash :: "ram_hw fe_state" where
  "example_flash = \<lparr>fe_initialized = False, fe_hw = \<lparr>rh_mem = \<lambda>_. 0xff, rh_page = \<lambda>_. None\<rparr>\<rparr>"

definition example_device :: "(ram_hw, u32 list \<times> u32 list \<times> u32 list, nat) maintenance_device" where
  "example_device = \<lparr>md_flash = example_flash, md_attempted = False, md_efuse = (example_block0, [], []),
     md_hardware = hardware_new, md_hook = 0\<rparr>"

section \<open>Properties\<close>

text \<open>
  C6. Irreversible maintenance is approved or does nothing. Whatever the request, the handler
  does not panic, the installed images stay as they are, and the eFuses change only when the
  updater is idle, this boot has not programmed before, the request is the programming command
  under the digest of the embedded plan with two image digests, both slots hold authentic
  images of exactly these digests at or above the target epoch, BLOCK0 is the approved one, and
  a release, a five-second hold and a release were observed after the request; then only bits
  of the prepared counter change can be set. A successful answer to the programming command
  means the counter has the planned value.
\<close>

theorem maintenance_burns_only_when_approved:
  assumes "rom_contract enc R mem page" and "sha_contract H" and "efuse_law E fuses shadow staged"
    and "waiting_hook W I" and "I (md_hook d)" and "length (sha_digest H SCOPE) = 32" and "length output = 64" and "length (fuses (md_efuse d)) = 6"
  shows "\<exists>reply d'. maintenance_handle enc R E U H root SCOPE W now readings request descriptor ph output d = Some (reply, d')
    \<and> slot_content mem (md_flash d') = slot_content mem (md_flash d)
    \<and> (fuses (md_efuse d') = fuses (md_efuse d)
        \<or> approved_burn R H root SCOPE W now readings request ph fuses mem d d')
    \<and> (\<forall>n out. reply = Returns (Some (n, out)) \<longrightarrow> n = 64 \<and> length out = 64
        \<and> (out ! 4 = 0 \<and> hd request = PROGRAM \<longrightarrow> (\<exists>scope c. plan_decode SCOPE = Some scope
             \<and> exact_change (mp_expected_block0 scope) (mp_target_epoch scope) c \<and> fuses (md_efuse d') = pc_after c)))"
proof (cases "request = [] \<or> hd request \<notin> {INSPECT, PROGRAM, REHEARSE}")
  case False
  let ?out = "[0x52, 0x4b, 0x4d, 0x31] @ replicate 60 0 :: bytes"
  have out: "copy_from_slice (zeroize output) 0 4 [0x52, 0x4b, 0x4d, 0x31] = Some ?out"
    using assms(7) by (simp add: copy_from_slice_def zeroize_def)
  have len: "length ?out = 64" by simp
  obtain r d' where run: "maintenance_run enc R E U H root SCOPE W now readings request descriptor ph ?out d = Some (r, d')"
    and post: "slot_content mem (md_flash d') = slot_content mem (md_flash d)"
      "fuses (md_efuse d') = fuses (md_efuse d) \<or> approved_burn R H root SCOPE W now readings request ph fuses mem d d'"
      "\<forall>o'. r = Inr o' \<longrightarrow> length o' = 64 \<and> (hd request = PROGRAM \<longrightarrow> (\<exists>scope c. plan_decode SCOPE = Some scope
         \<and> exact_change (mp_expected_block0 scope) (mp_target_epoch scope) c \<and> fuses (md_efuse d') = pc_after c))"
    using maintenance_run_yields [OF assms(1-6) len assms(8), of U root now readings request descriptor ph]
    unfolding yields_def by blast
  have number: "maintenance_number e \<noteq> 0" for e by (cases e) auto
  show ?thesis
  proof (cases r)
    case (Inl stop)
    with False out run post number show ?thesis
      by (cases stop) (auto simp: maintenance_handle_def store_def)
  next
    case (Inr o')
    with False out run post show ?thesis by (auto simp: maintenance_handle_def)
  qed
qed (simp add: maintenance_handle_def)

theorem maintenance_burns_only_when_approved_witness:
  "\<exists>reply d'. maintenance_handle False ram_rom ram_efuse ram_hal short_sha [] [1] counting_hook 0 [(50, False)]
      [0x13] 0x3f000020 Ph_Idle (replicate 64 9) example_device = Some (reply, d')
    \<and> slot_content rh_mem (md_flash d') = slot_content rh_mem (md_flash example_device)
    \<and> pad 6 (fst (md_efuse d')) = example_block0"
proof -
  have "length (pad 6 (fst (md_efuse example_device))) = 6" by simp
  from maintenance_burns_only_when_approved [OF ram_rom_contract [of False] short_sha_contract ram_efuse_law
      counting.waiting_hook_axioms TrueI short_sha_length [of "[1]"] _ this,
      of "replicate 64 9" ram_hal "[]" 0 "[(50, False)]" "[0x13]" "0x3f000020" Ph_Idle]
  show ?thesis by (auto simp: approved_burn_def PROGRAM_def example_device_def example_block0_def pad_def)
qed

text \<open>
  C35. The preview of a slot is read-only and reports authentic images only. Whatever the request,
  the handler does not panic and the installed images stay as they are; an answer without an
  error code was asked for one of the two slots while no update was in progress, and names the
  digest and the security version of the image the whole-image specification accepts there.
\<close>

theorem preview_reports_authentic_image:
  assumes "rom_contract enc R mem page" and "sha_contract H" and "\<forall>x. length (sha_digest H x) = 32"
    and "length output = 64"
  shows "\<exists>reply s'. preview_handle enc R H root request descriptor ph output s = Some (reply, s')
    \<and> slot_content mem s' = slot_content mem s
    \<and> (\<forall>n out. reply = Some (n, out) \<longrightarrow> n = 64 \<and> length out = 64
        \<and> (out ! 4 = 0 \<longrightarrow> ph = Ph_Idle \<and> (\<exists>slot img. request = [0x12, slot] \<and> slot \<le> 1 \<and> out ! 5 = slot
             \<and> installed_spec H (rsa_verdict R) slot root (slot_content mem s slot) = Inr img
             \<and> take 4 (drop 8 out) = to_le32 (vi_secure_version img)
             \<and> take 32 (drop 16 out) = vi_signed_content_digest img)))"
proof (cases "request = [] \<or> hd request \<noteq> PREVIEW_REQUEST")
  case False
  have number: "preview_number e \<noteq> 0" for e by (cases e) auto
  show ?thesis
  proof (cases "requested_slot request ph")
    case (Inl e)
    with False preview_encode_total [OF assms(4), of "Inl e" "- 1"] number show ?thesis
      by (auto simp: preview_handle_def)
  next
    case (Inr slot)
    then have req: "request = [0x12, slot]" "slot \<le> 1" "ph = Ph_Idle"
      by (auto simp: requested_slot_def PREVIEW_REQUEST_def numeral_2_eq_2 length_Suc_conv not_less split: if_splits)
    obtain r s' where chk: "preview_check enc R H root descriptor slot s = Some (r, s')"
      "slot_content mem s' = slot_content mem s"
      and img: "\<And>layout img. r = Inr (layout, img) \<Longrightarrow>
        installed_spec H (rsa_verdict R) slot root (slot_content mem s slot) = Inr img"
      using preview_check_yields [OF assms(1,2), of root descriptor slot s] unfolding yields_def by blast
    have "\<forall>l i. r = Inr (l, i) \<longrightarrow> length (vi_signed_content_digest i) = 32"
      using installed_digest [OF img] assms(3) by fastforce
    from preview_encode_total [OF assms(4) this, where slot = slot] obtain out where
      out: "preview_encode slot r output = Some (64, out)" "length out = 64"
        "out ! 4 = (case r of Inl e \<Rightarrow> preview_number e | Inr _ \<Rightarrow> 0)" "out ! 5 = slot"
        "\<forall>l i. r = Inr (l, i) \<longrightarrow> take 4 (drop 8 out) = to_le32 (vi_secure_version i)
          \<and> take 32 (drop 16 out) = vi_signed_content_digest i"
      by blast
    show ?thesis
      using False Inr chk img out req number by (cases r) (auto simp: preview_handle_def)
  qed
qed (simp add: preview_handle_def)

theorem preview_reports_authentic_image_witness:
  "\<exists>reply s'. preview_handle True ram_rom short_sha [] [0x12, 1] 0x3f000020 Ph_Idle (replicate 64 0) example_flash
      = Some (reply, s') \<and> slot_content rh_mem s' = slot_content rh_mem example_flash"
  using preview_reports_authentic_image [OF ram_rom_contract [of True] short_sha_contract, of "replicate 64 0" "[]"
      "[0x12, 1]" "0x3f000020" Ph_Idle example_flash] short_sha_length by auto

end
