(* ===== verification/Memory_Protection.thy ===== *)
theory Memory_Protection
  imports Salpa_Prelude
begin

text \<open>
  \<^verbatim>\<open>src/platform/memory_protection.rs\<close>: the SRAM permission policy of the ESP32-S2 PMS
  peripheral, its installation and the status report. The \<open>Registers\<close> trait is a record of
  functions on the state of the peripheral; nothing is assumed of it except where a theorem
  names \<open>register_law\<close>, the documented behaviour of the registers. The linker symbols are
  arguments, and binding the fault handlers belongs to the hardware abstraction crate.
\<close>

unbundle bit_operations_syntax

section \<open>Definitions\<close>

definition MP_REQUEST :: u8 where "MP_REQUEST = 0x16"
definition MP_RESPONSE_SIZE :: nat where "MP_RESPONSE_SIZE = 64"
definition SRAM_ALIAS_OFFSET :: u32 where "SRAM_ALIAS_OFFSET = 0x70000"
definition MIN_IRAM_SPLIT :: u32 where "MIN_IRAM_SPLIT = 0x40028000"
definition MAX_IRAM_SPLIT :: u32 where "MAX_IRAM_SPLIT = 0x40050000"

definition LOCKS :: "nat list" where "LOCKS = [0x10, 0x28, 0x3c, 0x5c]"
definition MONITORS :: "nat list" where "MONITORS = [0x20, 0x34, 0x54, 0x68]"
definition PERMISSIONS :: "(nat \<times> u32) list" where
  "PERMISSIONS = [(0x14, 0xfff), (0x18, 0x7fffff), (0x1c, 0x1ffff), (0x2c, 0x1fffffff),
     (0x30, 0x7fff), (0x40, 0xfffe), (0x60, 0x1ffff), (0x64, 0x1ffff)]"

datatype mp_error = MP_Layout | MP_LockedPolicy | MP_Readback

record policy =
  pl_iram_end :: u32
  pl_data_start :: u32
  pl_values :: "u32 list"

definition policy_new :: "u32 \<Rightarrow> u32 \<Rightarrow> mp_error + policy" where
  "policy_new iram_end data_start =
     (if \<not> (MIN_IRAM_SPLIT \<le> iram_end \<and> iram_end < MAX_IRAM_SPLIT) \<or> iram_end mod 4 \<noteq> 0
         \<or> checked_sub iram_end SRAM_ALIAS_OFFSET \<noteq> Some data_start
      then Inl MP_Layout
      else Inr \<lparr>pl_iram_end = iram_end, pl_data_start = data_start, pl_values = [
        0x6db,
        (drop_bit 2 iram_end AND 0x1ffff) OR push_bit 18 1 OR push_bit 17 1,
        0,
        0x55 OR push_bit 8 (drop_bit 2 data_start AND 0x1ffff) OR push_bit 25 1 OR push_bit 27 1 OR push_bit 28 1,
        0x7800,
        0,
        push_bit 16 1 OR push_bit 15 1 OR push_bit 13 1 OR push_bit 12 1,
        0]\<rparr>)"

record 'r registers =
  rg_read :: "'r \<Rightarrow> nat \<Rightarrow> u32"
  rg_write :: "'r \<Rightarrow> nat \<Rightarrow> u32 \<Rightarrow> 'r"

definition replace_bits :: "'r registers \<Rightarrow> nat \<Rightarrow> u32 \<Rightarrow> u32 \<Rightarrow> 'r \<Rightarrow> 'r" where
  "replace_bits R offset m v r =
     (let previous = rg_read R r offset in rg_write R r offset ((previous AND NOT m) OR (v AND m)))"

definition matches_policy :: "'r registers \<Rightarrow> 'r \<Rightarrow> policy \<Rightarrow> bool" where
  "matches_policy R r p \<longleftrightarrow>
     list_all (\<lambda>((offset, m), expected). rg_read R r offset AND m = expected) (zip PERMISSIONS (pl_values p))
     \<and> list_all (\<lambda>offset. rg_read R r offset AND 7 = 2) MONITORS"

definition clear_monitors :: "'r registers \<Rightarrow> 'r \<Rightarrow> 'r" where
  "clear_monitors R r = fold (\<lambda>offset r. replace_bits R offset 3 0 (replace_bits R offset 3 1 r)) MONITORS r"

definition install_permissions :: "'r registers \<Rightarrow> policy \<Rightarrow> 'r \<Rightarrow> 'r" where
  "install_permissions R p r =
     fold (\<lambda>((offset, m), v). replace_bits R offset m v) (zip PERMISSIONS (pl_values p)) r"

definition enable_monitors :: "'r registers \<Rightarrow> 'r \<Rightarrow> 'r" where
  "enable_monitors R r = fold (\<lambda>offset. replace_bits R offset 3 2) MONITORS r"

definition write_locks :: "'r registers \<Rightarrow> 'r \<Rightarrow> 'r" where
  "write_locks R r = fold (\<lambda>offset r. rg_write R r offset 1) LOCKS r"

definition configure :: "'r registers \<Rightarrow> policy \<Rightarrow> 'r \<Rightarrow> (mp_error + unit) \<times> 'r" where
  "configure R p r =
     (if list_ex (\<lambda>offset. rg_read R r offset AND 1 \<noteq> 0) LOCKS then
        (if list_all (\<lambda>offset. rg_read R r offset AND 1 \<noteq> 0) LOCKS \<and> matches_policy R r p
         then (Inr (), r) else (Inl MP_LockedPolicy, r))
      else
        let r = clear_monitors R r;
          r = install_permissions R p r;
          r = enable_monitors R r
        in
        if \<not> matches_policy R r p then (Inl MP_Readback, r)
        else
          let r = write_locks R r in
          if \<not> list_all (\<lambda>offset. rg_read R r offset AND 1 = 1) LOCKS \<or> \<not> matches_policy R r p
          then (Inl MP_Readback, r) else (Inr (), r))"

text \<open>The three flag bytes of the report: bit \<open>i\<close> is a bit of the i-th listed register.\<close>

definition flag_byte :: "'r registers \<Rightarrow> 'r \<Rightarrow> nat \<Rightarrow> nat list \<Rightarrow> u8" where
  "flag_byte R r n offsets =
     fold (\<lambda>(i, offset) b. b OR push_bit i (ucast (drop_bit n (rg_read R r offset) AND 1))) (enumerate 0 offsets) 0"

definition encode_status :: "'r registers \<Rightarrow> 'r \<Rightarrow> policy \<Rightarrow> bytes \<Rightarrow> (nat \<times> bytes) option" where
  "encode_status R r p output =
     (if length output < MP_RESPONSE_SIZE then None
      else Some (MP_RESPONSE_SIZE,
        [0x52, 0x4b, 0x4d, 0x50, 1, flag_byte R r 0 LOCKS, flag_byte R r 1 MONITORS, flag_byte R r 2 MONITORS]
        @ to_le32 (pl_iram_end p) @ to_le32 (pl_data_start p)
        @ concat (map (\<lambda>(offset, m). to_le32 (rg_read R r offset AND m)) PERMISSIONS)
        @ replicate (length output - 48) 0))"

definition mp_initialize :: "'r registers \<Rightarrow> u32 \<Rightarrow> u32 \<Rightarrow> 'r \<Rightarrow> (mp_error + unit) \<times> 'r" where
  "mp_initialize R iram_end data_start r = (case policy_new iram_end data_start of
       Inl e \<Rightarrow> (Inl e, r)
     | Inr p \<Rightarrow> configure R p r)"

definition mp_status :: "'r registers \<Rightarrow> u32 \<Rightarrow> u32 \<Rightarrow> 'r \<Rightarrow> bytes \<Rightarrow> (nat \<times> bytes) option" where
  "mp_status R iram_end data_start r output = (case policy_new iram_end data_start of
       Inl _ \<Rightarrow> None
     | Inr p \<Rightarrow> encode_status R r p output)"

section \<open>What the permission registers allow\<close>

text \<open>
  The documented fields, read back from the registers: a write/read/fetch triple per instruction
  bus region and a write/read pair per data bus region, for the four coarse SRAM blocks, the
  fine SRAM below and above the split, and the RTC memories. A region is executable when a
  fetch is allowed through some alias, writable when a write is.
\<close>

datatype region = Sram_Block nat | Sram_Low | Sram_High | Rtc_Fast | Rtc_Slow

definition permission :: "'r registers \<Rightarrow> 'r \<Rightarrow> nat \<Rightarrow> u32" where
  "permission R r i = rg_read R r (fst (PERMISSIONS ! i)) AND snd (PERMISSIONS ! i)"

fun executable :: "'r registers \<Rightarrow> 'r \<Rightarrow> region \<Rightarrow> bool" where
  "executable R r (Sram_Block b) = bit (permission R r 0) (3 * b)"
| "executable R r Sram_Low = bit (permission R r 1) 17"
| "executable R r Sram_High = bit (permission R r 1) 20"
| "executable R r Rtc_Fast = (permission R r 2 \<noteq> 0)"
| "executable R r Rtc_Slow = (bit (permission R r 6) 11 \<or> bit (permission R r 6) 14
     \<or> permission R r 5 \<noteq> 0 \<or> permission R r 7 \<noteq> 0)"

fun writable :: "'r registers \<Rightarrow> 'r \<Rightarrow> region \<Rightarrow> bool" where
  "writable R r (Sram_Block b) = (bit (permission R r 0) (3 * b + 2) \<or> bit (permission R r 3) (2 * b + 1))"
| "writable R r Sram_Low = (bit (permission R r 1) 19 \<or> bit (permission R r 3) 26)"
| "writable R r Sram_High = (bit (permission R r 1) 22 \<or> bit (permission R r 3) 28)"
| "writable R r Rtc_Fast = (bit (permission R r 4) 12 \<or> bit (permission R r 4) 14)"
| "writable R r Rtc_Slow = (bit (permission R r 6) 13 \<or> bit (permission R r 6) 16)"

definition sram_region :: "region \<Rightarrow> bool" where
  "sram_region a = (case a of Sram_Block b \<Rightarrow> b < 4 | _ \<Rightarrow> True)"

section \<open>Lemmas\<close>

lemma policy_new_values:
  assumes "policy_new ie ds = Inr p"
  shows "pl_iram_end p = ie" and "pl_data_start p = ds" and "length (pl_values p) = 8"
    and "0x40028000 \<le> unat ie" and "unat ie < 0x40050000" and "unat ie mod 4 = 0" and "unat ds = unat ie - 0x70000"
    and "pl_values p = [0x6db, (drop_bit 2 ie AND 0x1ffff) OR push_bit 18 1 OR push_bit 17 1, 0,
        0x55 OR push_bit 8 (drop_bit 2 ds AND 0x1ffff) OR push_bit 25 1 OR push_bit 27 1 OR push_bit 28 1,
        0x7800, 0, push_bit 16 1 OR push_bit 15 1 OR push_bit 13 1 OR push_bit 12 1, 0]"
proof -
  have c: "MIN_IRAM_SPLIT \<le> ie" "ie < MAX_IRAM_SPLIT" "ie mod 4 = 0" "checked_sub ie SRAM_ALIAS_OFFSET = Some ds"
    and p: "p = \<lparr>pl_iram_end = ie, pl_data_start = ds, pl_values = [0x6db, (drop_bit 2 ie AND 0x1ffff) OR push_bit 18 1 OR push_bit 17 1, 0,
        0x55 OR push_bit 8 (drop_bit 2 ds AND 0x1ffff) OR push_bit 25 1 OR push_bit 27 1 OR push_bit 28 1,
        0x7800, 0, push_bit 16 1 OR push_bit 15 1 OR push_bit 13 1 OR push_bit 12 1, 0]\<rparr>"
    using assms by (auto simp: policy_new_def split: if_splits)
  show "0x40028000 \<le> unat ie" "unat ie < 0x40050000"
    using c by (simp_all add: MIN_IRAM_SPLIT_def MAX_IRAM_SPLIT_def word_le_nat_alt word_less_nat_alt)
  have "unat ie mod unat (4 :: u32) = unat (ie mod 4)" by (rule unat_mod [symmetric])
  then show "unat ie mod 4 = 0" using c(3) by simp
  show "unat ds = unat ie - 0x70000" using checked_sub_SomeD [OF c(4)] by (simp add: SRAM_ALIAS_OFFSET_def)
  show "pl_iram_end p = ie" "pl_data_start p = ds" "length (pl_values p) = 8"
    "pl_values p = [0x6db, (drop_bit 2 ie AND 0x1ffff) OR push_bit 18 1 OR push_bit 17 1, 0,
        0x55 OR push_bit 8 (drop_bit 2 ds AND 0x1ffff) OR push_bit 25 1 OR push_bit 27 1 OR push_bit 28 1,
        0x7800, 0, push_bit 16 1 OR push_bit 15 1 OR push_bit 13 1 OR push_bit 12 1, 0]"
    by (simp_all add: p)
qed

text \<open>A matching policy fixes every masked register.\<close>

lemma matches_permission:
  assumes "matches_policy R r p" and "length (pl_values p) = 8" and "i < 8"
  shows "permission R r i = pl_values p ! i"
proof -
  have i: "i < length PERMISSIONS" using assms(3) by (simp add: PERMISSIONS_def)
  then have "(PERMISSIONS ! i, pl_values p ! i) \<in> set (zip PERMISSIONS (pl_values p))"
    using nth_mem [of i "zip PERMISSIONS (pl_values p)"] assms(2,3) by simp
  with assms(1) show ?thesis
    by (auto simp: matches_policy_def list_all_iff permission_def split: prod.splits)
qed

lemma mask_17: "(0x1ffff :: u32) = mask 17" by (simp add: mask_eq_exp_minus_1)

lemma small_split: "bit (drop_bit 2 w AND 0x1ffff :: u32) n \<longleftrightarrow> n < 17 \<and> bit w (n + 2)"
  by (auto simp: mask_17 bit_simps add.commute)

lemma split_round_trip:
  assumes "a * 2 ^ 19 \<le> unat w" and "unat w < (a + 1) * 2 ^ 19" and "unat w mod 4 = 0"
  shows "push_bit 2 (drop_bit 2 w AND 0x1ffff) OR push_bit 19 (of_nat a) = (w :: u32)"
proof -
  have "unat w div 2 ^ 19 = a" using assms(1,2) by (intro div_nat_eqI) simp_all
  then have "unat (drop_bit 19 w) = a" unfolding unat_drop_bit_eq by (simp add: drop_bit_eq_div)
  then have "drop_bit 19 w = of_nat a" by auto
  then have high: "bit w (n + 19) = bit (of_nat a :: u32) n" for n
    by (simp flip: \<open>drop_bit 19 w = of_nat a\<close> add: bit_drop_bit_eq add.commute)
  have "take_bit 2 w = 0" using assms(3) by (simp add: word_eq_iff_unsigned [where 'a = nat] unsigned_take_bit_eq take_bit_eq_mod unat_mod)
  then have low: "n < 2 \<Longrightarrow> \<not> bit w n" for n by (metis bit_0_eq bit_take_bit_iff bot_apply bot_bool_def)
  show ?thesis
  proof (rule bit_word_eqI)
    fix n assume n: "n < LENGTH(32)"
    consider "n < 2" | "2 \<le> n" "n < 19" | m where "n = m + 19" by (metis add.commute le_Suc_ex not_less)
    then show "bit (push_bit 2 (drop_bit 2 w AND 0x1ffff) OR push_bit 19 (of_nat a)) n = bit w n"
      unfolding bit_or_iff bit_push_bit_iff small_split
      using n low high by cases (auto simp: bit_of_nat_iff simp del: add_2_eq_Suc')
  qed
qed

text \<open>The regions under a matching policy.\<close>

lemma below_four: "b < (4 :: nat) \<longleftrightarrow> b = 0 \<or> b = 1 \<or> b = 2 \<or> b = 3" by arith

lemma policy_permissions:
  assumes "policy_new ie ds = Inr p" and "matches_policy R r p"
  shows "permission R r 0 = 0x6db"
    and "permission R r 1 = (drop_bit 2 ie AND 0x1ffff) OR push_bit 18 1 OR push_bit 17 1"
    and "permission R r 2 = 0"
    and "permission R r 3 = 0x55 OR push_bit 8 (drop_bit 2 ds AND 0x1ffff) OR push_bit 25 1 OR push_bit 27 1 OR push_bit 28 1"
    and "permission R r 5 = 0" and "permission R r 6 = push_bit 16 1 OR push_bit 15 1 OR push_bit 13 1 OR push_bit 12 1"
    and "permission R r 7 = 0"
proof -
  note v = matches_permission [OF assms(2) policy_new_values(3) [OF assms(1)]]
  show "permission R r 0 = 0x6db"
    "permission R r 1 = (drop_bit 2 ie AND 0x1ffff) OR push_bit 18 1 OR push_bit 17 1"
    "permission R r 2 = 0"
    "permission R r 3 = 0x55 OR push_bit 8 (drop_bit 2 ds AND 0x1ffff) OR push_bit 25 1 OR push_bit 27 1 OR push_bit 28 1"
    "permission R r 5 = 0" "permission R r 6 = push_bit 16 1 OR push_bit 15 1 OR push_bit 13 1 OR push_bit 12 1"
    "permission R r 7 = 0"
    using v [of 0] v [of 1] v [of 2] v [of 3] v [of 5] v [of 6] v [of 7] policy_new_values(8) [OF assms(1)] by simp_all
qed

lemma bits_85: "bit (0x55 :: u32) n \<longleftrightarrow> n = 0 \<or> n = 2 \<or> n = 4 \<or> n = 6"
proof -
  have "bit (0x55 :: u32) n \<Longrightarrow> n < 7" using bit_take_bit_iff [of 7 "0x55 :: u32" n] by auto
  moreover have "n < 7 \<Longrightarrow> n = 0 \<or> n = 1 \<or> n = 2 \<or> n = 3 \<or> n = 4 \<or> n = 5 \<or> n = 6" by arith
  ultimately show ?thesis by fastforce
qed

lemma policy_regions:
  assumes "policy_new ie ds = Inr p" and m: "matches_policy R r p" and "sram_region a"
  shows "\<not> (executable R r a \<and> writable R r a)"
proof -
  note bits = policy_permissions [OF assms(1) m]
  show ?thesis
  proof (cases a)
    case (Sram_Block b)
    have "\<not> bit (0x6db :: u32) (3 * b + 2)" "\<not> bit (0x55 :: u32) (2 * b + 1)" if "b < 4"
      using that unfolding below_four by auto
    moreover have "bit (permission R r 3) (2 * b + 1) = bit (0x55 :: u32) (2 * b + 1)" if "b < 4"
      using that unfolding bits bit_or_iff bit_push_bit_iff by auto
    ultimately show ?thesis using Sram_Block assms(3) by (auto simp: bits(1) sram_region_def)
  next
    case Sram_Low
    show ?thesis unfolding Sram_Low executable.simps writable.simps bits bit_or_iff bit_push_bit_iff small_split by simp
  next
    case Sram_High
    show ?thesis unfolding Sram_High executable.simps writable.simps bits bit_or_iff bit_push_bit_iff small_split by simp
  next
    case Rtc_Slow
    show ?thesis unfolding Rtc_Slow executable.simps writable.simps bits bit_or_iff bit_push_bit_iff by simp
  qed (simp add: bits)
qed

lemma configure_success:
  assumes "configure R p r = (Inr (), r')"
  shows "matches_policy R r' p" and "list_all (\<lambda>offset. rg_read R r' offset AND 1 = 1) LOCKS"
proof -
  have one: "x AND 1 \<noteq> 0 \<longleftrightarrow> x AND 1 = 1" for x :: u32 by (simp add: and_one_eq mod_2_eq_odd)
  show "matches_policy R r' p" "list_all (\<lambda>offset. rg_read R r' offset AND 1 = 1) LOCKS"
    using assms by (auto simp: configure_def Let_def one split: if_splits)
qed

subsection \<open>The order of the writes\<close>

definition logged_registers :: "'r registers \<Rightarrow> ('r \<times> (nat \<times> u32) list) registers" where
  "logged_registers R = \<lparr>rg_read = \<lambda>s. rg_read R (fst s),
     rg_write = \<lambda>s offset v. (rg_write R (fst s) offset v, snd s @ [(offset, v)])\<rparr>"

definition writes_only :: "nat set \<Rightarrow> 'r \<times> (nat \<times> u32) list \<Rightarrow> 'r \<times> (nat \<times> u32) list \<Rightarrow> bool" where
  "writes_only S x y \<longleftrightarrow> (\<exists>ws. snd y = snd x @ ws \<and> (\<forall>w\<in>set ws. fst w \<in> S))"

lemma writes_only_trans: "writes_only S x y \<Longrightarrow> writes_only S y z \<Longrightarrow> writes_only S x z"
  by (fastforce simp: writes_only_def)

lemma replace_bits_writes: "offset \<in> S \<Longrightarrow> writes_only S x (replace_bits (logged_registers R) offset m v x)"
  by (simp add: writes_only_def replace_bits_def logged_registers_def Let_def)

lemma fold_writes:
  "(\<And>e x. e \<in> set es \<Longrightarrow> writes_only S x (f e x)) \<Longrightarrow> writes_only S x (fold f es x)"
proof (induction es arbitrary: x)
  case Nil
  then show ?case by (simp add: writes_only_def)
next
  case (Cons e es)
  then have "writes_only S x (f e x)" "writes_only S (f e x) (fold f es (f e x))" by simp_all
  then show ?case unfolding fold_simps(2) by (rule writes_only_trans)
qed

definition permission_offsets :: "nat set" where
  "permission_offsets = set MONITORS \<union> fst ` set PERMISSIONS"

lemma permission_offsets_not_locks: "permission_offsets \<inter> set LOCKS = {}"
  by (simp add: permission_offsets_def LOCKS_def MONITORS_def PERMISSIONS_def)

lemma setup_writes:
  "writes_only permission_offsets x (enable_monitors (logged_registers R)
     (install_permissions (logged_registers R) p (clear_monitors (logged_registers R) x)))"
proof -
  let ?S = permission_offsets and ?R = "logged_registers R"
  have "writes_only ?S y (clear_monitors ?R y)" for y
    unfolding clear_monitors_def
    by (rule fold_writes, rule writes_only_trans; rule replace_bits_writes) (simp_all add: permission_offsets_def)
  moreover have "writes_only ?S y (install_permissions ?R p y)" for y
    unfolding install_permissions_def
    by (rule fold_writes)
      (auto intro!: replace_bits_writes simp: permission_offsets_def dest: set_zip_leftD split: prod.splits intro: rev_image_eqI)
  moreover have "writes_only ?S y (enable_monitors ?R y)" for y
    unfolding enable_monitors_def by (rule fold_writes) (simp add: replace_bits_writes permission_offsets_def)
  ultimately show ?thesis by (meson writes_only_trans)
qed

lemma write_locks_logged:
  "write_locks (logged_registers R) (r, l) = (write_locks R r, l @ map (\<lambda>offset. (offset, 1)) LOCKS)"
  by (simp add: write_locks_def logged_registers_def LOCKS_def)

lemma matches_logged: "matches_policy (logged_registers R) x p = matches_policy R (fst x) p"
  by (simp add: matches_policy_def logged_registers_def)

lemma configure_order:
  assumes "\<not> list_ex (\<lambda>offset. rg_read R r offset AND 1 \<noteq> 0) LOCKS"
    and "configure (logged_registers R) p (r, l) = (res, r', l')"
  shows "\<exists>r1 ws. (\<forall>w\<in>set ws. fst w \<in> permission_offsets)
    \<and> (if matches_policy R r1 p
       then l' = l @ ws @ map (\<lambda>offset. (offset, 1)) LOCKS \<and> r' = write_locks R r1
       else res = Inl MP_Readback \<and> r' = r1 \<and> l' = l @ ws)"
proof -
  let ?R = "logged_registers R"
  obtain r1 l1 where x: "enable_monitors ?R (install_permissions ?R p (clear_monitors ?R (r, l))) = (r1, l1)"
    by (meson surj_pair)
  obtain ws where ws: "l1 = l @ ws" "\<forall>w\<in>set ws. fst w \<in> permission_offsets"
    using setup_writes [of "(r, l)" R p] by (auto simp: x writes_only_def)
  have unlocked: "\<not> list_ex (\<lambda>offset. rg_read ?R (r, l) offset AND 1 \<noteq> 0) LOCKS"
    using assms(1) by (simp add: logged_registers_def)
  have "if matches_policy R r1 p then l' = l1 @ map (\<lambda>offset. (offset, 1)) LOCKS \<and> r' = write_locks R r1
        else res = Inl MP_Readback \<and> r' = r1 \<and> l' = l1"
    using assms(2) unfolding configure_def if_not_P [OF unlocked] Let_def x
    by (auto simp: matches_logged write_locks_logged split: if_splits)
  with ws show ?thesis by (metis append.assoc)
qed

subsection \<open>Registers that behave as documented\<close>

text \<open>
  A write is read back and changes no other register; bit 2 of a monitor is the latched fault,
  which software cannot set and which a write with bit 0 set clears.
\<close>

definition register_law :: "'r registers \<Rightarrow> bool" where
  "register_law R \<longleftrightarrow> (\<forall>r offset v other.
     rg_read R (rg_write R r offset v) other =
       (if other \<noteq> offset then rg_read R r other
        else if offset \<in> set MONITORS
        then (v AND NOT 4) OR (if v AND 1 \<noteq> 0 then 0 else rg_read R r offset AND 4)
        else v))"

lemma fold_reads:
  assumes "\<And>e r other. e \<in> set es \<Longrightarrow>
      rg_read R (f e r) other = (if other = key e then g e (rg_read R r (key e)) else rg_read R r other)"
    and "distinct (map key es)"
  shows "(other \<notin> key ` set es \<longrightarrow> rg_read R (fold f es r) other = rg_read R r other)
    \<and> (\<forall>e\<in>set es. rg_read R (fold f es r) (key e) = g e (rg_read R r (key e)))"
  using assms
proof (induction es arbitrary: r other)
  case (Cons e es)
  have IH: "(other \<notin> key ` set es \<longrightarrow> rg_read R (fold f es r) other = rg_read R r other)
    \<and> (\<forall>e\<in>set es. rg_read R (fold f es r) (key e) = g e (rg_read R r (key e)))" for r other
    using Cons.prems by (intro Cons.IH) auto
  have step: "rg_read R (f e r) other = (if other = key e then g e (rg_read R r (key e)) else rg_read R r other)" for other
    using Cons.prems(1) by simp
  have "key e' \<noteq> key e" if "e' \<in> set es" for e'
    using Cons.prems(2) that by (auto simp: image_iff)
  moreover have "rg_read R (fold f es (f e r)) (key e) = rg_read R (f e r) (key e)"
    using IH [of "key e" "f e r"] Cons.prems(2) by auto
  ultimately show ?case using IH [of other "f e r"] step by (auto simp: ball_Un)
qed simp

lemma register_lawD:
  assumes "register_law R"
  shows "rg_read R (rg_write R r offset v) other =
       (if other \<noteq> offset then rg_read R r other
        else if offset \<in> set MONITORS
        then (v AND NOT 4) OR (if v AND 1 \<noteq> 0 then 0 else rg_read R r offset AND 4)
        else v)"
  using assms unfolding register_law_def by blast

definition monitor_write :: "u32 \<Rightarrow> u32 \<Rightarrow> u32" where
  "monitor_write x v = (v AND NOT 4) OR (if v AND 1 \<noteq> 0 then 0 else x AND 4)"

lemma low_bits: "bit (7 :: u32) n \<longleftrightarrow> n < 3" "bit (3 :: u32) n \<longleftrightarrow> n < 2" "bit (4 :: u32) n \<longleftrightarrow> n = 2"
  "bit (2 :: u32) n \<longleftrightarrow> n = 1" "(v :: u32) AND 1 = 0 \<longleftrightarrow> \<not> bit v 0"
proof -
  have m: "(7 :: u32) = mask 3" "(3 :: u32) = mask 2" "(4 :: u32) = push_bit 2 1" "(2 :: u32) = push_bit 1 1"
    by (simp_all add: mask_eq_exp_minus_1)
  show "bit (7 :: u32) n \<longleftrightarrow> n < 3" "bit (3 :: u32) n \<longleftrightarrow> n < 2" "bit (4 :: u32) n \<longleftrightarrow> n = 2"
    "bit (2 :: u32) n \<longleftrightarrow> n = 1"
    unfolding m bit_mask_iff bit_push_bit_iff bit_1_iff by auto
  show "(v :: u32) AND 1 = 0 \<longleftrightarrow> \<not> bit v 0" by (simp add: and_one_eq bit_0 odd_iff_mod_2_eq_one)
qed

lemmas bit_unfold = bit_or_iff bit_and_iff bit_not_iff bit_1_iff low_bits

lemma monitor_bit: "bit (monitor_write x v) n \<longleftrightarrow> n < 32 \<and> (if n = 2 then \<not> bit v 0 \<and> bit x 2 else bit v n)"
proof -
  have "n < 32" if "bit (v :: u32) n" for v using bit_imp_le_length [OF that] by simp
  moreover have "monitor_write x v = (if bit v 0 then v AND NOT 4 else (v AND NOT 4) OR (x AND 4))"
    unfolding monitor_write_def low_bits by (simp only: if_not_P not_not if_cancel or.right_neutral split: if_split) simp
  ultimately show ?thesis
    by (cases "bit v 0"; simp only: if_True if_False bit_unfold possible_bit_word; auto)
qed

lemma monitor_values:
  "monitor_write x ((x AND NOT 3) OR (1 AND 3)) = (x AND NOT 7) OR 1"
  "monitor_write ((x AND NOT 7) OR 1) ((((x AND NOT 7) OR 1) AND NOT 3) OR (0 AND 3)) = x AND NOT 7"
  "monitor_write (x AND NOT 7) (((x AND NOT 7) AND NOT 3) OR (2 AND 3)) = (x AND NOT 7) OR 2"
  "((x AND NOT 7) OR 2) AND 7 = 2"
  by (rule bit_word_eqI, unfold monitor_bit bit_unfold and_zero_eq, auto simp only: split: if_splits; simp?)+

lemma replace_reads:
  assumes "register_law R"
  shows "rg_read R (replace_bits R offset m v r) other =
    (if other = offset then let x = rg_read R r offset; y = (x AND NOT m) OR (v AND m) in
       if offset \<in> set MONITORS then monitor_write x y else y
     else rg_read R r other)"
  using register_lawD [OF assms] by (simp add: replace_bits_def Let_def monitor_write_def)

lemma setup_distinct:
  "distinct MONITORS" "distinct (map fst PERMISSIONS)" "set MONITORS \<inter> fst ` set PERMISSIONS = {}"
  "set LOCKS \<inter> permission_offsets = {}" "distinct LOCKS" "set LOCKS \<inter> set MONITORS = {}"
  by (simp_all add: MONITORS_def PERMISSIONS_def LOCKS_def permission_offsets_def)

lemma clear_reads:
  assumes L: "register_law R"
  shows "(other \<notin> set MONITORS \<longrightarrow> rg_read R (clear_monitors R r) other = rg_read R r other)
    \<and> (\<forall>e\<in>set MONITORS. rg_read R (clear_monitors R r) e = rg_read R r e AND NOT 7)"
proof -
  have "rg_read R (replace_bits R e 3 0 (replace_bits R e 3 1 r)) other
      = (if other = e then rg_read R r e AND NOT 7 else rg_read R r other)" if "e \<in> set MONITORS" for e r other
    using that monitor_values(1,2) [of "rg_read R r e"] by (simp add: replace_reads [OF L] Let_def del: and_zero_eq zero_and_eq)
  from fold_reads [where key = "\<lambda>e. e" and g = "\<lambda>e x. x AND NOT 7", OF this] setup_distinct(1)
  show ?thesis by (simp add: clear_monitors_def)
qed

lemma enable_reads:
  assumes L: "register_law R" and "\<forall>e\<in>set MONITORS. \<exists>x. rg_read R r e = x AND NOT 7"
  shows "(other \<notin> set MONITORS \<longrightarrow> rg_read R (enable_monitors R r) other = rg_read R r other)
    \<and> (\<forall>e\<in>set MONITORS. rg_read R (enable_monitors R r) e AND 7 = 2)"
proof -
  have "rg_read R (replace_bits R e 3 2 r) other
      = (if other = e then monitor_write (rg_read R r e) ((rg_read R r e AND NOT 3) OR (2 AND 3)) else rg_read R r other)"
    if "e \<in> set MONITORS" for e r other
    using that by (simp add: replace_reads [OF L] Let_def)
  from fold_reads [where key = "\<lambda>e. e" and g = "\<lambda>e x. monitor_write x ((x AND NOT 3) OR (2 AND 3))", OF this]
  have "(other \<notin> set MONITORS \<longrightarrow> rg_read R (enable_monitors R r) other = rg_read R r other)
    \<and> (\<forall>e\<in>set MONITORS. rg_read R (enable_monitors R r) e
        = monitor_write (rg_read R r e) ((rg_read R r e AND NOT 3) OR (2 AND 3)))"
    using setup_distinct(1) by (simp add: enable_monitors_def)
  with assms(2) monitor_values(3,4) show ?thesis by metis
qed

lemma install_reads:
  assumes L: "register_law R" and "length (pl_values p) = 8"
  shows "(other \<notin> fst ` set PERMISSIONS \<longrightarrow> rg_read R (install_permissions R p r) other = rg_read R r other)
    \<and> (\<forall>((offset, m), v)\<in>set (zip PERMISSIONS (pl_values p)).
         rg_read R (install_permissions R p r) offset = (rg_read R r offset AND NOT m) OR (v AND m))"
proof -
  let ?z = "zip PERMISSIONS (pl_values p)"
  have keys: "map (\<lambda>e. fst (fst e)) ?z = map fst PERMISSIONS"
    using assms(2) by (simp add: map_fst_zip PERMISSIONS_def flip: map_map [unfolded comp_def])
  have "rg_read R ((\<lambda>((offset, m), v). replace_bits R offset m v) e r) other
      = (if other = fst (fst e) then (rg_read R r (fst (fst e)) AND NOT (snd (fst e))) OR (snd e AND snd (fst e))
         else rg_read R r other)" if "e \<in> set ?z" for e r other
  proof -
    obtain offset m v where e: "e = ((offset, m), v)" by (metis surj_pair)
    with that have "offset \<notin> set MONITORS" using setup_distinct(3) by (auto dest!: set_zip_leftD) force
    then show ?thesis by (simp add: e replace_reads [OF L] Let_def)
  qed
  from fold_reads [where es = ?z and key = "\<lambda>e. fst (fst e)" and g = "\<lambda>e x. (x AND NOT (snd (fst e))) OR (snd e AND snd (fst e))", OF this]
  have "(other \<notin> (\<lambda>e. fst (fst e)) ` set ?z \<longrightarrow> rg_read R (install_permissions R p r) other = rg_read R r other)
    \<and> (\<forall>e\<in>set ?z. rg_read R (install_permissions R p r) (fst (fst e))
        = (rg_read R r (fst (fst e)) AND NOT (snd (fst e))) OR (snd e AND snd (fst e)))"
    using setup_distinct(2) keys by (simp add: install_permissions_def)
  moreover have "(\<lambda>e. fst (fst e)) ` set ?z = fst ` set PERMISSIONS" using keys by (metis list.set_map)
  ultimately show ?thesis by auto
qed

lemma lock_reads:
  assumes L: "register_law R"
  shows "(other \<notin> set LOCKS \<longrightarrow> rg_read R (write_locks R r) other = rg_read R r other)
    \<and> (\<forall>e\<in>set LOCKS. rg_read R (write_locks R r) e = 1)"
proof -
  have "rg_read R (rg_write R r e 1) other = (if other = e then 1 else rg_read R r other)"
    if "e \<in> set LOCKS" for e r other
    using that setup_distinct(6) by (auto simp: register_lawD [OF L])
  from fold_reads [where es = LOCKS and key = "\<lambda>e. e" and g = "\<lambda>e x. 1", OF this] setup_distinct(5)
  show ?thesis by (simp add: write_locks_def)
qed

lemma value_in_mask:
  assumes "policy_new ie ds = Inr p" and "((offset, m), v) \<in> set (zip PERMISSIONS (pl_values p))"
  shows "v AND m = v"
proof -
  have m: "(0xfff :: u32) = mask 12" "(0x7fffff :: u32) = mask 23" "(0x1ffff :: u32) = mask 17" "(0x1fffffff :: u32) = mask 29"
    by (simp_all add: mask_eq_exp_minus_1)
  have 1: "((drop_bit 2 ie AND 0x1ffff) OR push_bit 18 1 OR push_bit 17 1) AND 0x7fffff
      = (drop_bit 2 ie AND 0x1ffff) OR push_bit 18 1 OR push_bit 17 (1 :: u32)"
    unfolding m by (rule bit_word_eqI, unfold bit_or_iff bit_and_iff bit_push_bit_iff bit_mask_iff bit_1_iff) auto
  have 2: "(0x55 OR push_bit 8 (drop_bit 2 ds AND 0x1ffff) OR push_bit 25 1 OR push_bit 27 1 OR push_bit 28 1) AND 0x1fffffff
      = 0x55 OR push_bit 8 (drop_bit 2 ds AND 0x1ffff) OR push_bit 25 1 OR push_bit 27 1 OR push_bit 28 (1 :: u32)"
    unfolding m by (intro bit_word_eqI, unfold bit_or_iff bit_and_iff bit_push_bit_iff bit_mask_iff bit_1_iff bits_85)
      auto
  show ?thesis
    using assms(2) 1 2 unfolding policy_new_values(8) [OF assms(1)] PERMISSIONS_def by auto
qed

lemma keep:
  assumes "(v :: u32) AND m = v"
  shows "(x AND NOT m OR v) AND m = v" and "(x AND NOT m OR v) AND NOT m = x AND NOT m"
proof -
  have b: "bit v n \<Longrightarrow> bit m n" for n using assms by (metis bit_and_iff)
  show "(x AND NOT m OR v) AND m = v"
    by (rule bit_word_eqI) (auto simp: bit_or_iff bit_and_iff bit_not_iff dest: b)
  show "(x AND NOT m OR v) AND NOT m = x AND NOT m"
    by (rule bit_word_eqI) (auto simp: bit_or_iff bit_and_iff bit_not_iff dest: b)
qed

lemma configure_lawful:
  assumes L: "register_law R" and p: "policy_new ie ds = Inr p"
    and free: "\<not> list_ex (\<lambda>offset. rg_read R r offset AND 1 \<noteq> 0) LOCKS"
  shows "\<exists>r'. configure R p r = (Inr (), r')
    \<and> (\<forall>(offset, m)\<in>set PERMISSIONS. rg_read R r' offset AND NOT m = rg_read R r offset AND NOT m)"
proof -
  define r1 where "r1 = clear_monitors R r"
  define r2 where "r2 = install_permissions R p r1"
  define r3 where "r3 = enable_monitors R r2"
  note len = policy_new_values(3) [OF p]
  have mon: "\<forall>e\<in>set MONITORS. \<exists>x. rg_read R r2 e = x AND NOT 7"
    using clear_reads [OF L, of _ r] install_reads [OF L len, of _ r1] setup_distinct(3)
    unfolding r2_def r1_def by (metis disjoint_iff)
  have perm: "rg_read R r3 offset = (rg_read R r offset AND NOT m) OR v"
    if "((offset, m), v) \<in> set (zip PERMISSIONS (pl_values p))" for offset m v
  proof -
    have "(offset, m) \<in> set PERMISSIONS" using that by (rule set_zip_leftD)
    then have "offset \<in> fst ` set PERMISSIONS" by force
    then have "offset \<notin> set MONITORS" using setup_distinct(3) by auto
    then show ?thesis
      using enable_reads [OF L mon, of offset] install_reads [OF L len, of offset r1] clear_reads [OF L, of offset r]
        that value_in_mask [OF p that] by (auto simp: r3_def r2_def r1_def)
  qed
  have matches: "matches_policy R x p" if "\<forall>o'. o' \<notin> set LOCKS \<longrightarrow> rg_read R x o' = rg_read R r3 o'" for x
  proof -
    have "rg_read R x offset AND m = v" if z: "((offset, m), v) \<in> set (zip PERMISSIONS (pl_values p))" for offset m v
    proof -
      have "offset \<in> permission_offsets" using set_zip_leftD [OF z] by (force simp: permission_offsets_def)
      then have "rg_read R x offset = rg_read R r3 offset"
        using \<open>\<forall>o'. o' \<notin> set LOCKS \<longrightarrow> rg_read R x o' = rg_read R r3 o'\<close> setup_distinct(4) by blast
      with perm [OF z] keep(1) [OF value_in_mask [OF p z]] show ?thesis by simp
    qed
    moreover have "rg_read R x e AND 7 = 2" if "e \<in> set MONITORS" for e
      using enable_reads [OF L mon] that setup_distinct(6) \<open>\<forall>o'. o' \<notin> set LOCKS \<longrightarrow> rg_read R x o' = rg_read R r3 o'\<close>
      unfolding r3_def by (metis disjoint_iff)
    ultimately show ?thesis by (auto simp: matches_policy_def list_all_iff)
  qed
  note locks = lock_reads [OF L, of _ r3]
  have "configure R p r = (Inr (), write_locks R r3)"
    unfolding configure_def if_not_P [OF free] Let_def r1_def [symmetric] r2_def [symmetric] r3_def [symmetric]
    using matches [of r3] matches [of "write_locks R r3"] locks by (auto simp: list_all_iff)
  moreover have "rg_read R (write_locks R r3) offset AND NOT m = rg_read R r offset AND NOT m"
    if om: "(offset, m) \<in> set PERMISSIONS" for offset m
  proof -
    have "length PERMISSIONS = length (pl_values p)" using len by (simp add: PERMISSIONS_def)
    from in_set_impl_in_set_zip1 [OF this om]
    obtain v where z: "((offset, m), v) \<in> set (zip PERMISSIONS (pl_values p))" by blast
    have "offset \<in> permission_offsets" using om by (force simp: permission_offsets_def)
    then have "rg_read R (write_locks R r3) offset = rg_read R r3 offset" using locks setup_distinct(4) by blast
    with perm [OF z] keep(2) [OF value_in_mask [OF p z]] show ?thesis by simp
  qed
  ultimately show ?thesis by blast
qed

section \<open>Properties\<close>

text \<open>Registers as a function of the offset, with the latching of the monitors.\<close>

definition ram_registers :: "(nat \<Rightarrow> u32) registers" where
  "ram_registers = \<lparr>rg_read = \<lambda>f offset. f offset,
     rg_write = \<lambda>f offset v. f(offset := if offset \<in> set MONITORS
       then (v AND NOT 4) OR (if v AND 1 \<noteq> 0 then 0 else f offset AND 4) else v)\<rparr>"

lemma ram_register_law: "register_law ram_registers"
  by (simp add: register_law_def ram_registers_def)

lemma example_policy: "\<exists>p. policy_new 0x40028000 0x3ffb8000 = Inr p"
  by (simp add: policy_new_def MIN_IRAM_SPLIT_def MAX_IRAM_SPLIT_def SRAM_ALIAS_OFFSET_def checked_sub_def)

text \<open>
  C15. Successful initialization makes memory write-xor-execute. On arbitrary hardware, if
  \<open>initialize\<close> returns Ok then every bus is locked, every monitor is enabled with no pending
  fault, no SRAM or RTC region is both executable and writable through any alias, and the
  installed splits are the linked addresses of the end of the code and the start of the data.
\<close>

theorem memory_write_xor_execute:
  assumes "mp_initialize R iram_end data_start r = (Inr (), r')"
  shows "list_all (\<lambda>offset. rg_read R r' offset AND 1 = 1) LOCKS
    \<and> list_all (\<lambda>offset. rg_read R r' offset AND 7 = 2) MONITORS
    \<and> (\<forall>a. sram_region a \<longrightarrow> \<not> (executable R r' a \<and> writable R r' a))
    \<and> push_bit 2 (permission R r' 1 AND 0x1ffff) OR 0x40000000 = iram_end
    \<and> push_bit 2 (drop_bit 8 (permission R r' 3) AND 0x1ffff) OR 0x3ff80000 = data_start"
proof -
  obtain p where p: "policy_new iram_end data_start = Inr p" and c: "configure R p r = (Inr (), r')"
    using assms by (auto simp: mp_initialize_def split: sum.splits)
  note m = configure_success [OF c] and v = policy_new_values [OF p]
  have v1: "permission R r' 1 AND 0x1ffff = drop_bit 2 iram_end AND 0x1ffff"
    unfolding policy_permissions(2) [OF p m(1)] mask_17
    by (rule bit_word_eqI, unfold bit_or_iff bit_and_iff bit_push_bit_iff bit_mask_iff bit_1_iff, auto)
  have v3: "drop_bit 8 (permission R r' 3) AND 0x1ffff = drop_bit 2 data_start AND 0x1ffff"
    unfolding policy_permissions(4) [OF p m(1)] mask_17
    by (rule bit_word_eqI, unfold bit_or_iff bit_and_iff bit_push_bit_iff bit_drop_bit_eq comp_def bit_mask_iff bit_1_iff bits_85)
      auto
  have s1: "push_bit 2 (drop_bit 2 iram_end AND 0x1ffff) OR push_bit 19 (of_nat 2048) = iram_end"
    using v(4-6) by (intro split_round_trip) simp_all
  have s2: "push_bit 2 (drop_bit 2 data_start AND 0x1ffff) OR push_bit 19 (of_nat 2047) = data_start"
    using v(4-7) by (intro split_round_trip) (simp_all, presburger)
  have k: "push_bit 19 (of_nat 2048) = (0x40000000 :: u32)" "push_bit 19 (of_nat 2047) = (0x3ff80000 :: u32)" by simp_all
  show ?thesis
    using m policy_regions [OF p m(1)] s1 s2 unfolding v1 v3 k by (auto simp: matches_policy_def)
qed

lemma example_initialize: "\<exists>r'. mp_initialize ram_registers 0x40028000 0x3ffb8000 (\<lambda>_. 0) = (Inr (), r')"
proof -
  obtain p where p: "policy_new 0x40028000 0x3ffb8000 = Inr p" using example_policy by blast
  have "\<not> list_ex (\<lambda>offset. rg_read ram_registers (\<lambda>_. 0) offset AND 1 \<noteq> 0) LOCKS"
    by (simp add: ram_registers_def LOCKS_def)
  from configure_lawful [OF ram_register_law p this] show ?thesis by (auto simp: mp_initialize_def p)
qed

theorem memory_write_xor_execute_witness:
  "\<exists>r'. mp_initialize ram_registers 0x40028000 0x3ffb8000 (\<lambda>_. 0) = (Inr (), r')
    \<and> (\<forall>a. sram_region a \<longrightarrow> \<not> (executable ram_registers r' a \<and> writable ram_registers r' a))"
proof -
  obtain r' where "mp_initialize ram_registers 0x40028000 0x3ffb8000 (\<lambda>_. 0) = (Inr (), r')"
    using example_initialize by blast
  with memory_write_xor_execute [OF this] show ?thesis by blast
qed

text \<open>
  The locks are written last, once, and never over an inherited policy. On arbitrary
  hardware whose writes are recorded: if some bus is already locked, nothing is written; and
  otherwise only monitor and permission registers are written until a complete readback matches
  the policy, after which exactly the four locks are written; without that match initialization
  fails and no lock is written.
\<close>

theorem locks_written_last:
  assumes "configure (logged_registers R) p (r, log) = (res, r', log')"
  shows "if list_ex (\<lambda>offset. rg_read R r offset AND 1 \<noteq> 0) LOCKS
    then r' = r \<and> log' = log \<and> res \<in> {Inr (), Inl MP_LockedPolicy}
    else \<exists>r1 ws. (\<forall>w\<in>set ws. fst w \<notin> set LOCKS)
      \<and> (if matches_policy R r1 p
         then log' = log @ ws @ map (\<lambda>offset. (offset, 1)) LOCKS \<and> r' = write_locks R r1
         else res = Inl MP_Readback \<and> r' = r1 \<and> log' = log @ ws)"
proof (cases "list_ex (\<lambda>offset. rg_read R r offset AND 1 \<noteq> 0) LOCKS")
  case True
  then have "list_ex (\<lambda>offset. rg_read (logged_registers R) (r, log) offset AND 1 \<noteq> 0) LOCKS"
    by (simp add: logged_registers_def)
  with assms True show ?thesis by (auto simp: configure_def split: if_splits)
next
  case False
  from configure_order [OF False assms] obtain r1 ws where w: "\<forall>w\<in>set ws. fst w \<in> permission_offsets"
    and r: "if matches_policy R r1 p
       then log' = log @ ws @ map (\<lambda>offset. (offset, 1)) LOCKS \<and> r' = write_locks R r1
       else res = Inl MP_Readback \<and> r' = r1 \<and> log' = log @ ws" by blast
  have "\<forall>w\<in>set ws. fst w \<notin> set LOCKS" using w permission_offsets_not_locks by blast
  with r False show ?thesis by (metis (no_types, lifting))
qed

theorem locks_written_last_witness:
  "\<exists>res r' log'. configure (logged_registers ram_registers) \<lparr>pl_iram_end = 0, pl_data_start = 0, pl_values = []\<rparr>
      ((\<lambda>_. 1), []) = (res, r', log') \<and> log' = []"
proof -
  obtain res r' log' where c: "configure (logged_registers ram_registers)
      \<lparr>pl_iram_end = 0, pl_data_start = 0, pl_values = []\<rparr> ((\<lambda>_. 1), []) = (res, r', log')" by (metis surj_pair)
  have "list_ex (\<lambda>offset. rg_read ram_registers (\<lambda>_. 1) offset AND 1 \<noteq> 0) LOCKS"
    by (simp add: ram_registers_def LOCKS_def)
  with locks_written_last [OF c] c show ?thesis by simp
qed

text \<open>
  On registers that behave as documented and are not yet locked, initialization of every
  representable layout succeeds and changes no bit of a permission register outside its mask.
\<close>

theorem unlocked_initialization_succeeds:
  assumes "register_law R" and "policy_new iram_end data_start = Inr p"
    and "\<not> list_ex (\<lambda>offset. rg_read R r offset AND 1 \<noteq> 0) LOCKS"
  shows "\<exists>r'. mp_initialize R iram_end data_start r = (Inr (), r')
    \<and> (\<forall>(offset, m)\<in>set PERMISSIONS. rg_read R r' offset AND NOT m = rg_read R r offset AND NOT m)"
  using configure_lawful [OF assms] by (simp add: mp_initialize_def assms(2))

theorem unlocked_initialization_succeeds_witness:
  "\<exists>r'. mp_initialize ram_registers 0x40028000 0x3ffb8000 (\<lambda>_. 0) = (Inr (), r')"
proof -
  obtain p where p: "policy_new 0x40028000 0x3ffb8000 = Inr p" using example_policy by blast
  have "\<not> list_ex (\<lambda>offset. rg_read ram_registers (\<lambda>_. 0) offset AND 1 \<noteq> 0) LOCKS"
    by (simp add: ram_registers_def LOCKS_def)
  from unlocked_initialization_succeeds [OF ram_register_law p this] show ?thesis by blast
qed

end
