(* ===== verification/Vendor_Commands.thy ===== *)
theory Vendor_Commands
  imports Maintenance Memory_Protection
begin

text \<open>
  \<^verbatim>\<open>src/platform/vendor_commands.rs\<close>: dispatch of the vendor requests to the diagnostics, the
  security status and the updater. The trait \<^verbatim>\<open>Handlers\<close> is the record \<open>handlers\<close>, the struct
  \<^verbatim>\<open>S2Handlers\<close> is \<open>s2_handlers\<close>, whose resources are the record \<open>vendor_state\<close>; the flash the
  diagnostics read is the one the updater's backend owns. The cargo features are the flags of
  \<open>vendor_build\<close>. The laws of the handlers that dispatch relies on are the locale
  \<open>presence_protocol\<close>.
\<close>

section \<open>Dispatch\<close>

record 's handlers =
  hs_diagnostics :: "bytes \<Rightarrow> bytes \<Rightarrow> 's \<Rightarrow> ((nat option \<times> bytes) blocking \<times> 's) option"
  hs_security_status :: "bytes \<Rightarrow> 's \<Rightarrow> ((nat \<times> bytes) \<times> 's) option"
  hs_update :: "bytes \<Rightarrow> bool \<Rightarrow> bytes \<Rightarrow> 's \<Rightarrow> ((nat \<times> bytes) \<times> 's) option"
  hs_confirm_update :: "'s \<Rightarrow> (bool blocking \<times> 's) option"

type_synonym 's diagnostic = "bytes \<Rightarrow> 's \<Rightarrow> ((nat option \<times> bytes) blocking \<times> 's) option"

definition or_else :: "'s diagnostic \<Rightarrow> 's diagnostic \<Rightarrow> 's diagnostic" where
  "or_else first second response s = (case first response s of
       Some (Returns (None, response), s) \<Rightarrow> second response s | r \<Rightarrow> r)"

definition first_diagnostic_response :: "bytes \<Rightarrow> 's diagnostic \<Rightarrow> 's diagnostic \<Rightarrow> 's diagnostic \<Rightarrow> 's \<Rightarrow>
    ((nat option \<times> bytes) blocking \<times> 's) option" where
  "first_diagnostic_response response maintenance preview memory =
     or_else (or_else maintenance preview) memory response"

definition vendor_dispatch :: "'s handlers \<Rightarrow> bytes \<Rightarrow> bytes \<Rightarrow> 's \<Rightarrow> ((nat \<times> bytes) blocking \<times> 's) option" where
  "vendor_dispatch T request response s = do {
     (diagnostic, s) \<leftarrow> hs_diagnostics T request response s;
     case diagnostic of
       Waits \<Rightarrow> Some (Waits, s)
     | Returns (len, response) \<Rightarrow> do {
         ((len, response), s) \<leftarrow> (case len of
             Some len \<Rightarrow> Some ((len, response), s)
           | None \<Rightarrow>
               if request = [SECURITY_STATUS_REQUEST] then hs_security_status T response s
               else hs_update T request False response s);
         first \<leftarrow> index response 0;
         if first = status_number St_UserPresenceRequired then do {
           (confirmed, s) \<leftarrow> hs_confirm_update T s;
           case confirmed of
             Waits \<Rightarrow> Some (Waits, s)
           | Returns False \<Rightarrow> Some (Returns (len, response), s)
           | Returns True \<Rightarrow> do {
               (r, s) \<leftarrow> hs_update T request True response s;
               Some (Returns r, s)
             }
         }
         else Some (Returns (len, response), s)
       }
   }"

section \<open>The handlers of the device\<close>

text \<open>What the build and the hardware fix: features, ROM, hash, eFuse access, PMS registers, root key, plan.\<close>

record ('f, 'x, 'h, 'k, 'r) vendor_build =
  vb_flash_encryption :: bool
  vb_epoch_preview :: bool
  vb_epoch_maintenance :: bool
  vb_rom :: "'f rom"
  vb_sha :: "'x sha256"
  vb_efuse :: "'h efuse_rom"
  vb_hal :: "'h efuse_hal"
  vb_registers :: "'r registers"
  vb_iram_end :: u32
  vb_data_start :: u32
  vb_root :: bytes
  vb_scope :: bytes
  vb_hook :: "'k wait_hook"

record ('f, 'x, 'h, 'k, 'r) vendor_state =
  vs_updater :: "('f fe_state, 'x) usb_updater"
  vs_attempted :: bool
  vs_efuse :: 'h
  vs_hardware :: user_hardware
  vs_hook :: 'k
  vs_registers :: 'r

definition as_device :: "('f, 'x, 'h, 'k, 'r) vendor_state \<Rightarrow> ('f, 'h, 'k) maintenance_device" where
  "as_device s = \<lparr>md_flash = uu_backend (vs_updater s), md_attempted = vs_attempted s, md_efuse = vs_efuse s,
     md_hardware = vs_hardware s, md_hook = vs_hook s\<rparr>"

definition with_device ::
  "('f, 'x, 'h, 'k, 'r) vendor_state \<Rightarrow> ('f, 'h, 'k) maintenance_device \<Rightarrow> ('f, 'x, 'h, 'k, 'r) vendor_state" where
  "with_device s d = s\<lparr>vs_updater := (vs_updater s)\<lparr>uu_backend := md_flash d\<rparr>, vs_attempted := md_attempted d,
     vs_efuse := md_efuse d, vs_hardware := md_hardware d, vs_hook := md_hook d\<rparr>"

definition answer :: "bytes \<Rightarrow> (nat \<times> bytes) option \<Rightarrow> nat option \<times> bytes" where
  "answer response reply = (case reply of None \<Rightarrow> (None, response) | Some (n, out) \<Rightarrow> (Some n, out))"

definition maintenance_closure ::
  "('f, 'x, 'h, 'k, 'r) vendor_build \<Rightarrow> u32 \<Rightarrow> u64 \<Rightarrow> reading list \<Rightarrow> bytes \<Rightarrow> ('f, 'x, 'h, 'k, 'r) vendor_state diagnostic"
where
  "maintenance_closure V descriptor now readings request response s =
     (if \<not> vb_epoch_maintenance V then Some (Returns (None, response), s)
      else (case maintenance_handle (vb_flash_encryption V) (vb_rom V) (vb_efuse V) (vb_hal V) (vb_sha V) (vb_root V)
            (vb_scope V) (vb_hook V) now readings request descriptor (updater_phase (vs_updater s)) response (as_device s) of
          None \<Rightarrow> None
        | Some (Waits, d) \<Rightarrow> Some (Waits, with_device s d)
        | Some (Returns reply, d) \<Rightarrow> Some (Returns (answer response reply), with_device s d)))"

definition preview_closure ::
  "('f, 'x, 'h, 'k, 'r) vendor_build \<Rightarrow> u32 \<Rightarrow> bytes \<Rightarrow> ('f, 'x, 'h, 'k, 'r) vendor_state diagnostic" where
  "preview_closure V descriptor request response s =
     (if \<not> (vb_epoch_preview V \<or> vb_epoch_maintenance V) then Some (Returns (None, response), s)
      else (case preview_handle (vb_flash_encryption V) (vb_rom V) (vb_sha V) (vb_root V) request descriptor
            (updater_phase (vs_updater s)) response (uu_backend (vs_updater s)) of
          None \<Rightarrow> None
        | Some (reply, f) \<Rightarrow>
            Some (Returns (answer response reply), s\<lparr>vs_updater := (vs_updater s)\<lparr>uu_backend := f\<rparr>\<rparr>)))"

definition memory_closure ::
  "('f, 'x, 'h, 'k, 'r) vendor_build \<Rightarrow> bytes \<Rightarrow> ('f, 'x, 'h, 'k, 'r) vendor_state diagnostic" where
  "memory_closure V request response s =
     (if \<not> vb_flash_encryption V \<or> request \<noteq> [MP_REQUEST] then Some (Returns (None, response), s)
      else map_option (\<lambda>(n, out). (Returns (Some n, out), s))
        (mp_status (vb_registers V) (vb_iram_end V) (vb_data_start V) (vs_registers s) response))"

definition s2_handlers ::
  "('f, 'x, 'h, 'k, 'r) vendor_build \<Rightarrow> u32 \<Rightarrow> u32 \<Rightarrow> u64 \<Rightarrow> reading list \<Rightarrow> ('f, 'x, 'h, 'k, 'r) vendor_state handlers" where
  "s2_handlers V descriptor secure_version now readings = \<lparr>
     hs_diagnostics = \<lambda>request response. first_diagnostic_response response
       (maintenance_closure V descriptor now readings request) (preview_closure V descriptor request)
       (memory_closure V request),
     hs_security_status = \<lambda>response s. map_option (\<lambda>r. (r, s))
       (security_status_encode (security_status_read (vb_hal V) (vs_efuse s) secure_version) response),
     hs_update = \<lambda>request present response s.
       map_option (\<lambda>(n, out, u). ((n, out), s\<lparr>vs_updater := u\<rparr>))
         (handle (esp_backend (vb_flash_encryption V) (vb_rom V) descriptor) (vb_sha V) (vs_updater s) request present response),
     hs_confirm_update = \<lambda>s.
       map_option (\<lambda>(v, hw, k). (case v of None \<Rightarrow> Waits | Some b \<Rightarrow> Returns b, s\<lparr>vs_hardware := hw, vs_hook := k\<rparr>))
         (confirm_update_user_presence (vb_hook V) (vs_hardware s) (vs_hook s) now readings)\<rparr>"

definition vendor_handle ::
  "('f, 'x, 'h, 'k, 'r) vendor_build \<Rightarrow> bytes \<Rightarrow> u32 \<Rightarrow> u32 \<Rightarrow> u64 \<Rightarrow> reading list \<Rightarrow> bytes \<Rightarrow>
   ('f, 'x, 'h, 'k, 'r) vendor_state \<Rightarrow> ((nat \<times> bytes) blocking \<times> ('f, 'x, 'h, 'k, 'r) vendor_state) option" where
  "vendor_handle V request descriptor secure_version now readings response =
     vendor_dispatch (s2_handlers V descriptor secure_version now readings) request response"

section \<open>What dispatch relies on\<close>

text \<open>
  The laws of the handlers. \<open>keep\<close> is what must not change without the user's approval and
  \<open>approved\<close> the evidence of it: a diagnostic or status answer never looks like a request for
  presence, an unanswered diagnostic leaves everything as it was, an update without presence
  keeps what must be kept, and a positive confirmation after it is evidence.
\<close>

locale presence_protocol =
  fixes T :: "'s handlers" and keep :: "'s \<Rightarrow> 's \<Rightarrow> bool" and approved :: "'s \<Rightarrow> bool"
  assumes keep_refl: "keep s s"
    and diagnostics_pass: "hs_diagnostics T request response s = Some (Returns (None, out), s') \<Longrightarrow> s' = s \<and> out = response"
    and diagnostics_answer: "hs_diagnostics T request response s = Some (Returns (Some n, out), s') \<Longrightarrow>
      keep s s' \<and> index out 0 \<noteq> Some 1"
    and diagnostics_wait: "hs_diagnostics T request response s = Some (Waits, s') \<Longrightarrow> keep s s'"
    and status_answer: "hs_security_status T response s = Some ((n, out), s') \<Longrightarrow> s' = s \<and> index out 0 \<noteq> Some 1"
    and update_keeps: "hs_update T request False response s = Some (r, s') \<Longrightarrow> keep s s'"
    and confirm_keeps: "hs_update T request False response s = Some (r, s') \<Longrightarrow> hs_confirm_update T s' = Some (c, s'') \<Longrightarrow>
      keep s s'' \<and> (c = Returns True \<longrightarrow> approved s)"
begin

lemma dispatch_keeps:
  assumes "vendor_dispatch T request response s = Some (r, s')"
  shows "keep s s' \<or> approved s"
proof -
  obtain d s1 where d: "hs_diagnostics T request response s = Some (d, s1)"
    using assms by (auto simp: vendor_dispatch_def split: bind_splits)
  show ?thesis
  proof (cases d)
    case Waits
    with assms d diagnostics_wait [of request response s s1] show ?thesis by (simp add: vendor_dispatch_def)
  next
    case (Returns x)
    then obtain l out where x: "d = Returns (l, out)" by (cases x) auto
    show ?thesis
    proof (cases l)
      case (Some n)
      with assms d x diagnostics_answer [of request response s n out s1] show ?thesis
        by (auto simp: vendor_dispatch_def split: bind_splits)
    next
      case None
      then have same: "s1 = s" "out = response" using diagnostics_pass d x by auto
      show ?thesis
      proof (cases "request = [SECURITY_STATUS_REQUEST]")
        case True
        with assms d x None same keep_refl show ?thesis
          by (auto simp: vendor_dispatch_def dest!: status_answer split: bind_splits)
      next
        case False
        with assms d x None same show ?thesis
          by (fastforce simp: vendor_dispatch_def dest: update_keeps confirm_keeps split: bind_splits blocking.splits bool.splits if_splits)
      qed
    qed
  qed
qed

end

section \<open>The approval a session carries\<close>

text \<open>
  What the user approved when a session began: its identity, its slots, the announced length,
  hash and version. \<open>carried u u'\<close> says that a session of \<open>u'\<close> is a session of \<open>u\<close>.
\<close>

definition approval ::
  "'h session \<Rightarrow> (u32 \<times> u64 \<times> u8 \<times> u8 \<times> u32) \<times> (u32 \<times> bytes \<times> u32 \<times> bytes)" where
  "approval s = ((ss_id s, ss_started_ms s, ss_target_slot s, ss_active_slot s, ss_target_sequence s),
     (ss_total s, ss_expected_hash s, ss_expected_secure_version s, ss_expected_version s))"

definition carried :: "('b, 'h) usb_updater \<Rightarrow> ('c, 'h) usb_updater \<Rightarrow> bool" where
  "carried u u' \<longleftrightarrow> (\<forall>s'. uu_session u' = Some s' \<longrightarrow> (\<exists>s. uu_session u = Some s \<and> approval s' = approval s))"

named_theorems approval_simps

lemma approval_update [approval_simps]:
  "approval (s\<lparr>ss_phase := p\<rparr>) = approval s" "approval (s\<lparr>ss_failure := f\<rparr>) = approval s"
  "approval (s\<lparr>ss_completed := c\<rparr>) = approval s" "approval (s\<lparr>ss_last_checked_ms := t\<rparr>) = approval s"
  "approval (s\<lparr>ss_last_progress_ms := t\<rparr>) = approval s" "approval (s\<lparr>ss_full_hasher := x\<rparr>) = approval s"
  "approval (s\<lparr>ss_signed_hasher := x\<rparr>) = approval s" "approval (snd (fail s st)) = approval s"
  by (simp_all add: approval_def fail_def)

lemma approval_expire: "session_expire s now = (e, s') \<Longrightarrow> approval s' = approval s"
  by (auto simp: session_expire_def Let_def approval_simps split: if_splits)

lemma approval_progress: "session_progress s now = (st, s') \<Longrightarrow> approval s' = approval s"
  by (auto simp: session_progress_def approval_simps dest: approval_expire split: prod.splits bool.splits)

lemma uu_session_put_back [simp]: "uu_session (put_back u b s) = Some s"
  by (simp add: put_back_def)

lemma carried_refl [simp]: "carried u u" by (simp add: carried_def)

lemma carried_trans: "carried u v \<Longrightarrow> carried v w \<Longrightarrow> carried u w"
  by (fastforce simp: carried_def)

lemma carried_put_back:
  "uu_session u = Some s \<Longrightarrow> approval s' = approval s \<Longrightarrow> carried u (put_back v b s')"
  by (simp add: carried_def)

lemma carried_poll: "carried u (poll B u)"
  by (auto simp: carried_def poll_def approval_expire [OF prod.collapse [symmetric]] split: option.splits prod.splits)

lemma activate_approval:
  "activate_target B u s b = Some (st, u') \<Longrightarrow> \<exists>s'. uu_session u' = Some s' \<and> approval s' = approval s"
  by (auto simp: activate_target_def Let_def approval_simps dest: approval_expire
      split: prod.splits option.splits if_splits bool.splits)

lemma finish_carried: "finish_verification B H u = Some (st, u') \<Longrightarrow> carried u u'"
  by (auto simp: finish_verification_def Let_def carried_def approval_simps
      dest!: activate_approval
      split: prod.splits option.splits if_splits bool.splits bind_splits)

lemma verify_loop_approval:
  "verify_loop B H e n b s = Some (r, b', s') \<Longrightarrow> approval s' = approval s"
proof (induction B H e n b s arbitrary: r b' s' rule: verify_loop.induct)
  case (1 B H e n b s)
  show ?case
  proof (cases "ss_completed s < e")
    case False
    with "1.prems" show ?thesis by (simp add: verify_loop.simps)
  next
    case True
    obtain now b1 where t: "ub_now_ms B b = (now, b1)" by (meson surj_pair)
    obtain ex s1 where x: "session_expire s now = (ex, s1)" by (meson surj_pair)
    note a = approval_expire [OF x]
    show ?thesis
    proof (cases ex)
      case True
      with "1.prems" \<open>ss_completed s < e\<close> t x a show ?thesis by (simp add: verify_loop.simps)
    next
      case False
      note IH = "1.IH" [OF True t [symmetric] x [symmetric] False]
      obtain left where l: "checked_sub e (ss_completed s1) = Some left"
        using "1.prems" True t x False by (subst (asm) verify_loop.simps) (auto split: option.splits)
      obtain c b2 where rd: "ir_read B b1 (ss_target_slot s1) (ss_completed s1) (unat (min left 1024)) = (c, b2)"
        by (meson surj_pair)
      show ?thesis
      proof (cases c)
        case None
        with "1.prems" True t x False l rd a show ?thesis
          by (subst (asm) verify_loop.simps) (auto simp: Let_def approval_simps)
      next
        case (Some chunk)
        then obtain part completed where pc: "(if ss_completed s1 < n
              then subslice chunk 0 (unat (min (n - ss_completed s1) (min left 1024))) else Some []) = Some part"
            "checked_add (ss_completed s1) (min left 1024) = Some completed"
          using "1.prems" True t x False l rd by (subst (asm) verify_loop.simps) (auto simp: Let_def split: option.splits)
        have "verify_loop B H e n b2 (s1\<lparr>ss_full_hasher := sha_update H (ss_full_hasher s1) chunk,
            ss_signed_hasher := (if ss_completed s1 < n then sha_update H (ss_signed_hasher s1) part else ss_signed_hasher s1),
            ss_completed := completed\<rparr>) = Some (r, b', s')"
          using "1.prems" True t x False l rd Some pc by (subst (asm) verify_loop.simps) (simp add: Let_def)
        from IH [OF l refl rd [symmetric] Some pc this] a show ?thesis by (simp add: approval_simps)
      qed
    qed
  qed
qed

lemma verify_step_carried: "verify_step B H u = Some (st, u') \<Longrightarrow> carried u u'"
  by (auto simp: verify_step_def Let_def carried_def dest!: verify_loop_approval approval_expire approval_progress finish_carried
      split: option.splits prod.splits if_splits sum.splits bind_splits)

lemma erase_step_approval:
  "erase_step B u s b = Some (st, u') \<Longrightarrow> \<exists>s'. uu_session u' = Some s' \<and> approval s' = approval s"
  by (auto simp: erase_step_def Let_def approval_simps dest!: approval_progress
      split: option.splits prod.splits if_splits bool.splits bind_splits)

lemma advance_carried:
  assumes "advance B H u request = Some (st, u')" shows "carried u u'"
proof (cases "uu_session u")
  case None
  with assms show ?thesis by (auto simp: advance_def split: option.splits)
next
  case (Some s)
  obtain now b where t: "ub_now_ms B (uu_backend u) = (now, b)" by (meson surj_pair)
  obtain ex s1 where x: "session_expire s now = (ex, s1)" by (meson surj_pair)
  note a = approval_expire [OF x]
  have step: "carried u u'" if "verify_step B H (put_back u b s2) = Some (st, u')" and "approval s2 = approval s1" for s2
    using verify_step_carried [OF that(1)] that(2) a Some by (auto simp: carried_def)
  from assms Some t x a show ?thesis
    by (auto simp: advance_def Let_def approval_simps intro!: carried_put_back elim!: step
        dest!: erase_step_approval split: option.splits if_splits phase.splits) (auto simp: carried_def)
qed

lemma write_carried: "write_update B u request = Some (st, u') \<Longrightarrow> carried u u'"
  by (auto simp: write_update_def Let_def approval_simps carried_def dest!: approval_expire approval_progress
      split: option.splits prod.splits if_splits bool.splits bind_splits)

lemma begin_carried: "begin_update B H u request False = Some (st, u') \<Longrightarrow> carried u u'"
  by (auto simp: begin_update_def Let_def split: if_splits bind_splits)

lemma handle_carried:
  assumes "handle B H u request False response = Some (n, out, u')" shows "carried u u'"
proof -
  obtain st where "handle_inner B H (poll B u) request False = Some (st, u')"
    using assms by (auto simp: handle_def split: bind_splits)
  then have "carried (poll B u) u'"
    by (auto simp: handle_inner_def abort_def carried_def [of _ "_\<lparr>uu_session := None\<rparr>"]
        intro: begin_carried write_carried advance_carried
        split: list.splits option.splits operation.splits if_splits)
  with carried_poll show ?thesis by (rule carried_trans)
qed

section \<open>The device keeps the laws\<close>

definition fresh_press :: "'k wait_hook \<Rightarrow> 'k \<Rightarrow> u64 \<Rightarrow> reading list \<Rightarrow> bool" where
  "fresh_press W k now readings \<longleftrightarrow> (\<exists>k0 ks n. wh_begin_wait W k = Some k0 \<and> hook_states W k0 readings = Some ks
     \<and> orderly now (saturating_add now 15000) {Fault} (take n (poll_events W ks readings))
     \<and> fresh_gesture Released Pressed 30 30 False {Uncertain} (take n (poll_events W ks readings)))"

lemma confirm_update_fresh:
  assumes "waiting_hook W I" and "I k" and "confirm_update_user_presence W hw k now readings = Some (Some True, hw', k')"
  shows "fresh_press W k now readings"
  using waiting_hook.confirm_fresh [OF assms(1,2), of hw 15000 False now readings hw' k'] assms(3)
  by (simp add: confirm_update_user_presence_def UPDATE_USER_PRESENCE_TIMEOUT_MS_def fresh_press_def)

lemma index_frame:
  "store xs i v = Some ys \<Longrightarrow> 0 < i \<Longrightarrow> index ys 0 = index xs 0"
  "copy_from_slice xs a b src = Some ys \<Longrightarrow> 0 < a \<Longrightarrow> index ys 0 = index xs 0"
  by (auto simp: store_def copy_from_slice_def index_def nth_append split: if_splits)

lemma index_marker: "copy_from_slice xs 0 4 (a # as) = Some ys \<Longrightarrow> index ys 0 = Some a"
  by (auto simp: copy_from_slice_def index_def split: if_splits)

lemma maintenance_report_marker:
  assumes "maintenance_report output digest cmd q hz = Some out" shows "index out 0 = index output 0"
proof -
  let ?l = "qd_layout q"
  obtain a b c d e f g h i where
    o: "store output 5 (pc_target_epoch (qd_change q)) = Some a" "store a 6 (ql_running_slot ?l) = Some b"
      "store b 7 (of_nat (count_ones (qd_raw q))) = Some c" "copy_from_slice c 8 40 digest = Some d"
      "copy_from_slice d 40 44 (to_le32 (fst (ql_sequences ?l))) = Some e"
      "copy_from_slice e 44 48 (to_le32 (snd (ql_sequences ?l))) = Some f"
      "copy_from_slice f 48 52 (to_le32 hz) = Some g" "copy_from_slice g 52 54 (to_le16 (qd_raw q)) = Some h"
      "copy_from_slice h 54 56 (to_le16 (pc_delta (qd_change q))) = Some i" "store i 56 cmd = Some out"
    using assms unfolding maintenance_report_def bind_eq_Some_conv by (elim exE conjE) (rule that)
  show ?thesis
    using o(1-3,10) [THEN index_frame(1)] o(4-9) [THEN index_frame(2)] by simp
qed

lemma try_then_InrD: "try_then m f s = Some (Inr b, s') \<Longrightarrow> \<exists>a s1. f a s1 = Some (Inr b, s')"
  by (auto simp: try_then_def split: option.splits sum.splits) blast

lemma maintenance_handle_reply:
  assumes "maintenance_handle enc R E U H root SCOPE W now readings request descriptor ph output d = Some (reply, d')"
  shows "(reply = Returns None \<longrightarrow> d' = d) \<and> (\<forall>n out. reply = Returns (Some (n, out)) \<longrightarrow> index out 0 = Some 0x52)"
proof (cases "request = [] \<or> hd request \<notin> {INSPECT, PROGRAM, REHEARSE}")
  case True
  with assms show ?thesis by (auto simp: maintenance_handle_def)
next
  case False
  then obtain m r d1 where m: "copy_from_slice (zeroize output) 0 4 [0x52, 0x4b, 0x4d, 0x31] = Some m"
    and run: "maintenance_run enc R E U H root SCOPE W now readings request descriptor ph m d = Some (r, d1)"
    and rep: "(case r of Inl Blocked \<Rightarrow> Some (Waits, d1)
        | Inl (Stopped error code) \<Rightarrow> do {
            out \<leftarrow> store m 5 code;
            out \<leftarrow> store out 4 (maintenance_number error);
            Some (Returns (Some (64, out)), d1)
          }
        | Inr out \<Rightarrow> Some (Returns (Some (64, out)), d1)) = Some (reply, d')"
    using assms unfolding maintenance_handle_def
    by (cases "copy_from_slice (zeroize output) 0 4 [0x52, 0x4b, 0x4d, 0x31]")
      (auto simp: bind_eq_Some_conv [of "maintenance_run _ _ _ _ _ _ _ _ _ _ _ _ _ _ _"])
  note mark = index_marker [OF m]
  show ?thesis
  proof (cases r)
    case (Inl stop)
    show ?thesis
    proof (cases stop)
      case (Stopped e c)
      with Inl rep obtain a out where o: "store m 5 c = Some a" "store a 4 (maintenance_number e) = Some out"
        "reply = Returns (Some (64, out))" by (auto simp: bind_eq_Some_conv)
      with mark o(1,2) [THEN index_frame(1)] show ?thesis by simp
    qed (use Inl rep in auto)
  next
    case (Inr x)
    obtain cmd q hz where "maintenance_report m (sha_digest H SCOPE) cmd q hz = Some x"
      using run unfolding Inr maintenance_run_def
      by (elim try_then_InrD [THEN exE] exE) (auto simp: or_panic_def)
    with mark Inr rep show ?thesis by (auto dest!: maintenance_report_marker)
  qed
qed

lemma preview_encode_marker:
  assumes "preview_encode slot result output = Some (n, out)" shows "index out 0 = Some 0x52"
proof -
  obtain a b where a: "copy_from_slice (zeroize output) 0 4 [0x52, 0x4b, 0x45, 0x31] = Some a" and b: "store a 5 slot = Some b"
    and rest: "(case result of
         Inr (layout, img) \<Rightarrow> do {
           out \<leftarrow> store b 6 (ql_running_slot layout);
           out \<leftarrow> copy_from_slice out 8 12 (to_le32 (vi_secure_version img));
           out \<leftarrow> copy_from_slice out 12 16 (to_le32 (vi_signed_image_bytes img));
           out \<leftarrow> copy_from_slice out 16 48 (vi_signed_content_digest img);
           out \<leftarrow> copy_from_slice out 48 52 (to_le32 (fst (ql_sequences layout)));
           copy_from_slice out 52 56 (to_le32 (snd (ql_sequences layout)))
         }
       | Inl error \<Rightarrow> store b 4 (preview_number error)) = Some out"
    using assms unfolding preview_encode_def Let_def bind_eq_Some_conv by auto
  have "index out 0 = index b 0"
  proof (cases result)
    case (Inl e)
    with rest index_frame(1) [of b 4 "preview_number e" out] show ?thesis by simp
  next
    case (Inr x)
    then obtain layout img where x: "result = Inr (layout, img)" by (cases x) auto
    then obtain c d e f g where o: "store b 6 (ql_running_slot layout) = Some c"
      "copy_from_slice c 8 12 (to_le32 (vi_secure_version img)) = Some d"
      "copy_from_slice d 12 16 (to_le32 (vi_signed_image_bytes img)) = Some e"
      "copy_from_slice e 16 48 (vi_signed_content_digest img) = Some f"
      "copy_from_slice f 48 52 (to_le32 (fst (ql_sequences layout))) = Some g"
      "copy_from_slice g 52 56 (to_le32 (snd (ql_sequences layout))) = Some out"
      using rest by (auto simp: bind_eq_Some_conv)
    then show ?thesis using index_frame(1) [OF o(1)] o(2-) [THEN index_frame(2)] by simp
  qed
  with index_marker [OF a] index_frame(1) [OF b] show ?thesis by simp
qed

lemma preview_handle_reply:
  assumes "preview_handle enc R H root request descriptor ph output s = Some (reply, s')"
  shows "(reply = None \<longrightarrow> s' = s) \<and> (\<forall>n out. reply = Some (n, out) \<longrightarrow> index out 0 = Some 0x52)"
  using assms
  by (auto simp: preview_handle_def bind_eq_Some_conv split: if_splits sum.splits dest!: preview_encode_marker)

definition lawful_diagnostic ::
  "('f, 'x, 'h, 'k, 'r) vendor_state diagnostic \<Rightarrow> bool" where
  "lawful_diagnostic f \<longleftrightarrow> (\<forall>response s r s'. f response s = Some (r, s') \<longrightarrow>
     carried (vs_updater s) (vs_updater s')
     \<and> (\<forall>out. r = Returns (None, out) \<longrightarrow> s' = s \<and> out = response)
     \<and> (\<forall>n out. r = Returns (Some n, out) \<longrightarrow> index out 0 \<noteq> Some 1))"

lemma lawful_or_else:
  assumes "lawful_diagnostic f" and "lawful_diagnostic g" shows "lawful_diagnostic (or_else f g)"
  unfolding lawful_diagnostic_def
proof (intro allI impI)
  fix response s r s' assume r: "or_else f g response s = Some (r, s')"
  show "carried (vs_updater s) (vs_updater s') \<and> (\<forall>out. r = Returns (None, out) \<longrightarrow> s' = s \<and> out = response)
     \<and> (\<forall>n out. r = Returns (Some n, out) \<longrightarrow> index out 0 \<noteq> Some 1)"
  proof (cases "\<exists>out s1. f response s = Some (Returns (None, out), s1)")
    case True
    then have "f response s = Some (Returns (None, response), s)" using assms(1) by (auto simp: lawful_diagnostic_def)
    with r have "g response s = Some (r, s')" by (simp add: or_else_def)
    with assms(2) show ?thesis unfolding lawful_diagnostic_def by blast
  next
    case False
    with r have "f response s = Some (r, s')"
      by (auto simp: or_else_def split: option.splits prod.splits blocking.splits)
    with assms(1) show ?thesis unfolding lawful_diagnostic_def by blast
  qed
qed

lemma with_as_device [simp]: "with_device s (as_device s) = s"
  by (simp add: with_device_def as_device_def)

lemma carried_same_session: "uu_session u' = uu_session u \<Longrightarrow> carried u u'"
  by (auto simp: carried_def)

lemma lawful_closures:
  "lawful_diagnostic (maintenance_closure V descriptor now readings request)"
  "lawful_diagnostic (preview_closure V descriptor request)"
  "lawful_diagnostic (memory_closure V request)"
proof -
  have session: "uu_session (vs_updater (with_device s d)) = uu_session (vs_updater s)" for s :: "('a, 'b, 'c, 'd, 'e) vendor_state" and d
    by (simp add: with_device_def)
  show "lawful_diagnostic (maintenance_closure V descriptor now readings request)"
    unfolding lawful_diagnostic_def maintenance_closure_def
    by (auto simp: session answer_def intro!: carried_same_session dest!: maintenance_handle_reply
        split: option.splits blocking.splits if_splits prod.splits)
  show "lawful_diagnostic (preview_closure V descriptor request)"
    unfolding lawful_diagnostic_def preview_closure_def
    by (auto simp: answer_def intro!: carried_same_session dest!: preview_handle_reply
        split: option.splits if_splits prod.splits)
  show "lawful_diagnostic (memory_closure V request)"
    unfolding lawful_diagnostic_def memory_closure_def
    by (auto simp: mp_status_def encode_status_def index_def split: if_splits sum.splits)
qed

lemma s2_diagnostics:
  "lawful_diagnostic (hs_diagnostics (s2_handlers V descriptor secure_version now readings) request)"
proof -
  have "hs_diagnostics (s2_handlers V descriptor secure_version now readings) request =
      or_else (or_else (maintenance_closure V descriptor now readings request) (preview_closure V descriptor request))
        (memory_closure V request)"
    by (rule ext) (simp add: s2_handlers_def first_diagnostic_response_def)
  then show ?thesis by (simp add: lawful_or_else lawful_closures)
qed

lemma security_status_marker: "security_status_encode st output = Some (n, out) \<Longrightarrow> index out 0 = Some 0x52"
proof -
  assume "security_status_encode st output = Some (n, out)"
  then obtain a b c d e f g h i j k where a: "copy_from_slice (zeroize output) 0 4 [0x52, 0x4b, 0x53, 0x31] = Some a"
    and o: "copy_from_slice a 4 6 (to_le16 (st_secure_version_raw st)) = Some b"
      "copy_from_slice c 8 12 (to_le32 (st_write_disable st)) = Some d"
      "copy_from_slice d 12 16 (to_le32 (st_policy_flags st)) = Some e"
      "copy_from_slice j 24 28 (to_le32 (st_application_secure_version st)) = Some out"
    and p: "store b 6 (of_nat (count_ones (st_secure_version_raw st))) = Some c"
      "store e 16 (st_flash_crypt_count st) = Some f" "store f 17 (st_read_disable st) = Some g"
      "store g 18 (st_revoked_roots st) = Some h" "store h 19 (st_revision_major st) = Some i"
      "store i 20 (st_revision_minor st) = Some j"
    unfolding security_status_encode_def Let_def bind_eq_Some_conv by auto
  show ?thesis using index_marker [OF a] o [THEN index_frame(2)] p [THEN index_frame(1)] by simp
qed

lemmas s2_lawful = s2_diagnostics [unfolded lawful_diagnostic_def, rule_format]

interpretation s2: presence_protocol "s2_handlers V descriptor secure_version now readings"
    "\<lambda>s s'. carried (vs_updater s) (vs_updater s')"
    "\<lambda>s. (\<exists>I. waiting_hook (vb_hook V) I \<and> I (vs_hook s)) \<longrightarrow> fresh_press (vb_hook V) (vs_hook s) now readings"
  for V descriptor secure_version now readings
proof (unfold_locales, goal_cases)
  case (2 request response s out s')
  from s2_lawful [OF this] show ?case by simp
next
  case (3 request response s n out s')
  from s2_lawful [OF this] show ?case by simp
next
  case (4 request response s s')
  from s2_lawful [OF this] show ?case by simp
next
  case (5 response s n out s')
  then show ?case by (auto simp: s2_handlers_def dest!: security_status_marker)
next
  case (6 request response s r s')
  then show ?case by (auto simp: s2_handlers_def dest!: handle_carried)
next
  case (7 request response s r s' c s'')
  then have "carried (vs_updater s) (vs_updater s')" and "vs_hook s' = vs_hook s"
    by (auto simp: s2_handlers_def dest!: handle_carried)
  moreover obtain v hw k where c: "confirm_update_user_presence (vb_hook V) (vs_hardware s') (vs_hook s') now readings = Some (v, hw, k)"
    "c = (case v of None \<Rightarrow> Waits | Some b \<Rightarrow> Returns b)" "s'' = s'\<lparr>vs_hardware := hw, vs_hook := k\<rparr>"
    using 7(2) by (auto simp: s2_handlers_def)
  ultimately show ?case
    using confirm_update_fresh [of "vb_hook V" _ "vs_hook s'" "vs_hardware s'" now readings hw k]
    by (cases v) auto
qed simp

section \<open>Property\<close>

text \<open>
  A vendor request starts no update session without a fresh press. Whatever the request and
  whichever features the build has, after the dispatcher returns the updater either has no
  session, or one that carries the identity, slots, length, hash and version of a session it had
  before, or the button was released and pressed anew, uncancelled and in time, during this
  request.
\<close>

theorem session_needs_fresh_press:
  assumes "waiting_hook (vb_hook V) I" and "I (vs_hook s)"
    and "vendor_handle V request descriptor secure_version now readings response s = Some (r, s')"
  shows "uu_session (vs_updater s') = None
    \<or> (\<exists>old new. uu_session (vs_updater s) = Some old \<and> uu_session (vs_updater s') = Some new \<and> approval new = approval old)
    \<or> fresh_press (vb_hook V) (vs_hook s) now readings"
  using s2.dispatch_keeps [OF assms(3) [unfolded vendor_handle_def]] assms(1,2)
  by (cases "uu_session (vs_updater s')") (auto simp: carried_def)

text \<open>A build with the plain features and an idle updater.\<close>

definition example_vendor_build :: "(ram_hw, bytes, u32 list \<times> u32 list \<times> u32 list, nat, nat \<Rightarrow> u32) vendor_build" where
  "example_vendor_build = \<lparr>vb_flash_encryption = False, vb_epoch_preview = False, vb_epoch_maintenance = False,
     vb_rom = ram_rom, vb_sha = short_sha, vb_efuse = ram_efuse, vb_hal = ram_hal, vb_registers = ram_registers,
     vb_iram_end = 0, vb_data_start = 0, vb_root = [], vb_scope = [], vb_hook = counting_hook\<rparr>"

definition example_vendor :: "(ram_hw, bytes, u32 list \<times> u32 list \<times> u32 list, nat, nat \<Rightarrow> u32) vendor_state" where
  "example_vendor = \<lparr>vs_updater = \<lparr>uu_backend = example_flash, uu_trusted_key_digest = [],
       uu_current_version = 0x31 # replicate 31 0, uu_current_version_length = 1, uu_current_secure_version = 0,
       uu_next_session_id = 1, uu_session = None\<rparr>,
     vs_attempted = False, vs_efuse = (example_block0, [], []), vs_hardware = hardware_new, vs_hook = 0,
     vs_registers = \<lambda>_. 0\<rparr>"

lemma example_info_returns:
  "\<exists>r s'. vendor_handle example_vendor_build [0] 0x3f000020 0 0 [(10, False)] (replicate 64 0) example_vendor = Some (r, s')"
proof -
  have "handle (esp_backend False ram_rom 0x3f000020) short_sha (vs_updater example_vendor) [0] False (replicate 64 0) \<noteq> None"
    by (simp add: handle_def poll_def example_vendor_def handle_inner_def operation_parse_def encode_response_def
        copy_from_slice_def store_def subslice_def to_le32_def)
  then obtain n out u where h: "handle (esp_backend False ram_rom 0x3f000020) short_sha (vs_updater example_vendor) [0] False
      (replicate 64 0) = Some (n, out, u)" by auto
  have "index out 0 = Some 0"
    using h by (auto simp: handle_def poll_def example_vendor_def handle_inner_def operation_parse_def encode_response_def
        copy_from_slice_def store_def subslice_def to_le32_def index_def nth_append)
  with h show ?thesis
    by (simp add: vendor_handle_def vendor_dispatch_def s2_handlers_def first_diagnostic_response_def or_else_def
        maintenance_closure_def preview_closure_def memory_closure_def example_vendor_build_def SECURITY_STATUS_REQUEST_def)
qed

theorem session_needs_fresh_press_witness:
  "\<exists>r s'. vendor_handle example_vendor_build [0] 0x3f000020 0 0 [(10, False)] (replicate 64 0) example_vendor = Some (r, s')
    \<and> (uu_session (vs_updater s') = None \<or> fresh_press counting_hook 0 0 [(10, False)])"
proof -
  obtain r s' where h: "vendor_handle example_vendor_build [0] 0x3f000020 0 0 [(10, False)] (replicate 64 0) example_vendor = Some (r, s')"
    using example_info_returns by blast
  have "waiting_hook (vb_hook example_vendor_build) (\<lambda>_. True)" by (simp add: example_vendor_build_def counting.waiting_hook_axioms)
  from session_needs_fresh_press [OF this TrueI h] h show ?thesis
    by (auto simp: example_vendor_build_def example_vendor_def)
qed

end
