(* ===== verification/Request_Completion.thy ===== *)
theory Request_Completion
  imports Salpa_Prelude
begin

text \<open>
  \<^verbatim>\<open>src/request_completion.rs\<close>: completion of an application reply at the boundary
  between the firmware and the USB transport. The closure \<^verbatim>\<open>reply\<close> of the source is a
  transition of the transport's state \<^typ>\<open>'t\<close>; the caller's response buffer is returned
  with the outcome, so that its clearing is visible.
\<close>

datatype reply_error = NoPendingRequest | ResponseTooLong

datatype reply_disposition = Queued | Discarded

datatype cbor_completion = Succeeded | Failed | Interrupted

type_synonym 't reply_fn = "'t \<Rightarrow> bytes \<Rightarrow> ((reply_error + unit) \<times> 't) option"

fun disposition :: "reply_error + unit \<Rightarrow> reply_error + reply_disposition" where
  "disposition (Inr u) = Inr Queued"
| "disposition (Inl NoPendingRequest) = Inr Discarded"
| "disposition (Inl ResponseTooLong) = Inl ResponseTooLong"

definition complete_cbor ::
  "'t reply_fn \<Rightarrow> bool \<Rightarrow> bytes \<Rightarrow> 't \<Rightarrow> ((reply_error + cbor_completion) \<times> bytes \<times> 't) option"
where
  "complete_cbor reply dispatch_succeeded response t =
     (let ctap_succeeded = (dispatch_succeeded \<and> (case response of [] \<Rightarrow> False | b # _ \<Rightarrow> b = 0))
      in do {
        (result, t') \<leftarrow> (if dispatch_succeeded \<and> response \<noteq> [] then reply t response
                        else reply t [0x7f]);
        let outcome = (case disposition result of
            Inl e \<Rightarrow> Inl e
          | Inr Queued \<Rightarrow> Inr (if ctap_succeeded then Succeeded else Failed)
          | Inr Discarded \<Rightarrow> Inr Interrupted);
        Some (outcome, zeroize response, t')
      })"

definition complete_update ::
  "'t reply_fn \<Rightarrow> bytes \<Rightarrow> 't \<Rightarrow> ((reply_error + reply_disposition) \<times> bytes \<times> 't) option"
where
  "complete_update reply response t = do {
     (result, t') \<leftarrow> reply t response;
     Some (disposition result, zeroize response, t')
   }"

section \<open>What the firmware relies on in a reply\<close>

text \<open>
  The transport's side of a completion: a reply with no pending request changes nothing and
  says so, and any other reply ends the pending request. The clients are the two completion
  functions.
\<close>

locale reply_transport =
  fixes reply :: "'t reply_fn" and pending :: "'t \<Rightarrow> bool" and inv :: "'t \<Rightarrow> bool"
    and capacity :: nat
  assumes reply_none: "inv t \<Longrightarrow> \<not> pending t \<Longrightarrow> reply t p = Some (Inl NoPendingRequest, t)"
    and reply_long: "inv t \<Longrightarrow> pending t \<Longrightarrow> capacity < length p \<Longrightarrow>
        \<exists>t'. reply t p = Some (Inl ResponseTooLong, t') \<and> inv t' \<and> \<not> pending t'"
    and reply_fits: "inv t \<Longrightarrow> pending t \<Longrightarrow> length p \<le> capacity \<Longrightarrow>
        \<exists>t'. reply t p = Some (Inr (), t') \<and> inv t' \<and> \<not> pending t'"
    and capacity_pos: "inv t \<Longrightarrow> 0 < capacity"
begin

lemma reply_total:
  assumes "inv t" shows "\<exists>q t'. reply t p = Some (q, t') \<and> inv t' \<and> \<not> pending t' \<and> (length p \<le> capacity \<longrightarrow> q \<noteq> Inl ResponseTooLong)"
  using assms reply_none [of t p] reply_long [of t p] reply_fits [of t p]
  by (cases "pending t"; cases "length p \<le> capacity") fastforce+

lemma complete_cbor_total:
  assumes "inv t"
  shows "\<exists>r t'. complete_cbor reply ok resp t = Some (r, zeroize resp, t') \<and> inv t' \<and> \<not> pending t'"
proof -
  let ?p = "if ok \<and> resp \<noteq> [] then resp else [0x7f]"
  have "\<exists>q t'. reply t ?p = Some (q, t') \<and> inv t' \<and> \<not> pending t'" using reply_total [OF assms] by blast
  then show ?thesis by (auto simp: complete_cbor_def Let_def split: if_splits)
qed

lemma complete_cbor_fits:
  assumes "inv t" and "length resp \<le> capacity"
  shows "\<exists>c t'. complete_cbor reply ok resp t = Some (Inr c, zeroize resp, t') \<and> inv t' \<and> \<not> pending t'"
proof -
  let ?p = "if ok \<and> resp \<noteq> [] then resp else [0x7f]"
  have "length ?p \<le> capacity" using assms(2) capacity_pos [OF assms(1)] by simp
  then obtain q t' where "reply t ?p = Some (q, t')" "inv t'" "\<not> pending t'" "q \<noteq> Inl ResponseTooLong"
    using reply_total [OF assms(1)] by blast
  then show ?thesis
    by (cases q; cases "projl q") (auto simp: complete_cbor_def Let_def split: if_splits)
qed

lemma complete_cbor_succeeded_iff:
  assumes "inv t"
  shows "(\<exists>b t'. complete_cbor reply ok resp t = Some (Inr Succeeded, b, t')) \<longleftrightarrow>
    ok \<and> pending t \<and> (\<exists>rest. resp = 0 # rest) \<and> length resp \<le> capacity"
proof (cases "pending t")
  case False
  with assms reply_none show ?thesis
    by (auto simp: complete_cbor_def Let_def split: if_splits)
next
  case True
  note long = reply_long [OF assms True] and fits = reply_fits [OF assms True]
  show ?thesis
  proof (cases "ok \<and> resp \<noteq> []")
    case False
    then show ?thesis using fits [of "[0x7f]"] capacity_pos [OF assms]
      by (auto simp: complete_cbor_def Let_def split: list.splits)
  next
    case ok: True
    then show ?thesis using long [of resp] fits [of resp] True
      by (cases "length resp \<le> capacity")
        (force simp: complete_cbor_def Let_def split: list.splits)+
  qed
qed

lemma complete_cbor_interrupted_iff:
  assumes "inv t"
  shows "(\<exists>b t'. complete_cbor reply ok resp t = Some (Inr Interrupted, b, t')) \<longleftrightarrow> \<not> pending t"
proof (cases "pending t")
  case False
  with assms reply_none show ?thesis
    by (auto simp: complete_cbor_def Let_def split: if_splits)
next
  case True
  let ?p = "if ok \<and> resp \<noteq> [] then resp else [0x7f]"
  have "\<exists>q t'. reply t ?p = Some (q, t') \<and> q \<noteq> Inl NoPendingRequest"
    using reply_long [OF assms True, of ?p] reply_fits [OF assms True, of ?p]
    by (cases "length ?p \<le> capacity") auto
  then show ?thesis using True
    by (auto simp: complete_cbor_def Let_def split: if_splits sum.splits reply_disposition.splits
        elim!: disposition.elims)
qed

end

end
