(* ===== verification/Ctaphid.thy ===== *)
theory Ctaphid
  imports Request_Completion
begin

text \<open>
  \<^verbatim>\<open>src/ctaphid.rs\<close>: the CTAPHID transport engine. The record \<open>ctap_hid\<close> is the struct
  \<^verbatim>\<open>CtapHid<N>\<close>, one definition per method; the const generic \<^verbatim>\<open>N\<close> and the cargo feature
  \<^verbatim>\<open>usb-signed-update\<close> are the fields of the build configuration \<open>hid_build\<close>. A panic
  (slice out of range, \<^verbatim>\<open>usize\<close> underflow, \<^verbatim>\<open>unreachable!\<close>) is \<^term>\<open>None\<close>.
\<close>

section \<open>Constants and types\<close>

definition PACKET_SIZE :: nat where "PACKET_SIZE = 64"
definition INIT_PAYLOAD_SIZE :: nat where "INIT_PAYLOAD_SIZE = 57"
definition CONT_PAYLOAD_SIZE :: nat where "CONT_PAYLOAD_SIZE = 59"
definition MAX_MESSAGE_SIZE :: nat where "MAX_MESSAGE_SIZE = 1024"
definition MAX_CTAPHID_MESSAGE_SIZE :: nat where
  "MAX_CTAPHID_MESSAGE_SIZE = INIT_PAYLOAD_SIZE + 128 * CONT_PAYLOAD_SIZE"
definition BROADCAST_CHANNEL :: u32 where "BROADCAST_CHANNEL = 0xffffffff"
definition RESERVED_CHANNEL :: u32 where "RESERVED_CHANNEL = 0"
definition RECEIVE_TIMEOUT_MS :: u32 where "RECEIVE_TIMEOUT_MS = 550"
definition ERROR_CAPACITY :: nat where "ERROR_CAPACITY = 8"

datatype command =
    Cmd_Ping | Cmd_Msg | Cmd_Lock | Cmd_Init | Cmd_Wink | Cmd_Cbor | Cmd_Cancel
  | Cmd_Keepalive | Cmd_Error | Cmd_Update

fun command_number :: "command \<Rightarrow> u8" where
  "command_number Cmd_Ping = 0x01"
| "command_number Cmd_Msg = 0x03"
| "command_number Cmd_Lock = 0x04"
| "command_number Cmd_Init = 0x06"
| "command_number Cmd_Wink = 0x08"
| "command_number Cmd_Cbor = 0x10"
| "command_number Cmd_Cancel = 0x11"
| "command_number Cmd_Keepalive = 0x3b"
| "command_number Cmd_Error = 0x3f"
| "command_number Cmd_Update = 0x51"

definition from_number :: "u8 \<Rightarrow> command option" where
  "from_number v =
     (if v = 0x01 then Some Cmd_Ping else if v = 0x03 then Some Cmd_Msg
      else if v = 0x04 then Some Cmd_Lock else if v = 0x06 then Some Cmd_Init
      else if v = 0x08 then Some Cmd_Wink else if v = 0x10 then Some Cmd_Cbor
      else if v = 0x11 then Some Cmd_Cancel else if v = 0x3b then Some Cmd_Keepalive
      else if v = 0x3f then Some Cmd_Error else if v = 0x51 then Some Cmd_Update
      else None)"

datatype transport_error =
  InvalidCommand | InvalidLength | InvalidSequence | Timeout | ChannelBusy | InvalidChannel

fun transport_error_code :: "transport_error \<Rightarrow> u8" where
  "transport_error_code InvalidCommand = 0x01"
| "transport_error_code InvalidLength = 0x03"
| "transport_error_code InvalidSequence = 0x04"
| "transport_error_code Timeout = 0x05"
| "transport_error_code ChannelBusy = 0x06"
| "transport_error_code InvalidChannel = 0x0b"

datatype keepalive_status = Processing | UserPresenceNeeded

fun keepalive_code :: "keepalive_status \<Rightarrow> u8" where
  "keepalive_code Processing = 0x01"
| "keepalive_code UserPresenceNeeded = 0x02"

record device_version =
  dv_major :: u8
  dv_minor :: u8
  dv_build :: u8

datatype hid_event =
    Ev_None
  | Ev_Cbor (ev_channel: u32) (ev_length: nat)
  | Ev_Update (ev_channel: u32) (ev_length: nat)
  | Ev_Cancelled (ev_channel: u32)

record receive_state =
  rs_channel :: u32
  rs_command :: command
  rs_length :: nat
  rs_received :: nat
  rs_next_sequence :: u8
  rs_last_activity_ms :: u32

record app_request =
  ar_channel :: u32
  ar_command :: command
  ar_length :: nat

record transmit_state =
  ts_channel :: u32
  ts_command :: command
  ts_length :: nat
  ts_offset :: nat
  ts_next_sequence :: u8

record pending_error =
  pe_channel :: u32
  pe_error :: transport_error

record ctap_hid =
  hid_request :: bytes
  hid_response :: bytes
  hid_receive :: "receive_state option"
  hid_app_request :: "app_request option"
  hid_transmit :: "transmit_state option"
  hid_keepalive :: "(u32 \<times> keepalive_status) option"
  hid_errors :: "pending_error option list"
  hid_last_channel :: u32
  hid_version :: device_version
  hid_capabilities :: u8

record hid_build =
  buf_size :: nat
  update_feature :: bool

section \<open>Operations\<close>

definition hid_new :: "hid_build \<Rightarrow> device_version \<Rightarrow> u8 \<Rightarrow> ctap_hid option" where
  "hid_new B version capabilities =
     (if 17 \<le> buf_size B \<and> buf_size B \<le> MAX_CTAPHID_MESSAGE_SIZE
      then Some \<lparr>hid_request = replicate (buf_size B) 0, hid_response = replicate (buf_size B) 0,
        hid_receive = None, hid_app_request = None, hid_transmit = None, hid_keepalive = None,
        hid_errors = replicate ERROR_CAPACITY None, hid_last_channel = RESERVED_CHANNEL,
        hid_version = version, hid_capabilities = capabilities\<rparr>
      else None)"

definition abort_transaction :: "ctap_hid \<Rightarrow> ctap_hid" where
  "abort_transaction s = s\<lparr>hid_request := zeroize (hid_request s),
     hid_response := zeroize (hid_response s), hid_receive := None, hid_app_request := None,
     hid_transmit := None, hid_keepalive := None\<rparr>"

definition transport_error :: "ctap_hid \<Rightarrow> ctap_hid" where
  "transport_error s =
     (abort_transaction s)\<lparr>hid_errors := replicate (length (hid_errors s)) None\<rparr>"

text \<open>\<open>set_first_free\<close> is the \<^verbatim>\<open>iter_mut().find(|slot| slot.is_none())\<close> of \<^verbatim>\<open>queue_error\<close>.\<close>

fun set_first_free :: "'a \<Rightarrow> 'a option list \<Rightarrow> 'a option list" where
  "set_first_free e [] = []"
| "set_first_free e (None # xs) = Some e # xs"
| "set_first_free e (Some x # xs) = Some x # set_first_free e xs"

definition queue_error :: "ctap_hid \<Rightarrow> u32 \<Rightarrow> transport_error \<Rightarrow> ctap_hid" where
  "queue_error s channel error =
     (if list_ex (\<lambda>p. case p of None \<Rightarrow> False | Some pending \<Rightarrow> pe_channel pending = channel)
           (hid_errors s)
      then s
      else s\<lparr>hid_errors :=
        set_first_free \<lparr>pe_channel = channel, pe_error = error\<rparr> (hid_errors s)\<rparr>)"

definition start_transmit :: "ctap_hid \<Rightarrow> u32 \<Rightarrow> command \<Rightarrow> nat \<Rightarrow> ctap_hid" where
  "start_transmit s channel cmd len = s\<lparr>hid_transmit := Some \<lparr>ts_channel = channel,
     ts_command = cmd, ts_length = len, ts_offset = 0, ts_next_sequence = 0\<rparr>\<rparr>"

definition active_channel :: "ctap_hid \<Rightarrow> u32 option" where
  "active_channel s = (case hid_receive s of
       Some r \<Rightarrow> Some (rs_channel r)
     | None \<Rightarrow> (case hid_app_request s of
         Some a \<Rightarrow> Some (ar_channel a)
       | None \<Rightarrow> map_option ts_channel (hid_transmit s)))"

definition cancel_application_request :: "ctap_hid \<Rightarrow> bool \<times> ctap_hid" where
  "cancel_application_request s =
     (case hid_app_request s of
        None \<Rightarrow> (False, s)
      | Some _ \<Rightarrow> (True, s\<lparr>hid_keepalive := None\<rparr>))"

definition is_allocated :: "ctap_hid \<Rightarrow> u32 \<Rightarrow> bool" where
  "is_allocated s channel \<longleftrightarrow>
     channel \<noteq> RESERVED_CHANNEL \<and> channel \<noteq> BROADCAST_CHANNEL \<and> channel \<le> hid_last_channel s"

text \<open>The loop of \<^verbatim>\<open>allocate_channel\<close>, on the counter \<^verbatim>\<open>last_channel\<close> alone.\<close>

function next_channel :: "u32 \<Rightarrow> u32" where
  "next_channel lc =
     (let c = lc + 1 in
      if c \<noteq> RESERVED_CHANNEL \<and> c \<noteq> BROADCAST_CHANNEL then c else next_channel c)"
  by pat_completeness auto
termination
proof (relation "measure (\<lambda>c :: u32. if c = 0xfffffffe then 2 else if c = 0xffffffff then 1 else 0)",
    goal_cases)
  case 1
  then show ?case by simp
next
  case (2 lc c)
  then have "c = 0 \<or> c = - 1" and c: "c = lc + 1"
    by (auto simp: RESERVED_CHANNEL_def BROADCAST_CHANNEL_def)
  then have "lc = - 1 \<or> lc = - 2" by (auto simp: eq_neg_iff_add_eq_0 algebra_simps)
  with c show ?case by auto
qed

declare next_channel.simps [simp del]

definition allocate_channel :: "ctap_hid \<Rightarrow> u32 \<times> ctap_hid" where
  "allocate_channel s =
     (let c = next_channel (hid_last_channel s) in (c, s\<lparr>hid_last_channel := c\<rparr>))"

definition dispatch_init :: "ctap_hid \<Rightarrow> u32 \<Rightarrow> nat \<Rightarrow> (hid_event \<times> ctap_hid) option" where
  "dispatch_init s channel len =
     (if channel = RESERVED_CHANNEL then
        Some (Ev_None, queue_error (s\<lparr>hid_request := zeroize (hid_request s)\<rparr>) channel InvalidChannel)
      else if len \<noteq> 8 then
        Some (Ev_None, queue_error (s\<lparr>hid_request := zeroize (hid_request s)\<rparr>) channel InvalidLength)
      else if channel \<noteq> BROADCAST_CHANNEL \<and> \<not> is_allocated s channel then
        Some (Ev_None, queue_error (s\<lparr>hid_request := zeroize (hid_request s)\<rparr>) channel InvalidChannel)
      else do {
        let (assigned, s) = (if channel = BROADCAST_CHANNEL then allocate_channel s else (channel, s));
        nonce \<leftarrow> subslice (hid_request s) 0 8;
        r \<leftarrow> copy_from_slice (zeroize (hid_response s)) 0 8 nonce;
        r \<leftarrow> copy_from_slice r 8 12 (to_be32 assigned);
        r \<leftarrow> store r 12 2;
        r \<leftarrow> store r 13 (dv_major (hid_version s));
        r \<leftarrow> store r 14 (dv_minor (hid_version s));
        r \<leftarrow> store r 15 (dv_build (hid_version s));
        r \<leftarrow> store r 16 (hid_capabilities s);
        Some (Ev_None, start_transmit
          (s\<lparr>hid_response := r, hid_request := zeroize (hid_request s)\<rparr>) channel Cmd_Init 17)
      })"

definition dispatch :: "hid_build \<Rightarrow> ctap_hid \<Rightarrow> u32 \<Rightarrow> command \<Rightarrow> nat \<Rightarrow> (hid_event \<times> ctap_hid) option"
where
  "dispatch B s channel cmd len =
     (if cmd = Cmd_Init then dispatch_init s channel len
      else if channel = RESERVED_CHANNEL \<or> channel = BROADCAST_CHANNEL \<or> \<not> is_allocated s channel
      then Some (Ev_None, queue_error (s\<lparr>hid_request := zeroize (hid_request s)\<rparr>) channel InvalidChannel)
      else (case cmd of
        Cmd_Ping \<Rightarrow> do {
          payload \<leftarrow> subslice (hid_request s) 0 len;
          r \<leftarrow> copy_from_slice (zeroize (hid_response s)) 0 len payload;
          Some (Ev_None, start_transmit
            (s\<lparr>hid_response := r, hid_request := zeroize (hid_request s)\<rparr>) channel cmd len)
        }
      | Cmd_Cbor \<Rightarrow>
          Some (Ev_Cbor channel len,
            s\<lparr>hid_app_request := Some \<lparr>ar_channel = channel, ar_command = cmd, ar_length = len\<rparr>\<rparr>)
      | Cmd_Update \<Rightarrow>
          if update_feature B
          then Some (Ev_Update channel len,
            s\<lparr>hid_app_request := Some \<lparr>ar_channel = channel, ar_command = cmd, ar_length = len\<rparr>\<rparr>)
          else Some (Ev_None,
            queue_error (s\<lparr>hid_request := zeroize (hid_request s)\<rparr>) channel InvalidCommand)
      | Cmd_Cancel \<Rightarrow> Some (Ev_None, s\<lparr>hid_request := zeroize (hid_request s)\<rparr>)
      | Cmd_Init \<Rightarrow> None
      | _ \<Rightarrow> Some (Ev_None,
            queue_error (s\<lparr>hid_request := zeroize (hid_request s)\<rparr>) channel InvalidCommand)))"

definition ingest_continuation ::
  "hid_build \<Rightarrow> ctap_hid \<Rightarrow> u32 \<Rightarrow> bytes \<Rightarrow> u32 \<Rightarrow> (hid_event \<times> ctap_hid) option" where
  "ingest_continuation B s channel packet now_ms =
     (case hid_receive s of
        None \<Rightarrow> Some (Ev_None, s)
      | Some rcv \<Rightarrow>
          if channel \<noteq> rs_channel rcv then Some (Ev_None, s)
          else do {
            seq \<leftarrow> index packet 4;
            if seq \<noteq> rs_next_sequence rcv then
              Some (Ev_None, queue_error
                (s\<lparr>hid_receive := None, hid_request := zeroize (hid_request s)\<rparr>)
                channel InvalidSequence)
            else do {
              remaining \<leftarrow> usize_sub (rs_length rcv) (rs_received rcv);
              let count = min remaining CONT_PAYLOAD_SIZE;
              payload \<leftarrow> subslice packet 5 (5 + count);
              req \<leftarrow> copy_from_slice (hid_request s) (rs_received rcv) (rs_received rcv + count) payload;
              let rcv = rcv\<lparr>rs_received := rs_received rcv + count,
                            rs_next_sequence := rs_next_sequence rcv + 1,
                            rs_last_activity_ms := now_ms\<rparr>;
              let s = s\<lparr>hid_request := req\<rparr>;
              if rs_received rcv = rs_length rcv
              then dispatch B (s\<lparr>hid_receive := None\<rparr>) (rs_channel rcv) (rs_command rcv) (rs_length rcv)
              else Some (Ev_None, s\<lparr>hid_receive := Some rcv\<rparr>)
            }
          })"

text \<open>
  \<open>ingest_start\<close> is the second half of \<^verbatim>\<open>ingest\<close>, reached when no transaction is active or
  an INIT has just aborted it.
\<close>

definition ingest_start ::
  "hid_build \<Rightarrow> ctap_hid \<Rightarrow> u32 \<Rightarrow> u8 \<Rightarrow> nat \<Rightarrow> bytes \<Rightarrow> u32 \<Rightarrow> (hid_event \<times> ctap_hid) option" where
  "ingest_start B s channel cmdnum len packet now_ms =
     (let s = s\<lparr>hid_request := zeroize (hid_request s)\<rparr> in
      case from_number cmdnum of
        None \<Rightarrow> Some (Ev_None, queue_error s channel InvalidCommand)
      | Some cmd \<Rightarrow>
          if buf_size B < len then Some (Ev_None, queue_error s channel InvalidLength)
          else if cmd = Cmd_Init \<and> len \<noteq> 8 \<or> cmd = Cmd_Cancel \<and> len \<noteq> 0
          then Some (Ev_None, queue_error s channel InvalidLength)
          else do {
            let copied = min len INIT_PAYLOAD_SIZE;
            payload \<leftarrow> subslice packet 7 (7 + copied);
            req \<leftarrow> copy_from_slice (hid_request s) 0 copied payload;
            let s = s\<lparr>hid_request := req\<rparr>;
            if INIT_PAYLOAD_SIZE < len
            then Some (Ev_None, s\<lparr>hid_receive := Some \<lparr>rs_channel = channel, rs_command = cmd,
                rs_length = len, rs_received = INIT_PAYLOAD_SIZE, rs_next_sequence = 0,
                rs_last_activity_ms = now_ms\<rparr>\<rparr>)
            else dispatch B s channel cmd len
          })"

definition ingest :: "hid_build \<Rightarrow> ctap_hid \<Rightarrow> bytes \<Rightarrow> u32 \<Rightarrow> (hid_event \<times> ctap_hid) option" where
  "ingest B s packet now_ms = do {
     channel \<leftarrow> Option.bind (subslice packet 0 4) from_be32;
     b4 \<leftarrow> index packet 4;
     if b4 AND 0x80 = 0 then ingest_continuation B s channel packet now_ms
     else do {
       let cmdnum = b4 AND 0x7f;
       len16 \<leftarrow> Option.bind (subslice packet 5 7) from_be16;
       let len = unat len16;
       let is_cancel = (cmdnum = command_number Cmd_Cancel);
       case active_channel s of
         None \<Rightarrow> ingest_start B s channel cmdnum len packet now_ms
       | Some active \<Rightarrow>
           if is_cancel \<and> channel \<noteq> active then Some (Ev_None, s)
           else if channel \<noteq> active then Some (Ev_None, queue_error s channel ChannelBusy)
           else if cmdnum = command_number Cmd_Init
           then ingest_start B (abort_transaction s) channel cmdnum len packet now_ms
           else if is_cancel then
             (if len \<noteq> 0 then Some (Ev_None, queue_error s channel InvalidLength)
              else (case cancel_application_request s of
                  (cancelled, s') \<Rightarrow> Some (if cancelled then Ev_Cancelled channel else Ev_None, s')))
           else Some (Ev_None, queue_error (abort_transaction s) channel InvalidSequence)
     }
   }"

definition request_payload :: "ctap_hid \<Rightarrow> bytes option option" where
  "request_payload s = (case hid_app_request s of
       None \<Rightarrow> Some None
     | Some req \<Rightarrow> map_option Some (subslice (hid_request s) 0 (ar_length req)))"

definition ingest_with_interruption ::
  "hid_build \<Rightarrow> ctap_hid \<Rightarrow> bytes \<Rightarrow> u32 \<Rightarrow> ((hid_event \<times> bool) \<times> ctap_hid) option" where
  "ingest_with_interruption B s packet now_ms = do {
     let application_was_running = (hid_app_request s \<noteq> None);
     (event, s') \<leftarrow> ingest B s packet now_ms;
     let interrupted = (application_was_running \<and> hid_app_request s' = None
        \<or> (case event of Ev_Cancelled _ \<Rightarrow> True | _ \<Rightarrow> False));
     Some ((event, interrupted), s')
   }"

definition ingest_report ::
  "hid_build \<Rightarrow> ctap_hid \<Rightarrow> bytes \<Rightarrow> u32 \<Rightarrow> ((hid_event \<times> bool) \<times> ctap_hid) option" where
  "ingest_report B s report now_ms =
     (if length report = PACKET_SIZE then ingest_with_interruption B s report now_ms
      else Some ((Ev_None, True), transport_error s))"

definition reply :: "hid_build \<Rightarrow> ctap_hid \<Rightarrow> bytes \<Rightarrow> ((reply_error + unit) \<times> ctap_hid) option" where
  "reply B s payload =
     (case hid_app_request s of
        None \<Rightarrow> Some (Inl NoPendingRequest, s)
      | Some req \<Rightarrow>
          let s = s\<lparr>hid_app_request := None, hid_request := zeroize (hid_request s)\<rparr> in
          if buf_size B < length payload
          then Some (Inl ResponseTooLong, queue_error s (ar_channel req) InvalidLength)
          else do {
            r \<leftarrow> copy_from_slice (zeroize (hid_response s)) 0 (length payload) payload;
            Some (Inr (), start_transmit (s\<lparr>hid_response := r\<rparr>)
              (ar_channel req) (ar_command req) (length payload))
          })"

definition keepalive :: "ctap_hid \<Rightarrow> keepalive_status \<Rightarrow> bool \<times> ctap_hid" where
  "keepalive s status = (case hid_app_request s of
       None \<Rightarrow> (False, s)
     | Some req \<Rightarrow> (True, s\<lparr>hid_keepalive := Some (ar_channel req, status)\<rparr>))"

definition expire :: "ctap_hid \<Rightarrow> u32 \<Rightarrow> ctap_hid" where
  "expire s now_ms = (case hid_receive s of
       None \<Rightarrow> s
     | Some rcv \<Rightarrow>
         if RECEIVE_TIMEOUT_MS < now_ms - rs_last_activity_ms rcv
         then queue_error (s\<lparr>hid_receive := None, hid_request := zeroize (hid_request s)\<rparr>)
                (rs_channel rcv) Timeout
         else s)"

definition initial_packet :: "u32 \<Rightarrow> command \<Rightarrow> nat \<Rightarrow> bytes option" where
  "initial_packet channel cmd len = do {
     p \<leftarrow> copy_from_slice (replicate PACKET_SIZE 0) 0 4 (to_be32 channel);
     p \<leftarrow> store p 4 (command_number cmd OR 0x80);
     copy_from_slice p 5 7 (to_be16 (of_nat len))
   }"

definition next_packet :: "ctap_hid \<Rightarrow> bytes option option" where
  "next_packet s = do {
     front \<leftarrow> index (hid_errors s) 0;
     case front of
       Some error \<Rightarrow> do {
         p \<leftarrow> initial_packet (pe_channel error) Cmd_Error 1;
         p \<leftarrow> store p 7 (transport_error_code (pe_error error));
         Some (Some p)
       }
     | None \<Rightarrow> (case hid_keepalive s of
         Some (channel, status) \<Rightarrow> do {
           p \<leftarrow> initial_packet channel Cmd_Keepalive 1;
           p \<leftarrow> store p 7 (keepalive_code status);
           Some (Some p)
         }
       | None \<Rightarrow> (case hid_transmit s of
           None \<Rightarrow> Some None
         | Some t \<Rightarrow> do {
             p \<leftarrow> copy_from_slice (replicate PACKET_SIZE 0) 0 4 (to_be32 (ts_channel t));
             if ts_offset t = 0 then do {
               p \<leftarrow> store p 4 (command_number (ts_command t) OR 0x80);
               p \<leftarrow> copy_from_slice p 5 7 (to_be16 (of_nat (ts_length t)));
               let count = min (ts_length t) INIT_PAYLOAD_SIZE;
               payload \<leftarrow> subslice (hid_response s) 0 count;
               p \<leftarrow> copy_from_slice p 7 (7 + count) payload;
               Some (Some p)
             } else do {
               p \<leftarrow> store p 4 (ts_next_sequence t);
               remaining \<leftarrow> usize_sub (ts_length t) (ts_offset t);
               let count = min remaining CONT_PAYLOAD_SIZE;
               payload \<leftarrow> subslice (hid_response s) (ts_offset t) (ts_offset t + count);
               p \<leftarrow> copy_from_slice p 5 (5 + count) payload;
               Some (Some p)
             }
           }))
   }"

definition packet_sent :: "ctap_hid \<Rightarrow> ctap_hid option" where
  "packet_sent s = do {
     front \<leftarrow> index (hid_errors s) 0;
     if front \<noteq> None then do {
       errors \<leftarrow> store (rotate1 (hid_errors s)) (ERROR_CAPACITY - 1) None;
       Some (s\<lparr>hid_errors := errors\<rparr>)
     }
     else if hid_keepalive s \<noteq> None then Some (s\<lparr>hid_keepalive := None\<rparr>)
     else (case hid_transmit s of
         None \<Rightarrow> Some s
       | Some t \<Rightarrow> do {
           remaining \<leftarrow> usize_sub (ts_length t) (ts_offset t);
           let count = (if ts_offset t = 0 then min (ts_length t) INIT_PAYLOAD_SIZE
                        else min remaining CONT_PAYLOAD_SIZE);
           let t = t\<lparr>ts_offset := ts_offset t + count\<rparr>;
           Some (if ts_length t \<le> ts_offset t
             then s\<lparr>hid_transmit := None, hid_response := zeroize (hid_response s)\<rparr>
             else s\<lparr>hid_transmit := Some
               (if INIT_PAYLOAD_SIZE < ts_offset t
                then t\<lparr>ts_next_sequence := ts_next_sequence t + 1\<rparr> else t)\<rparr>)
         })
   }"

section \<open>The engine's invariant\<close>

text \<open>
  What every reachable engine satisfies: buffers of the build's size, cursors inside the
  message and the message inside the buffer, at most one transaction at a time, a packed
  error queue with one entry per channel, and buffers that hold bytes only while a
  transaction owns them.
\<close>

definition build_ok :: "hid_build \<Rightarrow> bool" where
  "build_ok B \<longleftrightarrow> 17 \<le> buf_size B \<and> buf_size B \<le> MAX_CTAPHID_MESSAGE_SIZE"

definition receive_ok :: "hid_build \<Rightarrow> receive_state \<Rightarrow> bool" where
  "receive_ok B r \<longleftrightarrow> rs_length r \<le> buf_size B \<and> INIT_PAYLOAD_SIZE \<le> rs_received r
     \<and> rs_received r < rs_length r
     \<and> rs_next_sequence r = of_nat ((rs_received r - INIT_PAYLOAD_SIZE) div CONT_PAYLOAD_SIZE)
     \<and> CONT_PAYLOAD_SIZE dvd rs_received r - INIT_PAYLOAD_SIZE"

definition transmit_ok :: "hid_build \<Rightarrow> transmit_state \<Rightarrow> bool" where
  "transmit_ok B t \<longleftrightarrow> ts_length t \<le> buf_size B
     \<and> (ts_offset t = 0 \<and> ts_next_sequence t = 0
        \<or> INIT_PAYLOAD_SIZE \<le> ts_offset t \<and> ts_offset t < ts_length t
        \<and> ts_next_sequence t = of_nat ((ts_offset t - INIT_PAYLOAD_SIZE) div CONT_PAYLOAD_SIZE)
        \<and> CONT_PAYLOAD_SIZE dvd ts_offset t - INIT_PAYLOAD_SIZE)"

definition errors_ok :: "pending_error option list \<Rightarrow> bool" where
  "errors_ok es \<longleftrightarrow> length es = ERROR_CAPACITY
     \<and> list_all (\<lambda>e. e = None) (dropWhile (\<lambda>e. e \<noteq> None) es)
     \<and> distinct (map (\<lambda>e. pe_channel (the e)) (takeWhile (\<lambda>e. e \<noteq> None) es))"

definition one_transaction :: "ctap_hid \<Rightarrow> bool" where
  "one_transaction s \<longleftrightarrow>
     (hid_receive s \<noteq> None \<longrightarrow> hid_app_request s = None \<and> hid_transmit s = None)
   \<and> (hid_app_request s \<noteq> None \<longrightarrow> hid_transmit s = None)"

definition buffers_clean :: "ctap_hid \<Rightarrow> bool" where
  "buffers_clean s \<longleftrightarrow>
     (hid_receive s = None \<and> hid_app_request s = None \<longrightarrow> hid_request s = zeroize (hid_request s))
   \<and> (hid_transmit s = None \<longrightarrow> hid_response s = zeroize (hid_response s))"

definition hid_wf :: "hid_build \<Rightarrow> ctap_hid \<Rightarrow> bool" where
  "hid_wf B s \<longleftrightarrow> build_ok B \<and> length (hid_request s) = buf_size B
     \<and> length (hid_response s) = buf_size B
     \<and> (case hid_receive s of None \<Rightarrow> True | Some r \<Rightarrow> receive_ok B r)
     \<and> (case hid_app_request s of None \<Rightarrow> True | Some a \<Rightarrow> ar_length a \<le> buf_size B)
     \<and> (case hid_transmit s of None \<Rightarrow> True | Some t \<Rightarrow> transmit_ok B t)
     \<and> errors_ok (hid_errors s) \<and> one_transaction s \<and> buffers_clean s"

text \<open>The inputs of the engine: everything its owner, \<^verbatim>\<open>UsbRuntime\<close>, can call.\<close>

datatype hid_input =
    In_Report bytes u32
  | In_TransportError
  | In_Reply bytes
  | In_Keepalive keepalive_status
  | In_Expire u32
  | In_NextPacket
  | In_PacketSent
  | In_RequestPayload

fun hid_step :: "hid_build \<Rightarrow> ctap_hid \<Rightarrow> hid_input \<Rightarrow> ctap_hid option" where
  "hid_step B s (In_Report report now_ms) = map_option snd (ingest_report B s report now_ms)"
| "hid_step B s In_TransportError = Some (transport_error s)"
| "hid_step B s (In_Reply payload) = map_option snd (reply B s payload)"
| "hid_step B s (In_Keepalive status) = Some (snd (keepalive s status))"
| "hid_step B s (In_Expire now_ms) = Some (expire s now_ms)"
| "hid_step B s In_NextPacket = map_option (\<lambda>_. s) (next_packet s)"
| "hid_step B s In_PacketSent = packet_sent s"
| "hid_step B s In_RequestPayload = map_option (\<lambda>_. s) (request_payload s)"

section \<open>The wire format of a message\<close>

text \<open>
  The specification both directions are compared with: a message is one initialization
  report with its first 57 bytes and continuation reports of 59 bytes, numbered from zero.
  \<open>drain\<close> is the sending loop of the owner (\<^verbatim>\<open>send_pending\<close> until nothing is left), with
  fuel; \<open>feed\<close> delivers reports one after another.
\<close>

function cont_packets :: "u32 \<Rightarrow> u8 \<Rightarrow> bytes \<Rightarrow> bytes list" where
  "cont_packets c seq p =
     (if p = [] then []
      else (to_be32 c @ seq # take 59 p @ replicate (59 - length (take 59 p)) 0)
           # cont_packets c (seq + 1) (drop 59 p))"
  by pat_completeness auto
termination
  by (relation "measure (\<lambda>(c, seq, p). length p)") auto

declare cont_packets.simps [simp del]

definition message_packets :: "u32 \<Rightarrow> command \<Rightarrow> bytes \<Rightarrow> bytes list" where
  "message_packets c cmd p =
     (to_be32 c @ (command_number cmd OR 0x80) # to_be16 (of_nat (length p)) @ take 57 p
        @ replicate (57 - length (take 57 p)) 0)
     # cont_packets c 0 (drop 57 p)"

fun drain :: "nat \<Rightarrow> ctap_hid \<Rightarrow> (bytes list \<times> ctap_hid) option" where
  "drain 0 s = None"
| "drain (Suc fuel) s = do {
     r \<leftarrow> next_packet s;
     case r of
       None \<Rightarrow> Some ([], s)
     | Some p \<Rightarrow> do {
         s' \<leftarrow> packet_sent s;
         (ps, s'') \<leftarrow> drain fuel s';
         Some (p # ps, s'')
       }
   }"

fun feed :: "hid_build \<Rightarrow> ctap_hid \<Rightarrow> u32 \<Rightarrow> bytes list \<Rightarrow> (hid_event list \<times> ctap_hid) option" where
  "feed B s now [] = Some ([], s)"
| "feed B s now (p # ps) = do {
     (ev, s') \<leftarrow> ingest B s p now;
     (evs, s'') \<leftarrow> feed B s' now ps;
     Some (ev # evs, s'')
   }"

section \<open>Lemmas: the error queue\<close>

lemmas hid_consts = PACKET_SIZE_def INIT_PAYLOAD_SIZE_def CONT_PAYLOAD_SIZE_def
  MAX_CTAPHID_MESSAGE_SIZE_def ERROR_CAPACITY_def

lemma queue_error_fields [simp]:
  "hid_request (queue_error s c e) = hid_request s"
  "hid_response (queue_error s c e) = hid_response s"
  "hid_receive (queue_error s c e) = hid_receive s"
  "hid_app_request (queue_error s c e) = hid_app_request s"
  "hid_transmit (queue_error s c e) = hid_transmit s"
  "hid_keepalive (queue_error s c e) = hid_keepalive s"
  "hid_last_channel (queue_error s c e) = hid_last_channel s"
  "hid_version (queue_error s c e) = hid_version s"
  "hid_capabilities (queue_error s c e) = hid_capabilities s"
  by (simp_all add: queue_error_def)

lemma set_first_free_packed:
  assumes "list_all (\<lambda>e. e = None) (dropWhile (\<lambda>e. e \<noteq> None) es)"
  shows "list_all (\<lambda>e. e = None) (dropWhile (\<lambda>e. e \<noteq> None) (set_first_free x es))"
    and "takeWhile (\<lambda>e. e \<noteq> None) (set_first_free x es) =
      takeWhile (\<lambda>e. e \<noteq> None) es @ (if None \<in> set es then [Some x] else [])"
    and "length (set_first_free x es) = length es"
  using assms
proof (induction es rule: set_first_free.induct)
  case (2 e xs)
  {
    case 1
    then show ?case by (cases xs) auto
  next
    case 2
    then show ?case by (cases xs) auto
  next
    case 3
    then show ?case by simp
  }
qed auto

lemma queue_error_errors_ok: "errors_ok (hid_errors s) \<Longrightarrow> errors_ok (hid_errors (queue_error s c e))"
proof (cases "list_ex (\<lambda>p. case p of None \<Rightarrow> False | Some q \<Rightarrow> pe_channel q = c) (hid_errors s)")
  case True
  then show "errors_ok (hid_errors s) \<Longrightarrow> ?thesis" by (simp add: queue_error_def)
next
  case False
  assume ok: "errors_ok (hid_errors s)"
  have "c \<notin> set (map (\<lambda>e. pe_channel (the e)) (takeWhile (\<lambda>e. e \<noteq> None) (hid_errors s)))"
    using False by (auto simp: list_ex_iff dest!: set_takeWhileD)
  with ok False show ?thesis
    by (auto simp: queue_error_def errors_ok_def set_first_free_packed simp del: not_None_eq)
qed

lemma errors_ok_rotate:
  assumes "errors_ok es" and "es ! 0 \<noteq> None"
  shows "errors_ok ((rotate1 es)[ERROR_CAPACITY - 1 := None])"
proof -
  from assms obtain e rest where es: "es = Some e # rest" and len: "length rest = 7"
    by (cases es) (auto simp: errors_ok_def ERROR_CAPACITY_def)
  then have eq: "(rotate1 es)[ERROR_CAPACITY - 1 := None] = rest @ [None]"
    by (simp add: ERROR_CAPACITY_def list_update_append)
  have "list_all (\<lambda>e. e = None) (dropWhile (\<lambda>e. e \<noteq> None) rest)"
    and "distinct (map (\<lambda>e. pe_channel (the e)) (takeWhile (\<lambda>e. e \<noteq> None) rest))"
    using assms(1) by (auto simp: errors_ok_def es simp del: not_None_eq)
  moreover have "takeWhile (\<lambda>e. e \<noteq> None) (rest @ [None]) = takeWhile (\<lambda>e. e \<noteq> None) rest"
    by (induction rest) auto
  moreover have "list_all (\<lambda>e. e = None) (dropWhile (\<lambda>e. e \<noteq> None) (rest @ [None]))"
    using calculation(1) by (induction rest) auto
  ultimately show ?thesis unfolding eq by (simp add: errors_ok_def len ERROR_CAPACITY_def)
qed

section \<open>Lemmas: every operation keeps the invariant and does not panic\<close>

lemma hid_wf_queue_error [simp]: "hid_wf B s \<Longrightarrow> hid_wf B (queue_error s c e)"
  by (simp add: hid_wf_def one_transaction_def buffers_clean_def queue_error_errors_ok)

lemma hid_wf_abort [simp]: "hid_wf B s \<Longrightarrow> hid_wf B (abort_transaction s)"
  by (simp add: hid_wf_def abort_transaction_def one_transaction_def buffers_clean_def)

lemma hid_wf_transport_error [simp]: "hid_wf B s \<Longrightarrow> hid_wf B (transport_error s)"
  by (simp add: hid_wf_def transport_error_def abort_transaction_def one_transaction_def
      buffers_clean_def errors_ok_def list_all_length)

lemma abort_active [simp]: "active_channel (abort_transaction s) = None"
  by (simp add: active_channel_def abort_transaction_def)

lemma active_None_iff:
  "active_channel s = None \<longleftrightarrow> hid_receive s = None \<and> hid_app_request s = None \<and> hid_transmit s = None"
  by (auto simp: active_channel_def split: option.splits)

text \<open>
  The states \<open>dispatch\<close> is called in: no transaction, a request buffer that may hold the
  message just received. Whatever \<open>dispatch\<close> does with it, the invariant holds again.
\<close>

definition dispatch_ready :: "hid_build \<Rightarrow> ctap_hid \<Rightarrow> bool" where
  "dispatch_ready B s \<longleftrightarrow> active_channel s = None
     \<and> length (hid_request s) = buf_size B \<and> hid_wf B (s\<lparr>hid_request := zeroize (hid_request s)\<rparr>)"

lemma dispatch_init_wf:
  assumes "dispatch_ready B s"
  shows "\<exists>r. dispatch_init s c len = Some r \<and> hid_wf B (snd r)"
proof -
  have N: "17 \<le> buf_size B" "length (hid_request s) = buf_size B" "length (hid_response s) = buf_size B"
    using assms by (simp_all add: dispatch_ready_def hid_wf_def build_ok_def)
  then show ?thesis using assms
    by (auto simp: dispatch_init_def dispatch_ready_def slice_simps allocate_channel_def Let_def
        start_transmit_def hid_wf_def one_transaction_def buffers_clean_def transmit_ok_def
        active_None_iff queue_error_errors_ok split: prod.splits)
qed

lemma dispatch_wf:
  assumes "dispatch_ready B s" and "len \<le> buf_size B"
  shows "\<exists>r. dispatch B s c cmd len = Some r \<and> hid_wf B (snd r)"
proof (cases "cmd = Cmd_Init")
  case True
  then show ?thesis using dispatch_init_wf [OF assms(1)] by (simp add: dispatch_def)
next
  case False
  have N: "length (hid_request s) = buf_size B" "length (hid_response s) = buf_size B"
    using assms by (simp_all add: dispatch_ready_def hid_wf_def)
  show ?thesis using assms N False
    by (cases cmd)
      (auto simp: dispatch_def dispatch_ready_def slice_simps start_transmit_def hid_wf_def
        one_transaction_def buffers_clean_def transmit_ok_def active_None_iff queue_error_errors_ok)
qed

lemma receive_step_ok:
  assumes "receive_ok B r" and "rs_received r + CONT_PAYLOAD_SIZE < rs_length r"
  shows "receive_ok B (r\<lparr>rs_received := rs_received r + CONT_PAYLOAD_SIZE,
      rs_next_sequence := rs_next_sequence r + 1, rs_last_activity_ms := t\<rparr>)"
proof -
  obtain k where k: "rs_received r = INIT_PAYLOAD_SIZE + CONT_PAYLOAD_SIZE * k"
    using assms(1) by (metis receive_ok_def dvd_def le_add_diff_inverse)
  with assms show ?thesis
    by (simp add: receive_ok_def hid_consts)
qed

lemma ingest_continuation_wf:
  assumes "hid_wf B s" and "length packet = PACKET_SIZE"
  shows "\<exists>r. ingest_continuation B s c packet now = Some r \<and> hid_wf B (snd r)"
proof (cases "hid_receive s")
  case None
  then show ?thesis using assms by (simp add: ingest_continuation_def)
next
  case (Some r)
  have ok: "receive_ok B r" and idle: "hid_app_request s = None" "hid_transmit s = None"
    and N: "length (hid_request s) = buf_size B"
    using assms(1) Some by (auto simp: hid_wf_def one_transaction_def)
  let ?count = "min (rs_length r - rs_received r) CONT_PAYLOAD_SIZE"
  let ?payload = "take ?count (drop 5 packet)"
  let ?req = "take (rs_received r) (hid_request s) @ ?payload @ drop (rs_received r + ?count) (hid_request s)"
  have cnt: "?count \<le> 59" "rs_received r + ?count \<le> buf_size B" "rs_received r \<le> rs_length r"
    "length ?payload = ?count"
    using ok assms(2) by (auto simp: receive_ok_def hid_consts)
  have ready: "dispatch_ready B (s\<lparr>hid_request := ?req, hid_receive := None\<rparr>)"
    using assms(1) cnt idle N
    by (auto simp: dispatch_ready_def hid_wf_def one_transaction_def buffers_clean_def active_None_iff
        zeroize_def)
  show ?thesis
  proof (cases "c = rs_channel r \<and> packet ! 4 = rs_next_sequence r")
    case False
    then show ?thesis using Some assms idle
      by (auto simp: ingest_continuation_def slice_simps hid_consts hid_wf_def one_transaction_def
          buffers_clean_def queue_error_errors_ok)
  next
    case True
    have step: "ingest_continuation B s c packet now =
      (if rs_received r + ?count = rs_length r
       then dispatch B (s\<lparr>hid_request := ?req, hid_receive := None\<rparr>) (rs_channel r) (rs_command r) (rs_length r)
       else Some (Ev_None, s\<lparr>hid_request := ?req, hid_receive := Some (r\<lparr>rs_received := rs_received r + ?count,
          rs_next_sequence := rs_next_sequence r + 1, rs_last_activity_ms := now\<rparr>)\<rparr>))"
      using Some True assms(2) cnt N
      by (simp add: ingest_continuation_def slice_simps Let_def PACKET_SIZE_def)
    show ?thesis
    proof (cases "rs_received r + ?count = rs_length r")
      case True
      with step dispatch_wf [OF ready, of "rs_length r"] ok show ?thesis
        by (simp add: receive_ok_def)
    next
      case False
      then have "?count = CONT_PAYLOAD_SIZE" "rs_received r + CONT_PAYLOAD_SIZE < rs_length r"
        using cnt by auto
      with receive_step_ok [OF ok] step False assms(1) idle cnt N show ?thesis
        by (auto simp: hid_wf_def one_transaction_def buffers_clean_def)
    qed
  qed
qed

lemma ingest_start_wf:
  assumes "hid_wf B s" and "active_channel s = None" and "length packet = PACKET_SIZE"
  shows "\<exists>r. ingest_start B s c n len packet now = Some r \<and> hid_wf B (snd r)"
proof -
  let ?copied = "min len INIT_PAYLOAD_SIZE"
  let ?s = "s\<lparr>hid_request := zeroize (hid_request s)\<rparr>"
  let ?req = "take ?copied (drop 7 packet) @ drop ?copied (zeroize (hid_request s))"
  have wf: "hid_wf B ?s" and N: "length (hid_request s) = buf_size B"
    using assms by (auto simp: hid_wf_def one_transaction_def buffers_clean_def active_None_iff)
  have copy: "subslice packet 7 (7 + ?copied) = Some (take ?copied (drop 7 packet))"
    using assms(3) by (simp add: slice_simps hid_consts)
  have ready: "dispatch_ready B (s\<lparr>hid_request := ?req\<rparr>)" if "len \<le> buf_size B"
    using that assms N wf
    by (auto simp: dispatch_ready_def hid_wf_def one_transaction_def buffers_clean_def active_None_iff
        zeroize_def hid_consts)
  show ?thesis
  proof (cases "from_number n")
    case None
    then show ?thesis using wf by (simp add: ingest_start_def)
  next
    case (Some cmd)
    show ?thesis
    proof (cases "buf_size B < len \<or> cmd = Cmd_Init \<and> len \<noteq> 8 \<or> cmd = Cmd_Cancel \<and> len \<noteq> 0")
      case True
      then show ?thesis using wf Some by (auto simp: ingest_start_def Let_def)
    next
      case False
      then have "copy_from_slice (zeroize (hid_request s)) 0 ?copied (take ?copied (drop 7 packet))
          = Some ?req"
        using N assms(3) False by (subst copy_from_slice_Some) (auto simp: hid_consts)
      with False Some copy have step: "ingest_start B s c n len packet now =
          (if INIT_PAYLOAD_SIZE < len
           then Some (Ev_None, s\<lparr>hid_request := ?req, hid_receive := Some \<lparr>rs_channel = c,
             rs_command = cmd, rs_length = len, rs_received = INIT_PAYLOAD_SIZE,
             rs_next_sequence = 0, rs_last_activity_ms = now\<rparr>\<rparr>)
           else dispatch B (s\<lparr>hid_request := ?req\<rparr>) c cmd len)"
        by (auto simp: ingest_start_def Let_def)
      show ?thesis
      proof (cases "INIT_PAYLOAD_SIZE < len")
        case True
        then show ?thesis using step ready False assms N
          by (auto simp: hid_wf_def one_transaction_def buffers_clean_def active_None_iff
              receive_ok_def zeroize_def hid_consts)
      next
        case False
        then show ?thesis using step dispatch_wf [OF ready] \<open>\<not> (buf_size B < len \<or> _)\<close> by auto
      qed
    qed
  qed
qed

lemma packet_fields:
  assumes "length packet = PACKET_SIZE"
  obtains channel len where
    "Option.bind (subslice packet 0 4) from_be32 = Some channel"
    "Option.bind (subslice packet 5 7) from_be16 = Some len"
    "index packet 4 = Some (packet ! 4)"
  using be32.slice_dec_total [of 0 packet] be16.slice_dec_total [of 5 packet] assms
  by (force simp: PACKET_SIZE_def index_def)

lemma ingest_wf:
  assumes "hid_wf B s" and "length packet = PACKET_SIZE"
  shows "\<exists>r. ingest B s packet now = Some r \<and> hid_wf B (snd r)"
proof -
  obtain c len where f: "Option.bind (subslice packet 0 4) from_be32 = Some c"
    "Option.bind (subslice packet 5 7) from_be16 = Some len" "index packet 4 = Some (packet ! 4)"
    using packet_fields [OF assms(2)] .
  have cancel: "hid_wf B (snd (cancel_application_request s))"
    using assms(1) by (auto simp: cancel_application_request_def hid_wf_def one_transaction_def
        buffers_clean_def split: option.splits)
  show ?thesis
    using ingest_continuation_wf [OF assms, of c now]
      ingest_start_wf [OF assms(1) _ assms(2), of c "packet ! 4 AND 0x7f" "unat len" now]
      ingest_start_wf [OF hid_wf_abort [OF assms(1)] _ assms(2), of c "packet ! 4 AND 0x7f" "unat len" now]
      cancel assms(1)
    by (cases "active_channel s")
      (auto simp: ingest_def f Let_def split: prod.splits if_splits)
qed

lemma ingest_report_wf:
  assumes "hid_wf B s"
  shows "\<exists>r. ingest_report B s report now = Some r \<and> hid_wf B (snd r)"
proof (cases "length report = PACKET_SIZE")
  case True
  then obtain ev s' where "ingest B s report now = Some (ev, s')" "hid_wf B s'"
    using ingest_wf [OF assms] by force
  with True show ?thesis by (simp add: ingest_report_def ingest_with_interruption_def Let_def)
next
  case False
  then show ?thesis using assms by (simp add: ingest_report_def)
qed

lemma reply_fits:
  assumes "hid_wf B s" and "hid_app_request s = Some req" and "length payload \<le> buf_size B"
  shows "reply B s payload = Some (Inr (), start_transmit
    (s\<lparr>hid_app_request := None, hid_request := zeroize (hid_request s),
       hid_response := payload @ replicate (buf_size B - length payload) 0\<rparr>)
    (ar_channel req) (ar_command req) (length payload))"
  using assms by (simp add: reply_def Let_def slice_simps hid_wf_def zeroize_def)

lemma reply_wf:
  assumes "hid_wf B s"
  shows "\<exists>r. reply B s payload = Some r \<and> hid_wf B (snd r)"
proof (cases "hid_app_request s")
  case None
  then show ?thesis using assms by (simp add: reply_def)
next
  case (Some req)
  show ?thesis
  proof (cases "length payload \<le> buf_size B")
    case True
    then show ?thesis using reply_fits [OF assms Some True] assms Some
      by (auto simp: hid_wf_def one_transaction_def buffers_clean_def transmit_ok_def
          start_transmit_def)
  next
    case False
    then show ?thesis using assms Some
      by (auto simp: reply_def hid_wf_def one_transaction_def buffers_clean_def
          queue_error_errors_ok)
  qed
qed

lemma keepalive_wf: "hid_wf B s \<Longrightarrow> hid_wf B (snd (keepalive s status))"
  by (auto simp: keepalive_def hid_wf_def one_transaction_def buffers_clean_def split: option.splits)

lemma expire_wf: "hid_wf B s \<Longrightarrow> hid_wf B (expire s now)"
  by (auto simp: expire_def hid_wf_def one_transaction_def buffers_clean_def queue_error_errors_ok
      split: option.splits)

text \<open>The four writes that build a report, on reports in normal form.\<close>

lemma frame_channel: "copy_from_slice (replicate 64 0) 0 4 (to_be32 c) = Some (to_be32 c @ replicate 60 0)"
  by (simp add: slice_simps)

lemma frame_byte4: "store (to_be32 c @ replicate 60 0) 4 v = Some (to_be32 c @ v # replicate 59 0)"
  by (simp add: store_def list_update_append numeral_eq_Suc)

lemma frame_length:
  "copy_from_slice (to_be32 c @ v # replicate 59 0) 5 7 (to_be16 l) =
     Some (to_be32 c @ v # to_be16 l @ replicate 57 0)"
  by (simp add: copy_from_slice_def numeral_eq_Suc)

lemma frame_first_payload:
  "length p \<le> 57 \<Longrightarrow> copy_from_slice (to_be32 c @ v # to_be16 l @ replicate 57 0) 7 (7 + length p) p =
     Some (to_be32 c @ v # to_be16 l @ p @ replicate (57 - length p) 0)"
  by (simp add: copy_from_slice_def drop_Cons')

lemma frame_next_payload:
  "length p \<le> 59 \<Longrightarrow> copy_from_slice (to_be32 c @ v # replicate 59 0) 5 (5 + length p) p =
     Some (to_be32 c @ v # p @ replicate (59 - length p) 0)"
  by (simp add: copy_from_slice_def drop_Cons')

lemma frame_status:
  "store (to_be32 c @ v # to_be16 l @ replicate 57 0) 7 x =
     Some (to_be32 c @ v # to_be16 l @ x # replicate 56 0)"
  by (simp add: store_def list_update_append numeral_eq_Suc)

lemmas frame_simps = frame_channel frame_byte4 frame_length frame_first_payload frame_next_payload
  frame_status

lemma initial_packet_eq:
  "initial_packet c cmd len =
     Some (to_be32 c @ (command_number cmd OR 0x80) # to_be16 (of_nat len) @ replicate 57 0)"
  by (simp add: initial_packet_def PACKET_SIZE_def frame_simps)

lemma next_packet_transmit:
  assumes "transmit_ok B t" and "length (hid_response s) = buf_size B"
    and "hid_errors s ! 0 = None" and "errors_ok (hid_errors s)" and "hid_keepalive s = None"
    and "hid_transmit s = Some t"
  shows "next_packet s = Some (Some (to_be32 (ts_channel t) @
    (if ts_offset t = 0
     then let p = take (ts_length t) (take 57 (hid_response s))
          in (command_number (ts_command t) OR 0x80) # to_be16 (of_nat (ts_length t)) @ p
             @ replicate (57 - length p) 0
     else let p = take (ts_length t - ts_offset t) (take 59 (drop (ts_offset t) (hid_response s)))
          in ts_next_sequence t # p @ replicate (59 - length p) 0)))"
proof (cases "ts_offset t = 0")
  case True
  let ?p = "take (ts_length t) (take 57 (hid_response s))"
  have "subslice (hid_response s) 0 (min (ts_length t) 57) = Some ?p"
    and "length ?p = min (ts_length t) 57" "length ?p \<le> 57"
    using assms by (auto simp: transmit_ok_def subslice_def min_def)
  with True show ?thesis using assms frame_first_payload [of ?p]
    by (simp add: next_packet_def frame_simps hid_consts index_def errors_ok_def Let_def)
next
  case False
  let ?p = "take (ts_length t - ts_offset t) (take 59 (drop (ts_offset t) (hid_response s)))"
  let ?count = "min (ts_length t - ts_offset t) 59"
  have "subslice (hid_response s) (ts_offset t) (ts_offset t + ?count) = Some ?p"
    and "length ?p = ?count" "length ?p \<le> 59" and "ts_offset t \<le> ts_length t"
    using assms False by (auto simp: transmit_ok_def subslice_def hid_consts)
  with False show ?thesis using assms frame_next_payload [of ?p]
    by (simp add: next_packet_def frame_simps hid_consts index_def errors_ok_def Let_def)
qed

lemma next_packet_total:
  assumes "hid_wf B s"
  shows "\<exists>r. next_packet s = Some r \<and> (case r of None \<Rightarrow> True | Some p \<Rightarrow> length p = PACKET_SIZE)"
proof (cases "hid_errors s ! 0")
  case (Some e)
  then show ?thesis using assms
    by (simp add: next_packet_def initial_packet_eq frame_simps index_def hid_wf_def errors_ok_def
        hid_consts)
next
  case no_error: None
  show ?thesis
  proof (cases "hid_keepalive s")
    case (Some k)
    then show ?thesis using assms no_error
      by (cases k) (simp add: next_packet_def initial_packet_eq frame_simps index_def hid_wf_def
          errors_ok_def hid_consts)
  next
    case no_keep: None
    show ?thesis
    proof (cases "hid_transmit s")
      case None
      then show ?thesis using assms no_error no_keep
        by (simp add: next_packet_def index_def hid_wf_def errors_ok_def hid_consts)
    next
      case (Some t)
      then show ?thesis using assms no_error no_keep
        by (subst next_packet_transmit [of B t]) (auto simp: hid_wf_def hid_consts Let_def)
    qed
  qed
qed

lemma transmit_step_ok:
  assumes "transmit_ok B t" and "ts_offset t \<noteq> 0" and "ts_offset t + CONT_PAYLOAD_SIZE < ts_length t"
  shows "transmit_ok B (t\<lparr>ts_offset := ts_offset t + CONT_PAYLOAD_SIZE,
      ts_next_sequence := ts_next_sequence t + 1\<rparr>)"
proof -
  obtain k where k: "ts_offset t = INIT_PAYLOAD_SIZE + CONT_PAYLOAD_SIZE * k"
    using assms(1,2) by (metis transmit_ok_def dvd_def le_add_diff_inverse)
  with assms show ?thesis by (simp add: transmit_ok_def hid_consts)
qed

lemma packet_sent_transmit:
  assumes "transmit_ok B t" and "hid_errors s ! 0 = None" and "errors_ok (hid_errors s)"
    and "hid_keepalive s = None" and "hid_transmit s = Some t"
  shows "packet_sent s = Some
    (let n = (if ts_offset t = 0 then INIT_PAYLOAD_SIZE else ts_offset t + CONT_PAYLOAD_SIZE) in
     if ts_length t \<le> n then s\<lparr>hid_transmit := None, hid_response := zeroize (hid_response s)\<rparr>
     else s\<lparr>hid_transmit := Some (t\<lparr>ts_offset := n, ts_next_sequence :=
        (if ts_offset t = 0 then ts_next_sequence t else ts_next_sequence t + 1)\<rparr>)\<rparr>)"
  using assms
  by (auto simp: packet_sent_def index_def errors_ok_def hid_consts transmit_ok_def Let_def min_def)

lemma packet_sent_wf:
  assumes "hid_wf B s"
  shows "\<exists>s'. packet_sent s = Some s' \<and> hid_wf B s'"
proof (cases "hid_errors s ! 0")
  case (Some e)
  have len: "length (hid_errors s) = 8" using assms by (simp add: hid_wf_def errors_ok_def hid_consts)
  then have "packet_sent s = Some (s\<lparr>hid_errors := (rotate1 (hid_errors s))[ERROR_CAPACITY - 1 := None]\<rparr>)"
    using Some by (simp add: packet_sent_def index_def store_def hid_consts)
  then show ?thesis using assms Some errors_ok_rotate [of "hid_errors s"]
    by (auto simp: hid_wf_def one_transaction_def buffers_clean_def)
next
  case no_error: None
  show ?thesis
  proof (cases "hid_keepalive s \<noteq> None \<or> hid_transmit s = None")
    case True
    then show ?thesis using assms no_error
      by (auto simp: packet_sent_def index_def hid_wf_def errors_ok_def hid_consts
          one_transaction_def buffers_clean_def)
  next
    case False
    then obtain t where t: "hid_transmit s = Some t" and k: "hid_keepalive s = None"
      by (cases "hid_keepalive s"; cases "hid_transmit s") auto
    have ok: "transmit_ok B t" and e: "errors_ok (hid_errors s)"
      using assms t by (auto simp: hid_wf_def)
    show ?thesis
      using packet_sent_transmit [OF ok no_error e k t] transmit_step_ok [OF ok] ok assms t
      by (auto simp: hid_wf_def one_transaction_def buffers_clean_def Let_def transmit_ok_def
          hid_consts)
  qed
qed

lemma request_payload_total:
  "hid_wf B s \<Longrightarrow> \<exists>r. request_payload s = Some r"
  by (auto simp: request_payload_def hid_wf_def slice_simps split: option.splits)

interpretation hid_machine: panic_free_machine "hid_step B" "hid_wf B" "\<lambda>_. True" for B
proof unfold_locales
  fix s e
  assume wf: "hid_wf B s"
  show "\<exists>s'. hid_step B s e = Some s' \<and> hid_wf B s'"
  proof (cases e)
    case (In_Report report now)
    then show ?thesis using ingest_report_wf [OF wf, of report now] by auto
  next
    case (In_Reply payload)
    then show ?thesis using reply_wf [OF wf, of payload] by auto
  next
    case In_NextPacket
    then show ?thesis using next_packet_total [OF wf] wf by auto
  next
    case In_RequestPayload
    then show ?thesis using request_payload_total [OF wf] wf by auto
  qed (use wf packet_sent_wf keepalive_wf expire_wf in auto)
qed

lemma hid_new_wf: "hid_new B v c = Some s \<Longrightarrow> hid_wf B s"
  by (auto simp: hid_new_def hid_wf_def build_ok_def errors_ok_def one_transaction_def
      buffers_clean_def zeroize_def list_all_length split: if_splits)

interpretation hid_reply: reply_transport "reply B" "\<lambda>s. hid_app_request s \<noteq> None" "hid_wf B" "buf_size B"
  for B
proof unfold_locales
  fix t p
  assume wf: "hid_wf B t" and pend: "hid_app_request t \<noteq> None"
  obtain r where r: "reply B t p = Some r" "hid_wf B (snd r)" using reply_wf [OF wf] by blast
  from pend obtain req where req: "hid_app_request t = Some req" by auto
  show "\<exists>t'. reply B t p = Some (Inl ResponseTooLong, t') \<and> hid_wf B t' \<and> \<not> hid_app_request t' \<noteq> None"
    if "buf_size B < length p"
    using r req that by (auto simp: reply_def Let_def)
  show "\<exists>t'. reply B t p = Some (Inr (), t') \<and> hid_wf B t' \<and> \<not> hid_app_request t' \<noteq> None"
    if "length p \<le> buf_size B"
    using r reply_fits [OF wf req that] by (auto simp: start_transmit_def)
qed (auto simp: reply_def hid_wf_def build_ok_def)

section \<open>Lemmas: sending and receiving a message\<close>

lemma drain_rest:
  assumes "hid_wf B s" and "hid_errors s ! 0 = None" and "hid_keepalive s = None"
    and "hid_transmit s = Some t" and "ts_offset t \<noteq> 0" and "ts_length t - ts_offset t < fuel"
    and "hid_response s = msg @ rest" and "length msg = ts_length t"
  shows "drain fuel s = Some (cont_packets (ts_channel t) (ts_next_sequence t) (drop (ts_offset t) msg),
    s\<lparr>hid_transmit := None, hid_response := zeroize (hid_response s)\<rparr>)"
  using assms
proof (induction fuel arbitrary: s t)
  case 0
  then show ?case by simp
next
  case (Suc fuel)
  have ok: "transmit_ok B t" and e: "errors_ok (hid_errors s)"
    and len: "length (hid_response s) = buf_size B"
    using Suc.prems by (auto simp: hid_wf_def)
  have off: "ts_offset t < ts_length t" using ok Suc.prems(5) by (simp add: transmit_ok_def)
  let ?rem = "drop (ts_offset t) msg"
  have payload: "take (ts_length t - ts_offset t) (take 59 (drop (ts_offset t) (hid_response s)))
      = take 59 ?rem" and ne: "?rem \<noteq> []"
    using Suc.prems(7,8) off by (auto simp: min_def)
  have np: "next_packet s = Some (Some (to_be32 (ts_channel t) @ ts_next_sequence t # take 59 ?rem
      @ replicate (59 - length (take 59 ?rem)) 0))"
    using next_packet_transmit [OF ok len Suc.prems(2) e Suc.prems(3,4)] Suc.prems(5)
    by (simp only: payload Let_def if_False)
  note sent = packet_sent_transmit [OF ok Suc.prems(2) e Suc.prems(3,4)]
  show ?case
  proof (cases "ts_length t \<le> ts_offset t + CONT_PAYLOAD_SIZE")
    case True
    have "drop 59 ?rem = []" using True Suc.prems(8) by (simp add: hid_consts)
    moreover have "drain fuel (s\<lparr>hid_transmit := None, hid_response := zeroize (hid_response s)\<rparr>)
        = Some ([], s\<lparr>hid_transmit := None, hid_response := zeroize (hid_response s)\<rparr>)"
      using Suc.prems off e
      by (cases fuel) (auto simp: next_packet_def index_def errors_ok_def hid_consts)
    ultimately show ?thesis using np sent True Suc.prems(5) ne
      by (simp add: cont_packets.simps [of _ _ ?rem] cont_packets.simps [of _ _ "[]"])
  next
    case False
    let ?t = "t\<lparr>ts_offset := ts_offset t + CONT_PAYLOAD_SIZE, ts_next_sequence := ts_next_sequence t + 1\<rparr>"
    let ?s = "s\<lparr>hid_transmit := Some ?t\<rparr>"
    have s': "packet_sent s = Some ?s" using sent False Suc.prems(5) by (simp add: Let_def)
    then have "hid_wf B ?s" using packet_sent_wf [OF Suc.prems(1)] by simp
    then have "drain fuel ?s = Some (cont_packets (ts_channel ?t) (ts_next_sequence ?t)
        (drop (ts_offset ?t) msg), ?s\<lparr>hid_transmit := None, hid_response := zeroize (hid_response ?s)\<rparr>)"
      by (rule Suc.IH) (use Suc.prems False in \<open>auto simp: hid_consts\<close>)
    then show ?thesis using np s' ne
      by (simp add: cont_packets.simps [of _ _ ?rem] hid_consts add.commute)
  qed
qed

lemma drain_message:
  assumes "hid_wf B s" and "hid_errors s ! 0 = None" and "hid_keepalive s = None"
    and "hid_transmit s = Some t" and "ts_offset t = 0" and "ts_length t + 1 < fuel"
    and "hid_response s = msg @ rest" and "length msg = ts_length t"
  shows "drain fuel s = Some (message_packets (ts_channel t) (ts_command t) msg,
    s\<lparr>hid_transmit := None, hid_response := zeroize (hid_response s)\<rparr>)"
proof -
  have ok: "transmit_ok B t" and e: "errors_ok (hid_errors s)"
    and len: "length (hid_response s) = buf_size B"
    using assms by (auto simp: hid_wf_def)
  obtain fuel' where fuel: "fuel = Suc fuel'" using assms(6) by (cases fuel) auto
  have np: "next_packet s = Some (Some (to_be32 (ts_channel t) @ (command_number (ts_command t) OR 0x80)
      # to_be16 (of_nat (length msg)) @ take 57 msg @ replicate (57 - length (take 57 msg)) 0))"
    using next_packet_transmit [OF ok len assms(2) e assms(3,4)] assms(5,7,8)
    by (simp add: Let_def min_def)
  note sent = packet_sent_transmit [OF ok assms(2) e assms(3,4)]
  show ?thesis
  proof (cases "ts_length t \<le> INIT_PAYLOAD_SIZE")
    case True
    moreover have "drain fuel' (s\<lparr>hid_transmit := None, hid_response := zeroize (hid_response s)\<rparr>)
        = Some ([], s\<lparr>hid_transmit := None, hid_response := zeroize (hid_response s)\<rparr>)"
      using assms e fuel
      by (cases fuel') (auto simp: next_packet_def index_def errors_ok_def hid_consts)
    moreover have "drop 57 msg = []" using True assms(8) by (simp add: hid_consts)
    ultimately show ?thesis using np sent assms(5)
      by (simp add: fuel message_packets_def cont_packets.simps [of _ _ "[]"])
  next
    case False
    let ?t = "t\<lparr>ts_offset := INIT_PAYLOAD_SIZE\<rparr>"
    let ?s = "s\<lparr>hid_transmit := Some ?t\<rparr>"
    have s': "packet_sent s = Some ?s" using sent False assms(5) by (simp add: Let_def)
    then have "hid_wf B ?s" using packet_sent_wf [OF assms(1)] by simp
    then have "drain fuel' ?s = Some (cont_packets (ts_channel ?t) (ts_next_sequence ?t)
        (drop (ts_offset ?t) msg), ?s\<lparr>hid_transmit := None, hid_response := zeroize (hid_response ?s)\<rparr>)"
      by (rule drain_rest) (use assms False fuel in \<open>auto simp: hid_consts\<close>)
    then show ?thesis using np s' ok assms(5)
      by (simp add: fuel message_packets_def hid_consts transmit_ok_def)
  qed
qed

lemma low_byte_no_flag: "n < 128 \<Longrightarrow> (of_nat n :: u8) AND 0x80 = 0"
proof -
  assume "n < 128"
  then have "\<not> bit n 7" by (simp add: bit_iff_odd)
  then have "\<not> bit (of_nat n :: u8) 7" by (simp add: bit_of_nat_iff)
  moreover have "(0x80 :: u8) = push_bit 7 1" by simp
  ultimately have "\<not> bit ((of_nat n :: u8) AND 0x80) k" for k
    by (simp only: bit_and_iff bit_push_bit_iff bit_1_iff) (cases "k = 7", auto)
  then show ?thesis by (simp add: bit_eq_iff)
qed

lemma ingest_header:
  assumes "p = to_be32 c @ b # rest" and "length rest = 59"
  shows "Option.bind (subslice p 0 4) from_be32 = Some c" and "index p 4 = Some b"
    and "p ! 4 = b" and "take n (drop 5 p) = take n rest"
  using assms by (simp_all add: subslice_def index_def codec_simps nth_append)

lemma ingest_cont:
  assumes "p = to_be32 c @ seq # rest" and "length rest = 59" and "seq AND 0x80 = 0"
  shows "ingest B s p now = ingest_continuation B s c p now"
  using ingest_header [OF assms(1,2)] assms(3) by (simp add: ingest_def)

lemma continuation_step:
  assumes "hid_wf B s" and "hid_receive s = Some r" and "p = to_be32 (rs_channel r) @ rs_next_sequence r # rest"
    and "length rest = 59" and "count = min (rs_length r - rs_received r) 59"
  shows "ingest_continuation B s (rs_channel r) p now =
      (let req = take (rs_received r) (hid_request s) @ take count rest
             @ drop (rs_received r + count) (hid_request s) in
       if rs_received r + count = rs_length r
       then dispatch B (s\<lparr>hid_request := req, hid_receive := None\<rparr>) (rs_channel r) (rs_command r) (rs_length r)
       else Some (Ev_None, s\<lparr>hid_request := req, hid_receive := Some (r\<lparr>rs_received := rs_received r + count,
          rs_next_sequence := rs_next_sequence r + 1, rs_last_activity_ms := now\<rparr>)\<rparr>))"
proof -
  have "receive_ok B r" "length (hid_request s) = buf_size B" using assms(1,2) by (auto simp: hid_wf_def)
  then have "rs_received r + count \<le> length (hid_request s)" "rs_received r \<le> rs_length r"
    using assms(5) by (auto simp: receive_ok_def)
  then have "copy_from_slice (hid_request s) (rs_received r) (rs_received r + count) (take count rest)
      = Some (take (rs_received r) (hid_request s) @ take count rest
             @ drop (rs_received r + count) (hid_request s))"
    using assms(4,5) by (simp add: copy_from_slice_def)
  moreover have "subslice p 5 (5 + count) = Some (take count rest)"
    using assms(3-5) by (simp add: subslice_def)
  ultimately show ?thesis
    using assms(2,5) ingest_header [OF assms(3,4)] \<open>rs_received r \<le> rs_length r\<close>
    by (simp add: ingest_continuation_def hid_consts Let_def)
qed

lemma feed_rest:
  assumes "hid_wf B s" and "hid_receive s = Some r" and "rs_length r = length msg"
    and "take (rs_received r) (hid_request s) = take (rs_received r) msg"
  shows "\<exists>n. feed B s now (cont_packets (rs_channel r) (rs_next_sequence r) (drop (rs_received r) msg)) =
    map_option (\<lambda>(ev, s'). (replicate n Ev_None @ [ev], s'))
      (dispatch B (s\<lparr>hid_request := msg @ drop (length msg) (hid_request s), hid_receive := None\<rparr>)
        (rs_channel r) (rs_command r) (length msg))"
  using assms
proof (induction "length msg - rs_received r" arbitrary: s r rule: less_induct)
  case less
  have ok: "receive_ok B r" and N: "length (hid_request s) = buf_size B"
    using less.prems by (auto simp: hid_wf_def)
  let ?rem = "drop (rs_received r) msg"
  let ?rest = "take 59 ?rem @ replicate (59 - length (take 59 ?rem)) 0"
  let ?p = "to_be32 (rs_channel r) @ rs_next_sequence r # ?rest"
  let ?count = "min (rs_length r - rs_received r) 59"
  have ne: "?rem \<noteq> []" using ok less.prems(3) by (auto simp: receive_ok_def)
  have "rs_next_sequence r = of_nat ((rs_received r - 57) div 59)" "(rs_received r - 57) div 59 < 128"
    using ok less.prems(1) by (auto simp: receive_ok_def hid_wf_def build_ok_def hid_consts)
  then have flag: "rs_next_sequence r AND 0x80 = 0" using low_byte_no_flag by simp
  have chunk: "take ?count ?rest = take ?count ?rem" using less.prems(3) by (simp add: min_def)
  have eq: "take (rs_received r) (hid_request s) @ take ?count ?rest = take (rs_received r + ?count) msg"
    unfolding chunk using less.prems(4) by (simp add: take_add)
  have lp: "length ?p = PACKET_SIZE" by (simp add: hid_consts)
  note step = continuation_step [OF less.prems(1,2) refl _ refl, of ?rest now]
  have feed: "feed B s now (cont_packets (rs_channel r) (rs_next_sequence r) ?rem) =
    Option.bind (ingest_continuation B s (rs_channel r) ?p now) (\<lambda>(ev, s').
      Option.bind (feed B s' now (cont_packets (rs_channel r) (rs_next_sequence r + 1) (drop 59 ?rem)))
        (\<lambda>(evs, s''). Some (ev # evs, s'')))"
    using ne ingest_cont [OF refl _ flag, of ?rest]
    by (subst cont_packets.simps) simp
  show ?case
  proof (cases "rs_received r + ?count = rs_length r")
    case True
    then have all: "take (rs_received r + ?count) msg = msg" and "drop 59 ?rem = []"
      using less.prems(3) by auto
    then show ?thesis unfolding feed
      using step True less.prems(3) eq
      by (intro exI [of _ 0]) (cases "dispatch B (s\<lparr>hid_request := msg @ drop (length msg) (hid_request s),
          hid_receive := None\<rparr>) (rs_channel r) (rs_command r) (length msg)",
        auto simp: Let_def cont_packets.simps [of _ _ "[]"] simp flip: append_assoc)
  next
    case False
    then have c59: "?count = 59" "rs_received r + 59 < rs_length r" using ok by (auto simp: receive_ok_def)
    let ?req = "take (rs_received r + 59) msg @ drop (rs_received r + 59) (hid_request s)"
    let ?r = "r\<lparr>rs_received := rs_received r + 59, rs_next_sequence := rs_next_sequence r + 1,
      rs_last_activity_ms := now\<rparr>"
    let ?s = "s\<lparr>hid_request := ?req, hid_receive := Some ?r\<rparr>"
    have st: "ingest_continuation B s (rs_channel r) ?p now = Some (Ev_None, ?s)"
      using step False eq c59 by (simp add: Let_def flip: append_assoc)
    have "hid_wf B ?s" using ingest_continuation_wf [OF less.prems(1) lp, of "rs_channel r" now] st by simp
    moreover have "length msg - rs_received ?r < length msg - rs_received r"
      using c59 less.prems(3) by simp
    moreover have "take (rs_received ?r) (hid_request ?s) = take (rs_received ?r) msg"
      using c59 less.prems(3) by simp
    ultimately obtain n where "feed B ?s now (cont_packets (rs_channel ?r) (rs_next_sequence ?r)
        (drop (rs_received ?r) msg)) = map_option (\<lambda>(ev, s'). (replicate n Ev_None @ [ev], s'))
      (dispatch B (?s\<lparr>hid_request := msg @ drop (length msg) (hid_request ?s), hid_receive := None\<rparr>)
        (rs_channel ?r) (rs_command ?r) (length msg))"
      using less.hyps [of ?r ?s] less.prems(3) by auto
    moreover have "drop (length msg) ?req = drop (length msg) (hid_request s)"
      using c59 less.prems(3) by (simp add: min_def)
    ultimately show ?thesis unfolding feed st
      by (intro exI [of _ "Suc n"]) (auto simp: add.commute split: option.splits
          simp: Option.bind_map_option comp_def map_option_case)
  qed
qed

lemma command_flag: "(command_number cmd OR 0x80) AND 0x80 \<noteq> 0"
  "(command_number cmd OR 0x80) AND 0x7f = command_number cmd"
  by (cases cmd; simp)+

lemma from_number_command [simp]: "from_number (command_number cmd) = Some cmd"
  by (cases cmd) (simp_all add: from_number_def)

lemma ingest_init_packet:
  assumes "p = to_be32 c @ (command_number cmd OR 0x80) # to_be16 l @ rest" and "length rest = 57"
    and "active_channel s = None"
  shows "ingest B s p now = ingest_start B s c (command_number cmd) (unat l) p now"
proof -
  have "Option.bind (subslice p 5 7) from_be16 = Some l"
    using assms(1,2) by (simp add: subslice_def codec_simps)
  with ingest_header [OF assms(1)] assms(2,3) command_flag show ?thesis
    by (simp add: ingest_def Let_def)
qed

lemma feed_message:
  assumes "hid_wf B s" and "active_channel s = None" and "length msg \<le> buf_size B"
    and "cmd \<noteq> Cmd_Init" and "cmd \<noteq> Cmd_Cancel"
  shows "\<exists>n. feed B s now (message_packets c cmd msg) =
    map_option (\<lambda>(ev, s'). (replicate n Ev_None @ [ev], s'))
      (dispatch B (s\<lparr>hid_request := msg @ replicate (buf_size B - length msg) 0\<rparr>) c cmd (length msg))"
proof -
  let ?rest = "take 57 msg @ replicate (57 - length (take 57 msg)) 0"
  let ?p = "to_be32 c @ (command_number cmd OR 0x80) # to_be16 (of_nat (length msg)) @ ?rest"
  let ?copied = "min (length msg) 57"
  have small: "length msg < 65536" and N: "length (hid_request s) = buf_size B"
    and idle: "hid_receive s = None"
    using assms by (auto simp: hid_wf_def build_ok_def hid_consts active_None_iff)
  have "unat (of_nat (length msg) :: u16) = length msg"
    using small by (simp add: unsigned_of_nat take_bit_nat_eq_self)
  then have start: "ingest B s ?p now = ingest_start B s c (command_number cmd) (length msg) ?p now"
    using ingest_init_packet [OF refl _ assms(2), of ?rest] by simp
  have sub: "subslice ?p 7 (7 + ?copied) = Some (take 57 msg)"
    by (simp add: subslice_def min_def)
  let ?req = "take 57 msg @ replicate (buf_size B - ?copied) 0"
  have copy: "copy_from_slice (zeroize (hid_request s)) 0 ?copied (take 57 msg) = Some ?req"
    using N assms(3) by (simp add: copy_from_slice_def zeroize_def)
  have lp: "length ?p = PACKET_SIZE" by (simp add: hid_consts)
  show ?thesis
  proof (cases "57 < length msg")
    case False
    then have "ingest B s ?p now =
        dispatch B (s\<lparr>hid_request := msg @ replicate (buf_size B - length msg) 0\<rparr>) c cmd (length msg)"
      using start sub copy assms(3-5) by (simp add: ingest_start_def hid_consts Let_def min_def)
    with False show ?thesis
      by (intro exI [of _ 0]) (simp add: message_packets_def cont_packets.simps [of _ _ "[]"]
          bind_pair_Some)
  next
    case True
    let ?r = "\<lparr>rs_channel = c, rs_command = cmd, rs_length = length msg, rs_received = 57,
      rs_next_sequence = 0, rs_last_activity_ms = now\<rparr>"
    let ?s = "s\<lparr>hid_request := ?req, hid_receive := Some ?r\<rparr>"
    have st: "ingest B s ?p now = Some (Ev_None, ?s)"
      using start sub copy assms(3-5) True by (simp add: ingest_start_def hid_consts Let_def)
    then have wf: "hid_wf B ?s" using ingest_wf [OF assms(1) lp, of now] by simp
    have "\<exists>n. feed B ?s now (cont_packets (rs_channel ?r) (rs_next_sequence ?r) (drop (rs_received ?r) msg)) =
      map_option (\<lambda>(ev, s'). (replicate n Ev_None @ [ev], s'))
        (dispatch B (?s\<lparr>hid_request := msg @ drop (length msg) (hid_request ?s), hid_receive := None\<rparr>)
          (rs_channel ?r) (rs_command ?r) (length msg))"
      by (rule feed_rest [OF wf]) (use True in simp_all)
    moreover have "drop (length msg) ?req = replicate (buf_size B - length msg) 0"
      using True assms(3) by simp
    moreover have "s\<lparr>hid_request := r, hid_receive := None\<rparr> = s\<lparr>hid_request := r\<rparr>" for r
      using idle by (cases s) simp
    ultimately obtain n where "feed B ?s now (cont_packets c 0 (drop 57 msg)) =
      map_option (\<lambda>(ev, s'). (replicate n Ev_None @ [ev], s'))
        (dispatch B (s\<lparr>hid_request := msg @ replicate (buf_size B - length msg) 0\<rparr>) c cmd (length msg))"
      by auto
    then show ?thesis using st
      by (intro exI [of _ "Suc n"]) (auto simp: message_packets_def map_option_case split: option.splits)
  qed
qed

section \<open>Lemmas: channel allocation and interruption\<close>

lemma next_channel_valid: "next_channel lc \<noteq> RESERVED_CHANNEL \<and> next_channel lc \<noteq> BROADCAST_CHANNEL"
proof (induction lc rule: next_channel.induct)
  case (1 lc)
  then show ?case by (subst (1 2) next_channel.simps) (auto simp: Let_def)
qed

lemma next_channel_fresh:
  assumes "lc < 0xfffffffe"
  shows "next_channel lc = lc + 1" and "lc < next_channel lc"
proof -
  have u: "unat (lc + 1) = unat lc + 1"
    using assms by (simp add: unat_word_ariths word_less_nat_alt)
  have "lc + 1 \<noteq> 0" using u by (metis add_is_0 one_neq_zero unat_0)
  moreover have "lc + 1 \<noteq> 0xffffffff" using u assms by (auto simp: word_less_nat_alt)
  ultimately show eq: "next_channel lc = lc + 1"
    by (subst next_channel.simps) (simp add: RESERVED_CHANNEL_def BROADCAST_CHANNEL_def)
  show "lc < next_channel lc" unfolding eq using u by (simp add: word_less_nat_alt)
qed

lemma dispatch_init_quiet:
  "dispatch_init s c len = Some (ev, s') \<Longrightarrow> ev = Ev_None \<and> hid_app_request s' = hid_app_request s"
  by (auto simp: dispatch_init_def allocate_channel_def Let_def start_transmit_def
      split: if_splits bind_splits)

lemma ingest_start_init_quiet:
  assumes "ingest_start B s c (command_number Cmd_Init) len packet now = Some (ev, s')"
  shows "ev = Ev_None \<and> hid_app_request s' = hid_app_request s"
  using assms dispatch_init_quiet
  by (fastforce simp: ingest_start_def Let_def dispatch_def hid_consts split: if_splits bind_splits
      simp del: command_number.simps)

lemma init_interrupts:
  assumes "hid_wf B s" and "hid_app_request s = Some req" and "length packet = PACKET_SIZE"
    and "Option.bind (subslice packet 0 4) from_be32 = Some (ar_channel req)"
    and "packet ! 4 = command_number Cmd_Init OR 0x80"
  shows "\<exists>s'. ingest_with_interruption B s packet now = Some ((Ev_None, True), s')
    \<and> hid_app_request s' = None \<and> hid_wf B s'"
proof -
  obtain c' len where f: "Option.bind (subslice packet 5 7) from_be16 = Some len"
    "index packet 4 = Some (packet ! 4)"
    using packet_fields [OF assms(3)] by metis
  have act: "active_channel s = Some (ar_channel req)"
    using assms(1,2) by (auto simp: active_channel_def hid_wf_def one_transaction_def split: option.splits)
  obtain ev s' where r: "ingest B s packet now = Some (ev, s')" "hid_wf B s'"
    using ingest_wf [OF assms(1,3), of now] by force
  then have "ingest_start B (abort_transaction s) (ar_channel req) (command_number Cmd_Init)
      (unat len) packet now = Some (ev, s')"
    using f act assms(4,5) command_flag [of Cmd_Init]
    by (simp add: ingest_def Let_def del: command_number.simps(4))
  then have "ev = Ev_None" "hid_app_request s' = None"
    using ingest_start_init_quiet by (force simp: abort_transaction_def)+
  with r assms(2) show ?thesis by (simp add: ingest_with_interruption_def Let_def)
qed

section \<open>Properties\<close>

text \<open>
  C2. No host and no caller can crash the transport: from a freshly constructed engine,
  every sequence of reports (of any length and content), replies, keepalives, timeouts and
  transmissions runs without a panic and ends in a state of the invariant. In particular no
  more than one transaction is open, cursors stay inside the buffers, and the request and
  response buffers are all zero whenever no transaction owns them.
\<close>

theorem hid_never_panics:
  assumes "hid_new B v caps = Some s"
  shows "\<exists>s'. run_steps (hid_step B) s inputs = Some s' \<and> hid_wf B s'"
  using hid_machine.run_inv [OF hid_new_wf [OF assms]] by (simp add: list_all_length)

definition example_build :: hid_build where
  "example_build = \<lparr>buf_size = 1024, update_feature = True\<rparr>"

definition example_engine :: ctap_hid where
  "example_engine = (case hid_new example_build \<lparr>dv_major = 0, dv_minor = 1, dv_build = 0\<rparr> 12 of
     Some s \<Rightarrow> s\<lparr>hid_last_channel := 3\<rparr>)"

theorem hid_never_panics_witness:
  "\<exists>s s'. hid_new example_build \<lparr>dv_major = 0, dv_minor = 1, dv_build = 0\<rparr> 12 = Some s
     \<and> run_steps (hid_step example_build) s
          [In_Report (replicate 64 0xff) 7, In_Report [1, 2, 3] 8, In_PacketSent] = Some s'
     \<and> hid_wf example_build s'"
proof -
  obtain s where "hid_new example_build \<lparr>dv_major = 0, dv_minor = 1, dv_build = 0\<rparr> 12 = Some s"
    by (simp add: hid_new_def hid_consts example_build_def)
  with hid_never_panics [OF this] show ?thesis by blast
qed

text \<open>
  C3. Requests are reassembled exactly: an idle engine that is fed the reports of a CBOR
  message on an allocated channel raises no event until the last report, then the CBOR event
  with the message's length, and the payload it hands to the authenticator is the message.
\<close>

theorem request_round_trip:
  assumes "hid_wf B s" and "active_channel s = None" and "is_allocated s c"
    and "length msg \<le> buf_size B"
  shows "\<exists>n s'. feed B s now (message_packets c Cmd_Cbor msg)
      = Some (replicate n Ev_None @ [Ev_Cbor c (length msg)], s')
    \<and> request_payload s' = Some (Some msg) \<and> hid_wf B s'"
proof -
  let ?s = "s\<lparr>hid_request := msg @ replicate (buf_size B - length msg) 0\<rparr>"
  let ?a = "\<lparr>ar_channel = c, ar_command = Cmd_Cbor, ar_length = length msg\<rparr>"
  have d: "dispatch B ?s c Cmd_Cbor (length msg) =
      Some (Ev_Cbor c (length msg), ?s\<lparr>hid_app_request := Some ?a\<rparr>)"
    using assms(3) by (simp add: dispatch_def is_allocated_def)
  have "hid_wf B (?s\<lparr>hid_app_request := Some ?a\<rparr>)"
    using assms by (auto simp: hid_wf_def one_transaction_def buffers_clean_def active_None_iff)
  moreover have "request_payload (?s\<lparr>hid_app_request := Some ?a\<rparr>) = Some (Some msg)"
    using assms(4) by (simp add: request_payload_def subslice_def)
  ultimately show ?thesis
    using feed_message [OF assms(1,2,4), of Cmd_Cbor now c] d by auto
qed

lemma example_wf: "hid_wf example_build example_engine" "active_channel example_engine = None"
  by (simp_all add: example_engine_def example_build_def hid_new_def hid_consts hid_wf_def
      build_ok_def errors_ok_def one_transaction_def buffers_clean_def zeroize_def active_channel_def
      list_all_length)

theorem request_round_trip_witness:
  "\<exists>n s'. feed example_build example_engine 5 (message_packets 2 Cmd_Cbor (replicate 300 0xa5))
      = Some (replicate n Ev_None @ [Ev_Cbor 2 300], s')
    \<and> request_payload s' = Some (Some (replicate 300 0xa5)) \<and> hid_wf example_build s'"
  using request_round_trip [OF example_wf, of 2 "replicate 300 0xa5" 5]
  by (simp add: example_engine_def example_build_def hid_new_def hid_consts is_allocated_def
      RESERVED_CHANNEL_def BROADCAST_CHANNEL_def)


definition example_waiting :: ctap_hid where
  "example_waiting = example_engine\<lparr>hid_app_request :=
     Some \<lparr>ar_channel = 2, ar_command = Cmd_Cbor, ar_length = 1\<rparr>\<rparr>"

lemma example_waiting_wf: "hid_wf example_build example_waiting"
  using example_wf
  by (auto simp: example_waiting_def hid_wf_def one_transaction_def buffers_clean_def active_None_iff
      example_build_def)


text \<open>
  C26. A channel cannot disturb another channel's transaction: while a transaction is active,
  a report from any other channel raises no event and leaves every part of the transport
  unchanged, except that a new command is answered with a channel-busy error for the sender.
\<close>

theorem other_channel_isolated:
  assumes "hid_wf B s" and "active_channel s = Some a" and "length packet = PACKET_SIZE"
    and "Option.bind (subslice packet 0 4) from_be32 = Some c" and "c \<noteq> a"
  shows "ingest B s packet now = Some (Ev_None, s)
    \<or> ingest B s packet now = Some (Ev_None, queue_error s c ChannelBusy)"
proof -
  obtain c' len where f: "Option.bind (subslice packet 5 7) from_be16 = Some len"
    "index packet 4 = Some (packet ! 4)"
    using packet_fields [OF assms(3)] by metis
  show ?thesis
  proof (cases "packet ! 4 AND 0x80 = 0")
    case True
    then have "ingest B s packet now = ingest_continuation B s c packet now"
      using f assms(4) by (simp add: ingest_def)
    then show ?thesis using assms(2,5)
      by (auto simp: ingest_continuation_def active_channel_def split: option.splits)
  next
    case False
    then show ?thesis using f assms(2,4,5) by (auto simp: ingest_def Let_def)
  qed
qed

theorem other_channel_isolated_witness:
  "ingest example_build example_waiting (to_be32 3 @ 0x90 # to_be16 1 @ replicate 57 4) 9
     = Some (Ev_None, example_waiting)
   \<or> ingest example_build example_waiting (to_be32 3 @ 0x90 # to_be16 1 @ replicate 57 4) 9
     = Some (Ev_None, queue_error example_waiting 3 ChannelBusy)"
proof (rule other_channel_isolated [OF example_waiting_wf, of 2])
  show "active_channel example_waiting = Some 2"
    using example_wf(2) [unfolded active_None_iff]
    by (simp add: example_waiting_def active_channel_def)
qed (simp_all add: hid_consts subslice_def codec_simps)

text \<open>
  C25. A resynchronized request can neither be answered nor confirm a firmware candidate: an
  INIT report on the channel of a pending application request (well-formed or not) reports an
  interruption, and whatever the application then returns, completing it is classified as
  interrupted, clears the response buffer and leaves the transport exactly as the INIT left it.
\<close>

theorem init_discards_stale_reply:
  assumes "hid_wf B s" and "hid_app_request s = Some req" and "length packet = PACKET_SIZE"
    and "Option.bind (subslice packet 0 4) from_be32 = Some (ar_channel req)"
    and "packet ! 4 = command_number Cmd_Init OR 0x80"
  shows "\<exists>s'. ingest_with_interruption B s packet now = Some ((Ev_None, True), s')
    \<and> complete_cbor (reply B) ok resp s' = Some (Inr Interrupted, zeroize resp, s')
    \<and> complete_update (reply B) resp s' = Some (Inr Discarded, zeroize resp, s')"
proof -
  obtain s' where "ingest_with_interruption B s packet now = Some ((Ev_None, True), s')"
    and none: "\<not> hid_app_request s' \<noteq> None" and wf: "hid_wf B s'"
    using init_interrupts [OF assms] by blast
  with hid_reply.reply_none [OF wf none] show ?thesis
    by (simp add: complete_cbor_def complete_update_def)
qed

theorem init_discards_stale_reply_witness:
  "\<exists>s'. ingest_with_interruption example_build example_waiting
        (to_be32 2 @ 0x86 # to_be16 7 @ replicate 57 0) 11 = Some ((Ev_None, True), s')
    \<and> complete_cbor (reply example_build) True [0, 0xa0] s' = Some (Inr Interrupted, zeroize [0, 0xa0], s')
    \<and> complete_update (reply example_build) [0, 0xa0] s' = Some (Inr Discarded, zeroize [0, 0xa0], s')"
  by (rule init_discards_stale_reply [OF example_waiting_wf,
        of "\<lparr>ar_channel = 2, ar_command = Cmd_Cbor, ar_length = 1\<rparr>"])
    (simp_all add: example_waiting_def hid_consts subslice_def codec_simps nth_append)

text \<open>
  A firmware candidate is confirmed by an exchange only if the authenticator dispatched
  the request, its status byte is CTAP2 success, the request is still pending and the reply
  fits the transport: these four facts are equivalent to the completion \<^verbatim>\<open>Succeeded\<close>.
\<close>

theorem cbor_succeeded_iff:
  assumes "hid_wf B s"
  shows "(\<exists>b s'. complete_cbor (reply B) ok resp s = Some (Inr Succeeded, b, s')) \<longleftrightarrow>
    ok \<and> hid_app_request s \<noteq> None \<and> (\<exists>rest. resp = 0 # rest) \<and> length resp \<le> buf_size B"
  using hid_reply.complete_cbor_succeeded_iff [OF assms] .

theorem cbor_succeeded_iff_witness:
  "(\<exists>b s'. complete_cbor (reply example_build) True [0, 0xa0] example_waiting
     = Some (Inr Succeeded, b, s')) \<longleftrightarrow>
   True \<and> hid_app_request example_waiting \<noteq> None \<and> (\<exists>rest. [0, 0xa0 :: u8] = 0 # rest)
   \<and> length [0, 0xa0 :: u8] \<le> buf_size example_build"
  by (rule cbor_succeeded_iff [OF example_waiting_wf])

text \<open>The seventeen bytes of the INIT response, as \<^verbatim>\<open>dispatch_init\<close> builds them.\<close>

lemma init_response_bytes:
  assumes "length nonce = 8" and "17 \<le> n"
  shows "Option.bind (copy_from_slice (replicate n 0) 0 8 nonce) (\<lambda>r.
      Option.bind (copy_from_slice r 8 12 (to_be32 c)) (\<lambda>r. Option.bind (store r 12 a0) (\<lambda>r.
      Option.bind (store r 13 a1) (\<lambda>r. Option.bind (store r 14 a2) (\<lambda>r.
      Option.bind (store r 15 a3) (\<lambda>r. Option.bind (store r 16 a4) f))))))
    = f (nonce @ to_be32 c @ [a0, a1, a2, a3, a4] @ replicate (n - 17) (0 :: u8))"
proof -
  let ?z = "replicate (n - 17) (0 :: u8)"
  have five: "replicate 5 (0 :: u8) = [0, 0, 0, 0, 0]" by (simp add: numeral_eq_Suc)
  have n: "replicate n (0 :: u8) = replicate 17 0 @ ?z"
    using assms(2) by (metis le_add_diff_inverse replicate_add)
  have 1: "copy_from_slice (replicate n 0) 0 8 nonce = Some (nonce @ replicate 9 0 @ ?z)"
    unfolding n using assms(1) by (simp add: copy_from_slice_def)
  have 2: "copy_from_slice (nonce @ replicate 9 0 @ ?z) 8 12 (to_be32 c)
      = Some (nonce @ to_be32 c @ [0, 0, 0, 0, 0] @ ?z)"
    using assms(1) by (simp add: copy_from_slice_def five)
  have 3: "store (nonce @ to_be32 c @ xs @ v # ys) (12 + length xs) x
      = Some (nonce @ to_be32 c @ xs @ x # ys)" for xs v ys and x :: u8
    using assms(1) by (simp add: store_def list_update_append)
  show ?thesis
    using 3 [of "[]"] 3 [of "[a0]"] 3 [of "[a0, a1]"] 3 [of "[a0, a1, a2]"] 3 [of "[a0, a1, a2, a3]"]
    by (simp add: 1 2)
qed



end
