(* ===== verification/Usb_Runtime.thy ===== *)
theory Usb_Runtime
  imports Ctaphid User_Presence
begin

text \<open>
  \<^verbatim>\<open>src/platform/usb_runtime.rs\<close> and the report boundary of \<^verbatim>\<open>src/usb.rs\<close>: cooperative USB polling
  around the CTAPHID engine, which is also the wait hook of the user interface. The USB stack
  (device polling, raw report transfer) and the clock are the parameter \<open>fido_usb\<close>, on a state
  that carries whatever the host sends; \<open>fu_would_block\<close> is the one value of its error type the
  code compares with. The Trussed interrupt flag is the state of
  \<^verbatim>\<open>third_party/trussed-core/src/interrupt.rs\<close>. The \<^verbatim>\<open>RefCell\<close> borrows of the source never overlap
  in conflict, each operation takes one cell at a time; the cells are the fields of the record.
\<close>

section \<open>The report boundary\<close>

definition REPORT_SIZE :: nat where "REPORT_SIZE = 64"
definition KEEPALIVE_INTERVAL_MS :: u32 where "KEEPALIVE_INTERVAL_MS = 100"

record ('u, 'e) fido_usb =
  fu_poll :: "'u \<Rightarrow> bool \<times> 'u"
  fu_pull_raw_output :: "bytes \<Rightarrow> 'u \<Rightarrow> ('e + nat) \<times> bytes \<times> 'u"
  fu_push_raw_input :: "bytes \<Rightarrow> 'u \<Rightarrow> ('e + nat) \<times> 'u"
  fu_would_block :: 'e
  fu_now :: "'u \<Rightarrow> u64 \<times> 'u"
  fu_elapsed_ms :: "u64 \<Rightarrow> 'u \<Rightarrow> u64 \<times> 'u"

datatype 'e report_error = Usb 'e | WrongSize nat

definition usb_receive :: "('u, 'e) fido_usb \<Rightarrow> bytes \<Rightarrow> 'u \<Rightarrow> ('e report_error + bool) \<times> bytes \<times> 'u" where
  "usb_receive U report u = (case fu_pull_raw_output U report u of
       (Inr n, report, u) \<Rightarrow> (if n = REPORT_SIZE then Inr True else Inl (WrongSize n), report, u)
     | (Inl e, report, u) \<Rightarrow> (if e = fu_would_block U then Inr False else Inl (Usb e), report, u))"

definition usb_send :: "('u, 'e) fido_usb \<Rightarrow> bytes \<Rightarrow> 'u \<Rightarrow> ('e report_error + unit) \<times> 'u" where
  "usb_send U report u = (case fu_push_raw_input U report u of
       (Inr n, u) \<Rightarrow> (if n = REPORT_SIZE then Inr () else Inl (WrongSize n), u)
     | (Inl e, u) \<Rightarrow> (Inl (Usb e), u))"

section \<open>The interrupt flag\<close>

datatype interrupt_state = IS_Idle | IS_Working | IS_Interrupted

definition set_idle :: "interrupt_state \<Rightarrow> interrupt_state" where "set_idle f = IS_Idle"

definition set_working :: "interrupt_state \<Rightarrow> interrupt_state" where "set_working f = IS_Working"

definition interrupt :: "interrupt_state \<Rightarrow> bool \<times> interrupt_state" where
  "interrupt f = (if f = IS_Working then (True, IS_Interrupted) else (False, f))"

definition is_interrupted :: "interrupt_state \<Rightarrow> bool" where
  "is_interrupted f \<longleftrightarrow> f = IS_Interrupted"

section \<open>The runtime\<close>

record 'u usb_runtime =
  ur_usb :: 'u
  ur_ctaphid :: ctap_hid
  ur_interrupt :: "interrupt_state option"
  ur_started :: u64
  ur_last_keepalive_ms :: u32
  ur_presence_cancelled :: bool

definition runtime_new ::
  "('u, 'e) fido_usb \<Rightarrow> 'u \<Rightarrow> ctap_hid \<Rightarrow> interrupt_state option \<Rightarrow> 'u usb_runtime" where
  "runtime_new U usb hid flag = (case fu_now U usb of (started, usb) \<Rightarrow>
     \<lparr>ur_usb = usb, ur_ctaphid = hid, ur_interrupt = flag, ur_started = started, ur_last_keepalive_ms = 0,
      ur_presence_cancelled = False\<rparr>)"

definition now_ms :: "('u, 'e) fido_usb \<Rightarrow> 'u usb_runtime \<Rightarrow> u32 \<times> 'u usb_runtime" where
  "now_ms U r = (case fu_elapsed_ms U (ur_started r) (ur_usb r) of (t, u) \<Rightarrow> (ucast t, r\<lparr>ur_usb := u\<rparr>))"

definition copy_request :: "'u usb_runtime \<Rightarrow> bytes \<Rightarrow> (nat option \<times> bytes) option" where
  "copy_request r destination = do {
     payload \<leftarrow> request_payload (ur_ctaphid r);
     case payload of
       None \<Rightarrow> Some (None, destination)
     | Some req \<Rightarrow> do {
         destination \<leftarrow> copy_from_slice destination 0 (length req) req;
         Some (Some (length req), destination)
       }
   }"

text \<open>\<^verbatim>\<open>reply_cbor\<close> and \<^verbatim>\<open>reply_update\<close> both forward to the reply of the engine.\<close>

definition runtime_reply :: "hid_build \<Rightarrow> 'u usb_runtime reply_fn" where
  "runtime_reply B r payload =
     map_option (\<lambda>(result, hid). (result, r\<lparr>ur_ctaphid := hid\<rparr>)) (reply B (ur_ctaphid r) payload)"

text \<open>What \<^verbatim>\<open>poll_at\<close> and \<^verbatim>\<open>transport_error\<close> do when the request in progress ends early.\<close>

definition cancel_presence :: "'u usb_runtime \<Rightarrow> 'u usb_runtime" where
  "cancel_presence r = r\<lparr>ur_presence_cancelled := True, ur_interrupt := map_option (snd \<circ> interrupt) (ur_interrupt r)\<rparr>"

definition runtime_transport_error :: "'u usb_runtime \<Rightarrow> 'u usb_runtime" where
  "runtime_transport_error r = cancel_presence (r\<lparr>ur_ctaphid := transport_error (ur_ctaphid r)\<rparr>)"

definition send_pending :: "('u, 'e) fido_usb \<Rightarrow> 'u usb_runtime \<Rightarrow> (bool \<times> 'u usb_runtime) option" where
  "send_pending U r = do {
     packet \<leftarrow> next_packet (ur_ctaphid r);
     case packet of
       None \<Rightarrow> Some (True, r)
     | Some packet \<Rightarrow> (case usb_send U packet (ur_usb r) of (result, u) \<Rightarrow>
         let r = r\<lparr>ur_usb := u\<rparr> in
         case result of
           Inr _ \<Rightarrow> map_option (\<lambda>hid. (True, r\<lparr>ur_ctaphid := hid\<rparr>)) (packet_sent (ur_ctaphid r))
         | Inl e \<Rightarrow> if e = Usb (fu_would_block U) then Some (True, r) else Some (False, runtime_transport_error r))
   }"

definition receive_report ::
  "hid_build \<Rightarrow> ('u, 'e) fido_usb \<Rightarrow> u32 \<Rightarrow> 'u usb_runtime \<Rightarrow> (hid_event \<times> 'u usb_runtime) option" where
  "receive_report B U now r = (case usb_receive U (replicate REPORT_SIZE 0) (ur_usb r) of (result, report, u) \<Rightarrow>
     let r = r\<lparr>ur_usb := u\<rparr> in
     case result of
       Inr True \<Rightarrow> do {
         ((event, interrupted), hid) \<leftarrow> ingest_report B (ur_ctaphid r) report now;
         let r = r\<lparr>ur_ctaphid := hid\<rparr>;
         Some (event, if interrupted then cancel_presence r else r)
       }
     | Inr False \<Rightarrow> Some (Ev_None, r)
     | Inl _ \<Rightarrow> Some (Ev_None, runtime_transport_error r))"

definition poll_at ::
  "hid_build \<Rightarrow> ('u, 'e) fido_usb \<Rightarrow> u32 \<Rightarrow> 'u usb_runtime \<Rightarrow> (hid_event \<times> 'u usb_runtime) option" where
  "poll_at B U now r = do {
     let (ready, u) = fu_poll U (ur_usb r);
     let r = r\<lparr>ur_usb := u\<rparr>;
     (event, r) \<leftarrow> (if ready then receive_report B U now r else Some (Ev_None, r));
     let r = r\<lparr>ur_ctaphid := expire (ur_ctaphid r) now\<rparr>;
     (sent, r) \<leftarrow> send_pending U r;
     Some (if sent then event else Ev_None, r)
   }"

definition runtime_poll :: "hid_build \<Rightarrow> ('u, 'e) fido_usb \<Rightarrow> 'u usb_runtime \<Rightarrow> (hid_event \<times> 'u usb_runtime) option" where
  "runtime_poll B U r = (case now_ms U r of (now, r) \<Rightarrow> poll_at B U now r)"

section \<open>The runtime as a wait hook\<close>

definition begin_wait :: "('u, 'e) fido_usb \<Rightarrow> 'u usb_runtime \<Rightarrow> 'u usb_runtime" where
  "begin_wait U r = (case now_ms U r of (now, r) \<Rightarrow> r\<lparr>ur_last_keepalive_ms := now, ur_presence_cancelled := False\<rparr>)"

definition poll_wait :: "hid_build \<Rightarrow> ('u, 'e) fido_usb \<Rightarrow> 'u usb_runtime \<Rightarrow> 'u usb_runtime option" where
  "poll_wait B U r = (case now_ms U r of (now, r) \<Rightarrow>
     let r = (if KEEPALIVE_INTERVAL_MS \<le> now - ur_last_keepalive_ms r
              then r\<lparr>ur_ctaphid := snd (keepalive (ur_ctaphid r) UserPresenceNeeded), ur_last_keepalive_ms := now\<rparr>
              else r)
     in map_option snd (poll_at B U now r))"

text \<open>\<^verbatim>\<open>end_wait\<close> is the empty default method of the trait.\<close>

definition usb_hook :: "hid_build \<Rightarrow> ('u, 'e) fido_usb \<Rightarrow> 'u usb_runtime wait_hook" where
  "usb_hook B U = \<lparr>wh_begin_wait = \<lambda>r. Some (begin_wait U r), wh_poll_wait = poll_wait B U, wh_end_wait = Some,
     wh_cancelled = ur_presence_cancelled\<rparr>"

section \<open>Polling keeps the engine well formed\<close>

definition runtime_wf :: "hid_build \<Rightarrow> 'u usb_runtime \<Rightarrow> bool" where
  "runtime_wf B r \<longleftrightarrow> hid_wf B (ur_ctaphid r)"

text \<open>
  \<open>awaits req bs r\<close>: the wait has been cancelled, or the request \<open>req\<close> with the bytes \<open>bs\<close> of the
  buffer is still the one the engine is serving.
\<close>

definition awaits :: "app_request \<Rightarrow> bytes \<Rightarrow> 'u usb_runtime \<Rightarrow> bool" where
  "awaits req bs r \<longleftrightarrow> ur_presence_cancelled r
     \<or> hid_app_request (ur_ctaphid r) = Some req \<and> hid_request (ur_ctaphid r) = bs"

text \<open>No request is being worked on, so there is nothing to interrupt.\<close>

definition flag_idle :: "'u usb_runtime \<Rightarrow> bool" where
  "flag_idle r \<longleftrightarrow> ur_interrupt r \<in> {None, Some IS_Idle}"

lemma flag_idle_update [simp]:
  "flag_idle (r\<lparr>ur_usb := u\<rparr>) = flag_idle r" "flag_idle (r\<lparr>ur_ctaphid := h\<rparr>) = flag_idle r"
  "flag_idle (r\<lparr>ur_last_keepalive_ms := t\<rparr>) = flag_idle r" "flag_idle (r\<lparr>ur_presence_cancelled := c\<rparr>) = flag_idle r"
  "flag_idle r \<Longrightarrow> flag_idle (cancel_presence r)" "flag_idle r \<Longrightarrow> flag_idle (runtime_transport_error r)"
  by (auto simp: flag_idle_def cancel_presence_def runtime_transport_error_def interrupt_def)

lemma wf_now [simp]:
  "flag_idle (snd (now_ms U r)) = flag_idle r"
  "ur_ctaphid (snd (now_ms U r)) = ur_ctaphid r" "ur_presence_cancelled (snd (now_ms U r)) = ur_presence_cancelled r"
  by (simp_all add: now_ms_def split: prod.splits)

lemma cancel_presence_fields [simp]:
  "ur_ctaphid (cancel_presence r) = ur_ctaphid r" "ur_presence_cancelled (cancel_presence r)"
  by (simp_all add: cancel_presence_def)

lemma transport_error_fields [simp]:
  "ur_ctaphid (runtime_transport_error r) = transport_error (ur_ctaphid r)"
  "ur_presence_cancelled (runtime_transport_error r)"
  by (simp_all add: runtime_transport_error_def)

lemma queue_error_request [simp]: "hid_request (queue_error s c e) = hid_request s"
  by (simp add: queue_error_def)

lemma abort_app_request [simp]: "hid_app_request (abort_transaction s) = None"
  by (simp add: abort_transaction_def)

text \<open>A report leaves the pending request alone, ends it, or cancels it.\<close>

lemma pending_channel:
  "hid_wf B s \<Longrightarrow> hid_app_request s = Some req \<Longrightarrow> hid_receive s = None \<and> active_channel s = Some (ar_channel req)"
  by (auto simp: active_channel_def hid_wf_def one_transaction_def split: option.splits)

lemma ingest_pending:
  assumes "hid_wf B s" and "hid_app_request s = Some req" and "ingest B s packet now = Some (ev, s')"
  shows "(\<exists>c. ev = Ev_Cancelled c) \<or> hid_app_request s' = None
    \<or> hid_app_request s' = Some req \<and> hid_request s' = hid_request s"
proof -
  have quiet: "\<forall>c len. ingest_start B (abort_transaction s) c (command_number Cmd_Init) len packet now = Some (ev, s')
      \<longrightarrow> hid_app_request s' = None"
    using ingest_start_init_quiet by fastforce
  show ?thesis
    using assms(3) pending_channel [OF assms(1,2)] assms(2) quiet
    by (auto simp: ingest_def Let_def ingest_continuation_def cancel_application_request_def
        bind_eq_Some_conv split: if_splits)
qed

lemma receive_report_ok:
  assumes "runtime_wf B r"
  shows "\<exists>ev r'. receive_report B U now r = Some (ev, r') \<and> runtime_wf B r'
    \<and> (ur_presence_cancelled r \<longrightarrow> ur_presence_cancelled r') \<and> (awaits req bs r \<longrightarrow> awaits req bs r') \<and> (flag_idle r \<longrightarrow> flag_idle r')"
proof -
  obtain result report u where rcv: "usb_receive U (replicate REPORT_SIZE 0) (ur_usb r) = (result, report, u)"
    by (metis prod_cases3)
  show ?thesis
  proof (cases "result = Inr True")
    case True
    obtain ev i hid where ing: "ingest_report B (ur_ctaphid r) report now = Some ((ev, i), hid)" and wf: "hid_wf B hid"
      using ingest_report_wf [of B "ur_ctaphid r" report now] assms by (auto simp: runtime_wf_def)
    have "i \<or> hid_app_request hid = Some req \<and> hid_request hid = hid_request (ur_ctaphid r)"
      if "hid_app_request (ur_ctaphid r) = Some req"
      using ing assms ingest_pending [of B "ur_ctaphid r" req report now] that
      by (auto simp: ingest_report_def ingest_with_interruption_def runtime_wf_def Let_def bind_eq_Some_conv split: if_splits)
    with True ing wf rcv show ?thesis
      by (auto simp: receive_report_def runtime_wf_def awaits_def Let_def)
  qed (use rcv assms in \<open>auto simp: receive_report_def runtime_wf_def awaits_def Let_def split: sum.splits bool.splits\<close>)
qed

lemma packet_sent_pending:
  "packet_sent s = Some s' \<Longrightarrow> hid_app_request s' = hid_app_request s \<and> hid_request s' = hid_request s"
  by (cases "hid_transmit s") (auto simp: packet_sent_def Let_def split: bind_splits if_split_asm)

lemma send_pending_ok:
  assumes "runtime_wf B r"
  shows "\<exists>ok r'. send_pending U r = Some (ok, r') \<and> runtime_wf B r'
    \<and> (ur_presence_cancelled r \<longrightarrow> ur_presence_cancelled r') \<and> (awaits req bs r \<longrightarrow> awaits req bs r') \<and> (flag_idle r \<longrightarrow> flag_idle r')
    \<and> (ok \<longrightarrow> hid_app_request (ur_ctaphid r') = hid_app_request (ur_ctaphid r))"
proof -
  have wf: "hid_wf B (ur_ctaphid r)" using assms by (simp add: runtime_wf_def)
  obtain p where p: "next_packet (ur_ctaphid r) = Some p" using next_packet_total [OF wf] by blast
  obtain hid where sent: "packet_sent (ur_ctaphid r) = Some hid" "hid_wf B hid" using packet_sent_wf [OF wf] by blast
  note kept = packet_sent_pending [OF sent(1)]
  show ?thesis
  proof (cases p)
    case None
    with p assms show ?thesis by (intro exI [of _ True] exI [of _ r]) (simp add: send_pending_def)
  next
    case (Some packet)
    obtain result u where "usb_send U packet (ur_usb r) = (result, u)" by (cases "usb_send U packet (ur_usb r)")
    with p Some sent kept wf show ?thesis
      by (cases result) (auto simp: send_pending_def Let_def runtime_wf_def awaits_def)
  qed
qed

lemma expire_pending: "hid_wf B s \<Longrightarrow> hid_app_request s = Some req \<Longrightarrow> expire s now = s"
  by (simp add: expire_def pending_channel)

lemma expire_app: "hid_app_request (expire s now) = hid_app_request s"
  by (simp add: expire_def split: option.splits)

lemma poll_at_ok:
  assumes "runtime_wf B r"
  shows "\<exists>ev r'. poll_at B U now r = Some (ev, r') \<and> runtime_wf B r'
    \<and> (ur_presence_cancelled r \<longrightarrow> ur_presence_cancelled r') \<and> (awaits req bs r \<longrightarrow> awaits req bs r') \<and> (flag_idle r \<longrightarrow> flag_idle r')"
proof -
  obtain ready u where p: "fu_poll U (ur_usb r) = (ready, u)" by (cases "fu_poll U (ur_usb r)")
  let ?r = "r\<lparr>ur_usb := u\<rparr>"
  have wf0: "runtime_wf B ?r" using assms by (simp add: runtime_wf_def)
  obtain ev r1 where r1: "(if ready then receive_report B U now ?r else Some (Ev_None, ?r)) = Some (ev, r1)"
    "runtime_wf B r1" "ur_presence_cancelled r \<longrightarrow> ur_presence_cancelled r1" "awaits req bs r \<longrightarrow> awaits req bs r1"
    "flag_idle r \<longrightarrow> flag_idle r1"
    using receive_report_ok [OF wf0, of U now req bs] wf0 by (cases ready) (auto simp: awaits_def)
  let ?r1 = "r1\<lparr>ur_ctaphid := expire (ur_ctaphid r1) now\<rparr>"
  have r2: "runtime_wf B ?r1" "ur_presence_cancelled ?r1 = ur_presence_cancelled r1" "awaits req bs r1 \<longrightarrow> awaits req bs ?r1"
    using r1(2) expire_wf expire_pending by (auto simp: runtime_wf_def awaits_def)
  from send_pending_ok [OF r2(1), of U req bs] r1 r2 p show ?thesis by (auto simp: poll_at_def Let_def)
qed

lemma poll_wait_ok:
  assumes "runtime_wf B r"
  shows "\<exists>r'. poll_wait B U r = Some r' \<and> runtime_wf B r'
    \<and> (ur_presence_cancelled r \<longrightarrow> ur_presence_cancelled r') \<and> (awaits req bs r \<longrightarrow> awaits req bs r') \<and> (flag_idle r \<longrightarrow> flag_idle r')"
proof -
  obtain now r0 where n: "now_ms U r = (now, r0)" by (cases "now_ms U r")
  then have r0: "ur_ctaphid r0 = ur_ctaphid r" "ur_presence_cancelled r0 = ur_presence_cancelled r" "flag_idle r0 = flag_idle r"
    using wf_now [of U r] by simp_all
  let ?r = "if KEEPALIVE_INTERVAL_MS \<le> now - ur_last_keepalive_ms r0
    then r0\<lparr>ur_ctaphid := snd (keepalive (ur_ctaphid r0) UserPresenceNeeded), ur_last_keepalive_ms := now\<rparr> else r0"
  have "runtime_wf B ?r" "ur_presence_cancelled ?r = ur_presence_cancelled r" "awaits req bs r \<longrightarrow> awaits req bs ?r"
    "flag_idle ?r = flag_idle r"
    using assms r0 keepalive_wf [of B "ur_ctaphid r0"]
    by (auto simp: runtime_wf_def awaits_def keepalive_def split: option.splits)
  with poll_at_ok [of B ?r U now req bs] n show ?thesis by (auto simp: poll_wait_def Let_def)
qed

lemma begin_wait_fields [simp]:
  "ur_ctaphid (begin_wait U r) = ur_ctaphid r" "\<not> ur_presence_cancelled (begin_wait U r)"
  "flag_idle (begin_wait U r) = flag_idle r"
  by (simp_all add: begin_wait_def now_ms_def split: prod.splits)

interpretation usb: waiting_hook "usb_hook B U" "runtime_wf B" for B U
  using poll_wait_ok [of B] by unfold_locales (fastforce simp: usb_hook_def runtime_wf_def)+

text \<open>Outside a call of the authenticator the hook also keeps the flag idle.\<close>

definition runtime_rest :: "hid_build \<Rightarrow> 'u usb_runtime \<Rightarrow> bool" where
  "runtime_rest B r \<longleftrightarrow> runtime_wf B r \<and> flag_idle r"

interpretation usb_rest: waiting_hook "usb_hook B U" "runtime_rest B" for B U
  using poll_wait_ok [of B] by unfold_locales (fastforce simp: usb_hook_def runtime_wf_def runtime_rest_def)+

text \<open>Replies of the runtime are those of the engine, so its completions obey the same laws.\<close>

interpretation runtime: reply_transport "runtime_reply B" "\<lambda>r. hid_app_request (ur_ctaphid r) \<noteq> None" "runtime_rest B" "buf_size B"
  for B
proof (unfold_locales, goal_cases)
  case (1 r p)
  then show ?case using hid_reply.reply_none [of B "ur_ctaphid r" p] by (simp add: runtime_reply_def runtime_rest_def runtime_wf_def)
next
  case (2 r p)
  then show ?case using hid_reply.reply_long [of B "ur_ctaphid r" p] by (auto simp: runtime_reply_def runtime_rest_def runtime_wf_def)
next
  case (3 r p)
  then show ?case using hid_reply.reply_fits [of B "ur_ctaphid r" p] by (auto simp: runtime_reply_def runtime_rest_def runtime_wf_def)
next
  case (4 r)
  then show ?case using hid_reply.capacity_pos [of B "ur_ctaphid r"] by (simp add: runtime_rest_def runtime_wf_def)
qed

text \<open>An event that announces a request leaves it pending.\<close>

fun announces :: "hid_event \<Rightarrow> bool" where
  "announces (Ev_Cbor _ _) = True"
| "announces (Ev_Update _ _) = True"
| "announces _ = False"

lemma dispatch_event: "dispatch B s c cmd n = Some (ev, s') \<Longrightarrow> announces ev \<Longrightarrow> \<exists>req. hid_app_request s' = Some req"
  by (auto simp: dispatch_def split: if_splits command.splits bind_splits dest!: dispatch_init_quiet)

lemma ingest_event:
  assumes "ingest B s packet now = Some (ev, s')" and "announces ev"
  shows "\<exists>req. hid_app_request s' = Some req"
proof -
  have st: "\<exists>req. hid_app_request s2 = Some req" if "ingest_start B s1 ch cn len packet now = Some (e, s2)" "announces e"
    for s1 s2 ch cn len e
    using that
    by (auto simp: ingest_start_def Let_def split: option.splits if_splits bind_splits dest: dispatch_event)
  have co: "\<exists>req. hid_app_request s2 = Some req" if "ingest_continuation B s1 ch packet now = Some (e, s2)" "announces e"
    for s1 s2 ch e
    using that
    by (auto simp: ingest_continuation_def Let_def split: option.splits if_splits bind_splits dest: dispatch_event)
  show ?thesis
    using assms
    by (auto simp: ingest_def Let_def cancel_application_request_def split: option.splits if_splits bind_splits dest: st co)
qed

lemma poll_at_event:
  assumes "runtime_wf B r" and "poll_at B U now r = Some (ev, r')" and "announces ev"
  shows "\<exists>req. hid_app_request (ur_ctaphid r') = Some req"
proof -
  obtain ready u where p: "fu_poll U (ur_usb r) = (ready, u)" by (cases "fu_poll U (ur_usb r)")
  let ?r = "r\<lparr>ur_usb := u\<rparr>"
  have wf0: "runtime_wf B ?r" using assms(1) by (simp add: runtime_wf_def)
  obtain ev1 r1 where r1: "(if ready then receive_report B U now ?r else Some (Ev_None, ?r)) = Some (ev1, r1)" "runtime_wf B r1"
    using receive_report_ok [OF wf0, of U now undefined "[]"] wf0 by (cases ready) auto
  let ?r1 = "r1\<lparr>ur_ctaphid := expire (ur_ctaphid r1) now\<rparr>"
  have wf1: "runtime_wf B ?r1" using r1(2) expire_wf by (simp add: runtime_wf_def)
  obtain ok where ok: "send_pending U ?r1 = Some (ok, r')"
    "ok \<longrightarrow> hid_app_request (ur_ctaphid r') = hid_app_request (ur_ctaphid r1)" and ev: "ev = (if ok then ev1 else Ev_None)"
    using send_pending_ok [OF wf1, of U undefined "[]"] assms(2) p r1(1) by (auto simp: poll_at_def Let_def expire_app)
  with assms(3) have "ok" "announces ev1" by (auto split: if_splits)
  have "\<exists>req. hid_app_request (ur_ctaphid r1) = Some req"
    using r1(1) \<open>announces ev1\<close>
    by (auto simp: receive_report_def Let_def ingest_report_def ingest_with_interruption_def bind_eq_Some_conv
        split: prod.splits sum.splits bool.splits if_splits dest!: ingest_event)
  with ok \<open>ok\<close> show ?thesis by simp
qed

text \<open>A verdict of the loop is given on the flag of the hook's last poll, and the loop keeps what polls keep.\<close>

lemma cancelled_poll: "hardware_poll hw reading True = Some (v, hw') \<Longrightarrow> v \<noteq> Some True"
  by (auto simp: hardware_poll_def gate_poll_def split: option.splits if_splits)

lemma confirm_loop_true:
  assumes "confirm_loop W hw k rs = Some (Some True, hw', k')" and "J k"
    and "\<And>k k'. J k \<Longrightarrow> wh_poll_wait W k = Some k' \<Longrightarrow> J k'"
  shows "J k' \<and> \<not> wh_cancelled W k'"
  using assms(1,2)
proof (induction rs arbitrary: hw k)
  case (Cons r rs)
  then obtain k1 v hw1 where p: "wh_poll_wait W k = Some k1" "hardware_poll hw r (wh_cancelled W k1) = Some (v, hw1)"
    by (auto simp: bind_eq_Some_conv)
  with Cons.prems assms(3) have J: "J k1" by blast
  show ?case
  proof (cases v)
    case None
    with Cons.IH [OF _ J, of hw1] Cons.prems(1) p show ?thesis by simp
  next
    case (Some b)
    with Cons.prems(1) p J cancelled_poll [of hw r v hw1] show ?thesis by auto
  qed
qed simp

section \<open>Properties\<close>

text \<open>
  C4. A confirmation approves the request that asked for it. If \<open>confirm\<close> returns true while the
  runtime is its hook, the request that was pending when the wait began is still the one the
  engine serves, with the same payload, whatever the host sent during the wait: a CANCEL, an
  INIT, a second request or a malformed packet on its channel and every USB error make the
  verdict false.
\<close>

theorem presence_approves_pending_request:
  assumes "hid_wf B (ur_ctaphid r)" and "hid_app_request (ur_ctaphid r) = Some req"
    and "confirm (usb_hook B U) hw r timeout_ms long_hold now readings = Some (Some True, hw', r')"
  shows "hid_app_request (ur_ctaphid r') = Some req \<and> request_payload (ur_ctaphid r') = request_payload (ur_ctaphid r)
    \<and> hid_wf B (ur_ctaphid r')"
proof -
  let ?J = "\<lambda>r'. runtime_wf B r' \<and> awaits req (hid_request (ur_ctaphid r)) r'"
  have "?J (begin_wait U r)" using assms(1,2) by (simp add: runtime_wf_def awaits_def)
  moreover have "?J k'" if "?J k" "wh_poll_wait (usb_hook B U) k = Some k'" for k k'
    using that poll_wait_ok [of B k U req "hid_request (ur_ctaphid r)"] by (auto simp: usb_hook_def)
  moreover obtain hw1 where "confirm_loop (usb_hook B U) (hardware_begin hw now timeout_ms long_hold) (begin_wait U r) readings
      = Some (Some True, hw1, r')"
    using assms(3) by (auto simp: confirm_def usb_hook_def Let_def bind_eq_Some_conv split: option.splits)
  ultimately have "?J r' \<and> \<not> wh_cancelled (usb_hook B U) r'" using confirm_loop_true [where J = ?J] by blast
  with assms(2) show ?thesis by (auto simp: usb_hook_def awaits_def runtime_wf_def request_payload_def)
qed

text \<open>A host that is silent and a clock that advances one millisecond per reading.\<close>

definition silent_usb :: "(nat, unit) fido_usb" where
  "silent_usb = \<lparr>fu_poll = \<lambda>u. (False, u), fu_pull_raw_output = \<lambda>b u. (Inl (), b, u), fu_push_raw_input = \<lambda>p u. (Inr 64, u),
     fu_would_block = (), fu_now = \<lambda>u. (of_nat u, u), fu_elapsed_ms = \<lambda>s u. (of_nat u - s, u + 1)\<rparr>"

definition example_runtime :: "nat usb_runtime" where
  "example_runtime = runtime_new silent_usb 0 example_waiting (Some IS_Working)"

lemmas evaluate_runtime = usb_hook_def begin_wait_def poll_wait_def poll_at_def now_ms_def send_pending_def
  silent_usb_def KEEPALIVE_INTERVAL_MS_def expire_def

theorem presence_approves_pending_request_witness:
  "\<exists>hw' r'. confirm (usb_hook example_build silent_usb) hardware_new example_runtime 1000 False 0
      [(0, False), (40, False), (100, True), (140, True)] = Some (Some True, hw', r')
    \<and> hid_app_request (ur_ctaphid r') = Some \<lparr>ar_channel = 2, ar_command = Cmd_Cbor, ar_length = 1\<rparr>"
proof -
  have wf: "hid_wf example_build (ur_ctaphid example_runtime)"
    "hid_app_request (ur_ctaphid example_runtime) = Some \<lparr>ar_channel = 2, ar_command = Cmd_Cbor, ar_length = 1\<rparr>"
    using example_waiting_wf by (simp_all add: example_runtime_def runtime_new_def silent_usb_def example_waiting_def)
  have idle: "next_packet example_waiting = Some None"
    by (simp add: next_packet_def example_waiting_def example_engine_def hid_new_def hid_consts example_build_def index_def)
  have rcv: "hid_receive example_waiting = None"
    by (simp add: example_waiting_def example_engine_def hid_new_def hid_consts example_build_def)
  obtain hw' r' where c: "confirm (usb_hook example_build silent_usb) hardware_new example_runtime 1000 False 0
      [(0, False), (40, False), (100, True), (140, True)] = Some (Some True, hw', r')"
    by (simp add: example_runtime_def runtime_new_def evaluate_runtime evaluate_confirm Let_def idle rcv word_le_nat_alt)
  with presence_approves_pending_request [OF wf c] show ?thesis by blast
qed

end
