(* ===== verification/Fido_Loop.thy ===== *)
theory Fido_Loop
  imports Vendor_Commands Usb_Runtime
begin

text \<open>
  The polling loop of \<^verbatim>\<open>src/bin/startup/s2_fido.rs\<close>, which composes the components: every
  iteration ticks the updater, polls the USB runtime and serves the event it reports, a CBOR
  request through the authenticator or a vendor request through \<^verbatim>\<open>vendor_commands::handle\<close>. The
  FIDO authenticator is not part of this repository's own code: its \<^verbatim>\<open>App::call\<close> is the parameter
  \<open>fb_call\<close>, on the state it shares with the loop (the user hardware and the runtime, reached
  through its user interface, and the flash, reached through its storage). \<^verbatim>\<open>FIDO_INTERRUPT\<close> is
  the flag the runtime holds. A failed \<^verbatim>\<open>expect\<close> is \<^term>\<open>None\<close>.
\<close>

section \<open>The loop\<close>

record ('f, 'x, 'h, 'u, 'r, 'e, 'a) fido_build =
  fb_vendor :: "('f, 'x, 'h, 'u usb_runtime, 'r) vendor_build"
  fb_hid :: hid_build
  fb_usb :: "('u, 'e) fido_usb"
  fb_call :: "bytes \<Rightarrow> 'a \<times> user_hardware \<times> 'u usb_runtime \<times> 'f fe_state \<Rightarrow>
    (bool \<times> bytes) \<times> 'a \<times> user_hardware \<times> 'u usb_runtime \<times> 'f fe_state"
  fb_signed_ab :: bool
  fb_confirm :: bool
  fb_version :: bytes
  fb_secure_version :: u32
  fb_descriptor :: u32

record ('f, 'x, 'h, 'u, 'r, 'a) fido_device =
  fd_vendor :: "('f, 'x, 'h, 'u usb_runtime, 'r) vendor_state"
  fd_authenticator :: 'a
  fd_request :: bytes

abbreviation fd_runtime :: "('f, 'x, 'h, 'u, 'r, 'a) fido_device \<Rightarrow> 'u usb_runtime" where
  "fd_runtime s \<equiv> vs_hook (fd_vendor s)"

abbreviation fd_flash :: "('f, 'x, 'h, 'u, 'r, 'a) fido_device \<Rightarrow> 'f fe_state" where
  "fd_flash s \<equiv> uu_backend (vs_updater (fd_vendor s))"

definition with_runtime ::
  "'u usb_runtime \<Rightarrow> ('f, 'x, 'h, 'u, 'r, 'a) fido_device \<Rightarrow> ('f, 'x, 'h, 'u, 'r, 'a) fido_device" where
  "with_runtime r s = s\<lparr>fd_vendor := (fd_vendor s)\<lparr>vs_hook := r\<rparr>\<rparr>"

definition with_flash ::
  "'f fe_state \<Rightarrow> ('f, 'x, 'h, 'u, 'r, 'a) fido_device \<Rightarrow> ('f, 'x, 'h, 'u, 'r, 'a) fido_device" where
  "with_flash f s = s\<lparr>fd_vendor := (fd_vendor s)\<lparr>vs_updater := (vs_updater (fd_vendor s))\<lparr>uu_backend := f\<rparr>\<rparr>\<rparr>"

definition fetch_request ::
  "('f, 'x, 'h, 'u, 'r, 'a) fido_device \<Rightarrow> (nat \<times> bytes \<times> ('f, 'x, 'h, 'u, 'r, 'a) fido_device) option" where
  "fetch_request s = do {
     (len, request) \<leftarrow> copy_request (fd_runtime s) (fd_request s);
     len \<leftarrow> len;
     payload \<leftarrow> subslice request 0 len;
     Some (len, payload, s\<lparr>fd_request := request\<rparr>)
   }"

definition wipe_request ::
  "nat \<Rightarrow> ('f, 'x, 'h, 'u, 'r, 'a) fido_device \<Rightarrow> ('f, 'x, 'h, 'u, 'r, 'a) fido_device option" where
  "wipe_request len s = do {
     request \<leftarrow> copy_from_slice (fd_request s) 0 len (replicate len 0);
     Some (s\<lparr>fd_request := request\<rparr>)
   }"

text \<open>The flag is raised for the duration of the call; the user hardware is released after it.\<close>

definition call_authenticator ::
  "('f, 'x, 'h, 'u, 'r, 'e, 'a) fido_build \<Rightarrow> nat \<Rightarrow> bytes \<Rightarrow> ('f, 'x, 'h, 'u, 'r, 'a) fido_device \<Rightarrow>
   ((bool \<times> bytes) \<times> ('f, 'x, 'h, 'u, 'r, 'a) fido_device) option" where
  "call_authenticator F len payload s = do {
     let r = fd_runtime s;
     let r = r\<lparr>ur_interrupt := map_option set_working (ur_interrupt r)\<rparr>;
     let (result, a, hw, r, flash) = fb_call F payload (fd_authenticator s, vs_hardware (fd_vendor s), r, fd_flash s);
     let v = (fd_vendor s)\<lparr>vs_hardware := finish_request hw\<rparr>;
     s \<leftarrow> wipe_request len (with_flash flash (s\<lparr>fd_vendor := v, fd_authenticator := a\<rparr>));
     Some (result, with_runtime (r\<lparr>ur_interrupt := map_option set_idle (ur_interrupt r)\<rparr>) s)
   }"

definition confirm_candidate ::
  "('f, 'x, 'h, 'u, 'r, 'e, 'a) fido_build \<Rightarrow> ('f, 'x, 'h, 'u, 'r, 'a) fido_device \<Rightarrow> ('f, 'x, 'h, 'u, 'r, 'a) fido_device option" where
  "confirm_candidate F s =
     (if fb_signed_ab F \<and> fb_confirm F
      then (case confirm_running_image (vb_flash_encryption (fb_vendor F)) (vb_rom (fb_vendor F)) (fb_version F)
              (fb_secure_version F) (fb_descriptor F) (fd_flash s) of
          Some (Inr _, f) \<Rightarrow> Some (with_flash f s)
        | _ \<Rightarrow> None)
      else Some s)"

definition serve_cbor ::
  "('f, 'x, 'h, 'u, 'r, 'e, 'a) fido_build \<Rightarrow> ('f, 'x, 'h, 'u, 'r, 'a) fido_device \<Rightarrow> ('f, 'x, 'h, 'u, 'r, 'a) fido_device option" where
  "serve_cbor F s = do {
     (len, payload, s) \<leftarrow> fetch_request s;
     ((ok, response), s) \<leftarrow> call_authenticator F len payload s;
     (outcome, _, r) \<leftarrow> complete_cbor (runtime_reply (fb_hid F)) ok response (fd_runtime s);
     let s = with_runtime r s;
     case outcome of
       Inl _ \<Rightarrow> None
     | Inr Succeeded \<Rightarrow> confirm_candidate F s
     | Inr _ \<Rightarrow> Some s
   }"

text \<open>The 64 bytes of the response are \<^verbatim>\<open>[0_u8; 64]\<close>, and are cleared afterwards.\<close>

definition serve_update ::
  "('f, 'x, 'h, 'u, 'r, 'e, 'a) fido_build \<Rightarrow> u64 \<Rightarrow> reading list \<Rightarrow> ('f, 'x, 'h, 'u, 'r, 'a) fido_device \<Rightarrow>
   ('f, 'x, 'h, 'u, 'r, 'a) fido_device blocking option" where
  "serve_update F now readings s = do {
     (len, payload, s) \<leftarrow> fetch_request s;
     (reply, v) \<leftarrow> vendor_handle (fb_vendor F) payload (fb_descriptor F) (fb_secure_version F) now readings
       (replicate 64 0) (fd_vendor s);
     case reply of
       Waits \<Rightarrow> Some Waits
     | Returns (response_len, response) \<Rightarrow> do {
         s \<leftarrow> wipe_request len (s\<lparr>fd_vendor := v\<rparr>);
         answer \<leftarrow> subslice response 0 response_len;
         (outcome, _, r) \<leftarrow> complete_update (runtime_reply (fb_hid F)) answer (fd_runtime s);
         case outcome of
           Inl _ \<Rightarrow> None
         | Inr _ \<Rightarrow> Some (Returns (with_runtime r s))
       }
   }"

definition loop_iteration ::
  "('f, 'x, 'h, 'u, 'r, 'e, 'a) fido_build \<Rightarrow> u64 \<Rightarrow> reading list \<Rightarrow> ('f, 'x, 'h, 'u, 'r, 'a) fido_device \<Rightarrow>
   ('f, 'x, 'h, 'u, 'r, 'a) fido_device blocking option" where
  "loop_iteration F now readings s = do {
     let v = fd_vendor s;
     let B = esp_backend (vb_flash_encryption (fb_vendor F)) (vb_rom (fb_vendor F)) (fb_descriptor F);
     let s = s\<lparr>fd_vendor := v\<lparr>vs_updater := poll B (vs_updater v)\<rparr>\<rparr>;
     (event, r) \<leftarrow> runtime_poll (fb_hid F) (fb_usb F) (fd_runtime s);
     let s = with_runtime r s;
     case event of
       Ev_Cbor _ _ \<Rightarrow> map_option Returns (serve_cbor F s)
     | Ev_Update _ _ \<Rightarrow> serve_update F now readings s
     | Ev_None \<Rightarrow> Some (Returns s)
     | Ev_Cancelled _ \<Rightarrow> Some (Returns s)
   }"

section \<open>What fallible operations preserve\<close>

text \<open>
  \<open>settles P E m\<close>: from a state with \<open>P\<close>, an operation that returns leaves a state with \<open>P\<close>, unless
  it returns an error of \<open>E\<close>.
\<close>

definition settles :: "('s \<Rightarrow> bool) \<Rightarrow> ('e \<Rightarrow> bool) \<Rightarrow> ('s, 'e, 'a) rust \<Rightarrow> bool" where
  "settles P E m \<longleftrightarrow> (\<forall>s r s'. P s \<longrightarrow> m s = Some (r, s') \<longrightarrow> (case r of Inl e \<Rightarrow> E e \<or> P s' | Inr _ \<Rightarrow> P s'))"

named_theorems settle_intros \<open>composition of preserving operations\<close>

lemma settles_pure [settle_intros]:
  "settles P E (rust_ok a)" "settles P E (rust_err e)" "settles P E (ok_or e x)" "settles P E (or_panic x)"
  "settles P E (guard_err b e)"
  by (auto simp: settles_def rust_ok_def rust_err_def ok_or_def or_panic_def guard_err_def split: option.splits if_splits)

lemma settles_try_then [settle_intros]:
  assumes "settles P E m" and "\<And>a. settles P E (f a)" shows "settles P E (try_then m f)"
  unfolding settles_def
proof (intro allI impI)
  fix s r s' assume "P s" and "try_then m f s = Some (r, s')"
  then obtain x s1 where x: "m s = Some (x, s1)" "(case x of Inl e \<Rightarrow> r = Inl e \<and> s' = s1 | Inr a \<Rightarrow> f a s1 = Some (r, s'))"
    by (auto simp: try_then_def split: option.splits sum.splits)
  from assms(1) \<open>P s\<close> x(1) have "case x of Inl e \<Rightarrow> E e \<or> P s1 | Inr _ \<Rightarrow> P s1" unfolding settles_def by blast
  with x(2) assms(2) show "case r of Inl e \<Rightarrow> E e \<or> P s' | Inr _ \<Rightarrow> P s'"
    unfolding settles_def by (cases x) auto
qed

lemma settles_map_err [settle_intros]:
  assumes "settles P (\<lambda>_. False) m" shows "settles P E (map_err g m)"
  unfolding settles_def
proof (intro allI impI)
  fix s r s' assume "P s" and "map_err g m s = Some (r, s')"
  then obtain x where x: "m s = Some (x, s')" by (auto simp: map_err_def split: option.splits sum.splits)
  from assms \<open>P s\<close> x have "P s'" unfolding settles_def by (cases x) force+
  then show "case r of Inl e \<Rightarrow> E e \<or> P s' | Inr _ \<Rightarrow> P s'" by (cases r) auto
qed

lemma settles_case_prod [settle_intros]:
  "(\<And>a b. settles P E (f a b)) \<Longrightarrow> settles P E (case_prod f x)"
  by (simp split: prod.split)

lemma settles_if [settle_intros]:
  "settles P E m \<Longrightarrow> settles P E m' \<Longrightarrow> settles P E (if b then m else m')"
  by simp

lemma settles_sum [settle_intros]:
  "(\<And>a. settles P E (f a)) \<Longrightarrow> (\<And>a. settles P E (g a)) \<Longrightarrow> settles P E (case_sum f g x)"
  by (simp split: sum.split)

text \<open>The part of the device the user sees: the hook's invariant, no gate armed and the LED off.\<close>

definition settled :: "user_hardware \<Rightarrow> bool" where
  "settled hw \<longleftrightarrow> uh_gate hw = None \<and> \<not> uh_led hw"

definition at_rest :: "('k \<Rightarrow> bool) \<Rightarrow> ('f, 'h, 'k) maintenance_device \<Rightarrow> bool" where
  "at_rest I d \<longleftrightarrow> I (md_hook d) \<and> settled (md_hardware d)"

lemma settles_device [settle_intros]:
  "settles (at_rest I) E (on_flash m)" "settles (at_rest I) E (on_efuse op)" "settles (at_rest I) E (from_efuse get)"
  by (auto simp: settles_def at_rest_def on_flash_def on_efuse_def from_efuse_def split: prod.splits sum.splits)

lemma program_step_settles [settle_intros]: "settles (at_rest I) E (program_step P c)"
  by (auto simp: settles_def at_rest_def program_step_def Let_def split: prod.splits sum.splits option.splits)

lemma qualify_settles [settle_intros]: "settles (at_rest I) E (qualify enc R F U H root SCOPE descriptor expected)"
  unfolding qualify_def Let_def by (intro settle_intros)

lemma confirm_settles:
  assumes W: "waiting_hook W I" and "I k" and c: "confirm W hw k timeout long now readings = Some (v, hw', k')"
  shows "I k' \<and> (v \<noteq> None \<longrightarrow> settled hw')"
proof -
  obtain k0 where k0: "wh_begin_wait W k = Some k0" "I k0" using waiting_hook.begin_ok [OF W assms(2)] by blast
  obtain ks where "hook_states W k0 readings = Some ks" using waiting_hook.states_total [OF W k0(2)] by blast
  from waiting_hook.confirm_spec [OF W assms(2) k0(1) this, of now timeout long hw] c show ?thesis
    by (auto simp: settled_def)
qed

lemma confirm_step_settles: "waiting_hook W I \<Longrightarrow> settles (at_rest I) (\<lambda>e. e = Blocked) (confirm_step W now readings)"
  by (auto simp: settles_def at_rest_def confirm_step_def confirm_maintenance_user_presence_def Let_def
      dest!: confirm_settles split: option.splits bool.splits)

lemma poll_step_settles: "waiting_hook W I \<Longrightarrow> settles (at_rest I) E (poll_step W)"
  by (auto simp: settles_def at_rest_def poll_step_def dest: waiting_hook.poll_ok)

lemma maintenance_run_settles:
  assumes "waiting_hook W I"
  shows "settles (at_rest I) (\<lambda>e. e = Blocked)
    (maintenance_run enc R E U H root SCOPE W now readings request descriptor ph output)"
  unfolding maintenance_run_def approved_qualification_def
  by (intro settle_intros confirm_step_settles [OF assms] poll_step_settles [OF assms])

lemma maintenance_handle_settles:
  assumes "waiting_hook W I" and "at_rest I d"
    and "maintenance_handle enc R E U H root SCOPE W now readings request descriptor ph output d = Some (Returns r, d')"
  shows "at_rest I d'"
  using assms maintenance_run_settles [OF assms(1), of enc R E U H root SCOPE now readings request descriptor ph]
  unfolding settles_def
  by (fastforce simp: maintenance_handle_def bind_eq_Some_conv split: if_splits sum.splits maintenance_stop.splits)

text \<open>The same for the vendor handlers.\<close>

definition vendor_rest :: "('k \<Rightarrow> bool) \<Rightarrow> ('f, 'x, 'h, 'k, 'r) vendor_state \<Rightarrow> bool" where
  "vendor_rest I s \<longleftrightarrow> I (vs_hook s) \<and> settled (vs_hardware s)"

definition resting_diagnostic :: "('k \<Rightarrow> bool) \<Rightarrow> ('f, 'x, 'h, 'k, 'r) vendor_state diagnostic \<Rightarrow> bool" where
  "resting_diagnostic I f \<longleftrightarrow>
     (\<forall>response s r s'. vendor_rest I s \<longrightarrow> f response s = Some (Returns r, s') \<longrightarrow> vendor_rest I s')"

lemma resting_or_else:
  assumes "resting_diagnostic I f" and "resting_diagnostic I g" shows "resting_diagnostic I (or_else f g)"
  unfolding resting_diagnostic_def
proof (intro allI impI)
  fix response s r s' assume "vendor_rest I s" and r: "or_else f g response s = Some (Returns r, s')"
  then obtain d s1 where d: "f response s = Some (Returns d, s1)"
    by (auto simp: or_else_def split: option.splits prod.splits blocking.splits)
  with assms(1) \<open>vendor_rest I s\<close> have "vendor_rest I s1" unfolding resting_diagnostic_def by blast
  with assms(2) r d show "vendor_rest I s'"
    unfolding resting_diagnostic_def by (cases r; cases d; cases "fst d") (auto simp: or_else_def)
qed

lemma resting_closures:
  "waiting_hook (vb_hook V) I \<Longrightarrow> resting_diagnostic I (maintenance_closure V descriptor now readings request)"
  "resting_diagnostic I (preview_closure V descriptor request)"
  "resting_diagnostic I (memory_closure V request)"
proof -
  assume W: "waiting_hook (vb_hook V) I"
  have dev: "vendor_rest I s \<Longrightarrow> at_rest I (as_device s)" "vendor_rest I (with_device s d) = at_rest I d" for s d
    by (simp_all add: at_rest_def vendor_rest_def as_device_def with_device_def)
  show "resting_diagnostic I (maintenance_closure V descriptor now readings request)"
    unfolding resting_diagnostic_def maintenance_closure_def
    by (auto simp: dev(2) dest: dev(1) [THEN maintenance_handle_settles [OF W]]
        split: if_splits option.splits blocking.splits)
qed (auto simp: resting_diagnostic_def vendor_rest_def preview_closure_def memory_closure_def split: if_splits option.splits)

lemma s2_diagnostics_rest:
  assumes "waiting_hook (vb_hook V) I"
  shows "resting_diagnostic I (hs_diagnostics (s2_handlers V descriptor secure_version now readings) request)"
proof -
  have "hs_diagnostics (s2_handlers V descriptor secure_version now readings) request =
      or_else (or_else (maintenance_closure V descriptor now readings request) (preview_closure V descriptor request))
        (memory_closure V request)"
    by (rule ext) (simp add: s2_handlers_def first_diagnostic_response_def)
  then show ?thesis by (simp add: resting_or_else resting_closures assms)
qed

lemma vendor_handle_rests:
  assumes W: "waiting_hook (vb_hook V) I" and rest: "vendor_rest I s"
    and v: "vendor_handle V request descriptor secure_version now readings response s = Some (Returns r, s')"
  shows "vendor_rest I s'"
proof -
  let ?T = "s2_handlers V descriptor secure_version now readings"
  have upd: "vendor_rest I s2" if "vendor_rest I s1" "hs_update ?T request b out s1 = Some (x, s2)" for s1 s2 b out x
    using that by (auto simp: s2_handlers_def vendor_rest_def)
  have st: "s2 = s1" if "hs_security_status ?T out s1 = Some (x, s2)" for s1 s2 out x
    using that by (auto simp: s2_handlers_def)
  have cnf: "vendor_rest I s2" 
    if c1: "vendor_rest I s1" "hs_confirm_update ?T s1 = Some (Returns b, s2)" for s1 s2 b
  proof -
    obtain v hw k where c: "confirm (vb_hook V) (vs_hardware s1) (vs_hook s1) (ucast UPDATE_USER_PRESENCE_TIMEOUT_MS) False now readings
        = Some (v, hw, k)" and s2: "s2 = s1\<lparr>vs_hardware := hw, vs_hook := k\<rparr>" "v \<noteq> None"
      using c1(2) by (auto simp: s2_handlers_def confirm_update_user_presence_def split: option.splits)
    with confirm_settles [OF W _ c] c1(1) show ?thesis by (simp add: vendor_rest_def)
  qed
  obtain d s1 where d: "hs_diagnostics ?T request response s = Some (Returns d, s1)"
  proof -
    obtain x s1 where x: "hs_diagnostics ?T request response s = Some (x, s1)"
      using v by (auto simp: vendor_handle_def vendor_dispatch_def bind_eq_Some_conv)
    with v have "x \<noteq> Waits" by (auto simp: vendor_handle_def vendor_dispatch_def)
    with x show thesis by (cases x) (auto intro: that)
  qed
  have r1: "vendor_rest I s1" using s2_diagnostics_rest [OF W] rest d unfolding resting_diagnostic_def by blast
  obtain len out where dd: "d = (len, out)" by (cases d)
  obtain n out2 s2 where mid: "(case len of Some len \<Rightarrow> Some ((len, out), s1) | None \<Rightarrow>
      if request = [SECURITY_STATUS_REQUEST] then hs_security_status ?T out s1 else hs_update ?T request False out s1)
      = Some ((n, out2), s2)"
    and rest2: "(do {
         first \<leftarrow> index out2 0;
         if first = status_number St_UserPresenceRequired then do {
           (confirmed, s) \<leftarrow> hs_confirm_update ?T s2;
           case confirmed of
             Waits \<Rightarrow> Some (Waits, s)
           | Returns False \<Rightarrow> Some (Returns (n, out2), s)
           | Returns True \<Rightarrow> do { (r, s) \<leftarrow> hs_update ?T request True out2 s; Some (Returns r, s) }
         }
         else Some (Returns (n, out2), s2) }) = Some (Returns r, s')"
    using v d dd by (auto simp: vendor_handle_def vendor_dispatch_def bind_eq_Some_conv)
  have r2: "vendor_rest I s2" using mid r1 by (auto dest: st upd split: option.splits if_splits)
  show ?thesis
  proof (cases "index out2 0 = Some (status_number St_UserPresenceRequired)")
    case True
    then obtain c s3 where c: "hs_confirm_update ?T s2 = Some (c, s3)" using rest2 by (auto simp: bind_eq_Some_conv)
    with True rest2 have "c \<noteq> Waits" by auto
    then obtain b where b: "c = Returns b" by (cases c) auto
    with True rest2 c cnf [OF r2, of b s3] show ?thesis by (cases b) (auto simp: bind_eq_Some_conv dest: upd)
  qed (use rest2 r2 in \<open>auto simp: bind_eq_Some_conv split: if_splits\<close>)
qed

section \<open>Iterations\<close>

text \<open>
  Between two iterations the engine is well formed, the interrupt flag is idle, no presence gate
  is armed and the LED is off, and the buffer of the last request has been cleared.
\<close>

definition resting :: "('f, 'x, 'h, 'u, 'r, 'e, 'a) fido_build \<Rightarrow> ('f, 'x, 'h, 'u, 'r, 'a) fido_device \<Rightarrow> bool" where
  "resting F s \<longleftrightarrow> vendor_rest (runtime_rest (fb_hid F)) (fd_vendor s) \<and> fd_request s = replicate (buf_size (fb_hid F)) 0"

text \<open>
  What the loop relies on of the authenticator: it reaches the runtime through the methods of the
  hook only, and its response is a buffer of the size of a message.
\<close>

inductive hook_reaches :: "'k wait_hook \<Rightarrow> 'k \<Rightarrow> 'k \<Rightarrow> bool" for W where
  stays: "hook_reaches W k k"
| begins: "hook_reaches W k k1 \<Longrightarrow> wh_begin_wait W k1 = Some k2 \<Longrightarrow> hook_reaches W k k2"
| polls: "hook_reaches W k k1 \<Longrightarrow> wh_poll_wait W k1 = Some k2 \<Longrightarrow> hook_reaches W k k2"
| ends: "hook_reaches W k k1 \<Longrightarrow> wh_end_wait W k1 = Some k2 \<Longrightarrow> hook_reaches W k k2"

definition authenticator_law :: "('f, 'x, 'h, 'u, 'r, 'e, 'a) fido_build \<Rightarrow> bool" where
  "authenticator_law F \<longleftrightarrow> (\<forall>payload a hw r f ok response a' hw' r' f'.
     fb_call F payload (a, hw, r, f) = ((ok, response), a', hw', r', f') \<longrightarrow>
     hook_reaches (usb_hook (fb_hid F) (fb_usb F)) r r' \<and> length response \<le> buf_size (fb_hid F))"

lemma hook_reaches_keeps:
  assumes "hook_reaches W k k'" and "waiting_hook W I" and "I k" shows "I k'"
  using assms(1,3)
  by induction (metis waiting_hook.begin_ok waiting_hook.poll_ok waiting_hook.end_ok assms(2) option.inject)+

text \<open>Fetching and wiping a request leaves the buffer cleared.\<close>

lemma fetch_ok:
  assumes "runtime_wf B (fd_runtime s)" and "hid_app_request (ur_ctaphid (fd_runtime s)) = Some req"
    and "fd_request s = replicate (buf_size B) 0"
  shows "\<exists>len payload. fetch_request s = Some (len, payload, s\<lparr>fd_request := payload @ replicate (buf_size B - len) 0\<rparr>)
    \<and> length payload = len \<and> len \<le> buf_size B"
  using assms by (auto simp: fetch_request_def copy_request_def request_payload_def runtime_wf_def hid_wf_def slice_simps)

lemma wipe_ok:
  "fd_request s = payload @ replicate (n - len) 0 \<Longrightarrow> length payload = len \<Longrightarrow> len \<le> n \<Longrightarrow>
   wipe_request len s = Some (s\<lparr>fd_request := replicate n 0\<rparr>)"
  by (simp add: wipe_request_def slice_simps replicate_add [symmetric])

lemma call_ok:
  assumes A: "authenticator_law F" and wf: "runtime_wf (fb_hid F) (fd_runtime s)"
    and buf: "fd_request s = payload @ replicate (buf_size (fb_hid F) - len) 0" "length payload = len" "len \<le> buf_size (fb_hid F)"
  shows "\<exists>ok response s'. call_authenticator F len payload s = Some ((ok, response), s') \<and> resting F s'
    \<and> length response \<le> buf_size (fb_hid F) \<and> uu_session (vs_updater (fd_vendor s')) = uu_session (vs_updater (fd_vendor s))"
proof -
  let ?r = "(fd_runtime s)\<lparr>ur_interrupt := map_option set_working (ur_interrupt (fd_runtime s))\<rparr>"
  obtain ok response a hw r f where c: "fb_call F payload (fd_authenticator s, vs_hardware (fd_vendor s), ?r, fd_flash s)
      = ((ok, response), a, hw, r, f)" by (metis prod.exhaust)
  have h: "hook_reaches (usb_hook (fb_hid F) (fb_usb F)) ?r r" "length response \<le> buf_size (fb_hid F)"
    using A c unfolding authenticator_law_def by blast+
  have "runtime_wf (fb_hid F) r"
    by (rule hook_reaches_keeps [OF h(1) usb.waiting_hook_axioms]) (use wf in \<open>simp add: runtime_wf_def\<close>)
  with c h(2) buf show ?thesis
    by (auto simp: call_authenticator_def wipe_ok with_flash_def with_runtime_def resting_def vendor_rest_def runtime_rest_def
        flag_idle_def set_idle_def settled_def finish_request_def hardware_end_def runtime_wf_def)
qed

text \<open>What an iteration does before it serves an event.\<close>

definition ticked :: "('f, 'x, 'h, 'u, 'r, 'e, 'a) fido_build \<Rightarrow> ('f, 'x, 'h, 'u, 'r, 'a) fido_device \<Rightarrow> ('f, 'x, 'h, 'u, 'r, 'a) fido_device" where
  "ticked F s = s\<lparr>fd_vendor := (fd_vendor s)\<lparr>vs_updater := poll (esp_backend (vb_flash_encryption (fb_vendor F)) (vb_rom (fb_vendor F))
     (fb_descriptor F)) (vs_updater (fd_vendor s))\<rparr>\<rparr>"

lemma polled:
  assumes "resting F s"
  shows "\<exists>ev r. runtime_poll (fb_hid F) (fb_usb F) (fd_runtime s) = Some (ev, r) \<and> resting F (with_runtime r (ticked F s))
    \<and> (announces ev \<longrightarrow> (\<exists>req. hid_app_request (ur_ctaphid r) = Some req))"
proof -
  obtain now r0 where n: "now_ms (fb_usb F) (fd_runtime s) = (now, r0)" by (cases "now_ms (fb_usb F) (fd_runtime s)")
  have r0: "ur_ctaphid r0 = ur_ctaphid (fd_runtime s)" "flag_idle r0 = flag_idle (fd_runtime s)"
    using n wf_now [of "fb_usb F" "fd_runtime s"] by simp_all
  then have wf: "runtime_wf (fb_hid F) r0" "flag_idle r0"
    using assms by (simp_all add: resting_def vendor_rest_def runtime_rest_def runtime_wf_def)
  obtain ev r where r: "poll_at (fb_hid F) (fb_usb F) now r0 = Some (ev, r)" "runtime_wf (fb_hid F) r" "flag_idle r"
    using poll_at_ok [OF wf(1)] wf(2) by blast
  with n assms poll_at_event [OF wf(1) r(1)] show ?thesis
    by (auto simp: runtime_poll_def resting_def with_runtime_def ticked_def vendor_rest_def runtime_rest_def)
qed

lemma loop_iteration_eq:
  "loop_iteration F now readings s = do {
     (event, r) \<leftarrow> runtime_poll (fb_hid F) (fb_usb F) (fd_runtime s);
     case event of
       Ev_Cbor _ _ \<Rightarrow> map_option Returns (serve_cbor F (with_runtime r (ticked F s)))
     | Ev_Update _ _ \<Rightarrow> serve_update F now readings (with_runtime r (ticked F s))
     | Ev_None \<Rightarrow> Some (Returns (with_runtime r (ticked F s)))
     | Ev_Cancelled _ \<Rightarrow> Some (Returns (with_runtime r (ticked F s))) }"
  by (simp add: loop_iteration_def ticked_def Let_def cong: hid_event.case_cong)

lemma confirm_candidate_rests: "Some s' = confirm_candidate F s \<Longrightarrow> resting F s \<Longrightarrow> resting F s'"
  by (auto simp: confirm_candidate_def with_flash_def resting_def vendor_rest_def split: if_splits option.splits sum.splits)

lemma with_runtime_rests:
  "resting F s \<Longrightarrow> runtime_rest (fb_hid F) r \<Longrightarrow> resting F (with_runtime r s)"
  by (simp add: resting_def with_runtime_def vendor_rest_def)

lemma serve_cbor_eq:
  assumes A: "authenticator_law F" and rest: "resting F s" and req: "hid_app_request (ur_ctaphid (fd_runtime s)) = Some req"
  shows "\<exists>len payload s0 ok response s1 c s2. fetch_request s = Some (len, payload, s0)
    \<and> call_authenticator F len payload s0 = Some ((ok, response), s1)
    \<and> serve_cbor F s = (if c = Succeeded then confirm_candidate F s2 else Some s2)
    \<and> (c = Succeeded \<longleftrightarrow> ok \<and> hid_app_request (ur_ctaphid (fd_runtime s1)) \<noteq> None \<and> (\<exists>rest. response = 0 # rest))
    \<and> resting F s2 \<and> fd_flash s2 = fd_flash s1
    \<and> uu_session (vs_updater (fd_vendor s2)) = uu_session (vs_updater (fd_vendor s))"
proof -
  have wf: "runtime_wf (fb_hid F) (fd_runtime s)" and buf: "fd_request s = replicate (buf_size (fb_hid F)) 0"
    using rest by (simp_all add: resting_def vendor_rest_def runtime_rest_def)
  obtain len payload where f: "fetch_request s = Some (len, payload, s\<lparr>fd_request := payload @ replicate (buf_size (fb_hid F) - len) 0\<rparr>)"
    "length payload = len" "len \<le> buf_size (fb_hid F)" using fetch_ok [OF wf req buf] by blast
  let ?s0 = "s\<lparr>fd_request := payload @ replicate (buf_size (fb_hid F) - len) 0\<rparr>"
  obtain ok response s1 where c: "call_authenticator F len payload ?s0 = Some ((ok, response), s1)" "resting F s1"
    "length response \<le> buf_size (fb_hid F)" "uu_session (vs_updater (fd_vendor s1)) = uu_session (vs_updater (fd_vendor s))"
    using call_ok [OF A, of ?s0 payload len] wf f(2,3) by auto
  have r1: "runtime_rest (fb_hid F) (fd_runtime s1)" using c(2) by (simp add: resting_def vendor_rest_def)
  obtain x r where x: "complete_cbor (runtime_reply (fb_hid F)) ok response (fd_runtime s1) = Some (Inr x, zeroize response, r)"
    "runtime_rest (fb_hid F) r" using runtime.complete_cbor_fits [OF r1 c(3)] by blast
  have "x = Succeeded \<longleftrightarrow> ok \<and> hid_app_request (ur_ctaphid (fd_runtime s1)) \<noteq> None \<and> (\<exists>rest. response = 0 # rest)"
    using runtime.complete_cbor_succeeded_iff [OF r1, of ok response] x(1) c(3) by auto
  moreover have "serve_cbor F s = (if x = Succeeded then confirm_candidate F (with_runtime r s1) else Some (with_runtime r s1))"
    using f c x by (cases x) (simp_all add: serve_cbor_def)
  moreover have "resting F (with_runtime r s1)" "fd_flash (with_runtime r s1) = fd_flash s1"
    "uu_session (vs_updater (fd_vendor (with_runtime r s1))) = uu_session (vs_updater (fd_vendor s))"
    using c(2,4) x(2) by (simp_all add: with_runtime_rests, simp_all add: with_runtime_def)
  ultimately show ?thesis using f(1) c(1) by blast
qed

lemma serve_update_rests:
  assumes hook: "vb_hook (fb_vendor F) = usb_hook (fb_hid F) (fb_usb F)" and rest: "resting F s"
    and req: "hid_app_request (ur_ctaphid (fd_runtime s)) = Some req"
    and u: "serve_update F now readings s = Some (Returns s')"
  shows "resting F s' \<and> (\<exists>payload reply v. vendor_handle (fb_vendor F) payload (fb_descriptor F) (fb_secure_version F) now readings
      (replicate 64 0) (fd_vendor s) = Some (Returns reply, v) \<and> vs_updater (fd_vendor s') = vs_updater v)"
proof -
  have wf: "runtime_wf (fb_hid F) (fd_runtime s)" and buf: "fd_request s = replicate (buf_size (fb_hid F)) 0"
    using rest by (simp_all add: resting_def vendor_rest_def runtime_rest_def)
  obtain len payload where f: "fetch_request s = Some (len, payload, s\<lparr>fd_request := payload @ replicate (buf_size (fb_hid F) - len) 0\<rparr>)"
    "length payload = len" "len \<le> buf_size (fb_hid F)" using fetch_ok [OF wf req buf] by blast
  let ?s0 = "s\<lparr>fd_request := payload @ replicate (buf_size (fb_hid F) - len) 0\<rparr>"
  obtain reply v where h: "vendor_handle (fb_vendor F) payload (fb_descriptor F) (fb_secure_version F) now readings
      (replicate 64 0) (fd_vendor s) = Some (reply, v)"
    using u f(1) by (cases "vendor_handle (fb_vendor F) payload (fb_descriptor F) (fb_secure_version F) now readings
      (replicate 64 0) (fd_vendor s)") (auto simp: serve_update_def)
  with u f(1) have "reply \<noteq> Waits" by (auto simp: serve_update_def)
  with h obtain n out where v: "vendor_handle (fb_vendor F) payload (fb_descriptor F) (fb_secure_version F) now readings
      (replicate 64 0) (fd_vendor s) = Some (Returns (n, out), v)" by (cases reply) auto
  have rv: "vendor_rest (runtime_rest (fb_hid F)) v"
    by (rule vendor_handle_rests [OF _ _ v]) (use rest hook usb_rest.waiting_hook_axioms in \<open>simp_all add: resting_def\<close>)
  let ?s1 = "?s0\<lparr>fd_vendor := v, fd_request := replicate (buf_size (fb_hid F)) 0\<rparr>"
  have w: "wipe_request len (?s0\<lparr>fd_vendor := v\<rparr>) = Some ?s1"
    by (subst wipe_ok [where payload = payload and n = "buf_size (fb_hid F)"]) (use f(2,3) in simp_all)
  obtain answer where a: "subslice out 0 n = Some answer"
    using u f(1) v w by (auto simp: serve_update_def bind_eq_Some_conv)
  obtain q r where q: "runtime_reply (fb_hid F) (vs_hook v) answer = Some (q, r)" "runtime_rest (fb_hid F) r"
    using runtime.reply_total [of "fb_hid F" "vs_hook v" answer] rv by (auto simp: vendor_rest_def)
  have "s' = with_runtime r ?s1"
    using u f(1) v w a q(1) by (auto simp: serve_update_def complete_update_def split: sum.splits)
  moreover have "resting F ?s1" using rv by (simp add: resting_def)
  ultimately show ?thesis using v q(2) with_runtime_rests [of F ?s1 r] by (auto simp: with_runtime_def)
qed

section \<open>Properties\<close>

text \<open>
  C9. Every iteration leaves the device at rest. If the authenticator reaches the runtime only
  through its hook, then after an iteration of the loop the transport is well formed, no
  interrupt is pending, no presence gate is armed and the LED is off, and the buffer the request
  was copied to holds only zeros, whichever request was served and however it ended.
\<close>

theorem iteration_leaves_rest:
  assumes "authenticator_law F" and "vb_hook (fb_vendor F) = usb_hook (fb_hid F) (fb_usb F)" and "resting F s"
    and "loop_iteration F now readings s = Some (Returns s')"
  shows "resting F s'"
proof -
  obtain ev r where p: "runtime_poll (fb_hid F) (fb_usb F) (fd_runtime s) = Some (ev, r)"
    "resting F (with_runtime r (ticked F s))" "announces ev \<longrightarrow> (\<exists>req. hid_app_request (ur_ctaphid r) = Some req)"
    using polled [OF assms(3)] by blast
  have rt: "fd_runtime (with_runtime r (ticked F s)) = r" by (simp add: with_runtime_def)
  note it = assms(4) [unfolded loop_iteration_eq p(1)]
  show ?thesis
  proof (cases ev)
    case (Ev_Cbor c n)
    with p(3) obtain req where "hid_app_request (ur_ctaphid (fd_runtime (with_runtime r (ticked F s)))) = Some req"
      by (auto simp: rt)
    from serve_cbor_eq [OF assms(1) p(2) this] it Ev_Cbor show ?thesis
      by (auto dest: confirm_candidate_rests split: if_splits)
  next
    case (Ev_Update c n)
    with p(3) obtain req where "hid_app_request (ur_ctaphid (fd_runtime (with_runtime r (ticked F s)))) = Some req"
      by (auto simp: rt)
    from serve_update_rests [OF assms(2) p(2) this] it Ev_Update show ?thesis by auto
  qed (use it p(2) in auto)
qed

text \<open>
  A build whose authenticator answers every request with the byte zero, and a host that sends
  one CBOR request of one byte on channel 2.
\<close>

definition one_request_usb :: "(bool, unit) fido_usb" where
  "one_request_usb = \<lparr>fu_poll = \<lambda>u. (u, u),
     fu_pull_raw_output = \<lambda>b u. (Inr 64, to_be32 2 @ 0x90 # to_be16 1 @ [4] @ replicate 56 0, False),
     fu_push_raw_input = \<lambda>p u. (Inr 64, u), fu_would_block = (), fu_now = \<lambda>u. (0, u), fu_elapsed_ms = \<lambda>s u. (7, u)\<rparr>"

definition example_fido ::
  "(ram_hw, bytes, u32 list \<times> u32 list \<times> u32 list, bool, nat \<Rightarrow> u32, unit, unit) fido_build" where
  "example_fido = \<lparr>fb_vendor = \<lparr>vb_flash_encryption = False, vb_epoch_preview = False, vb_epoch_maintenance = False,
       vb_rom = ram_rom, vb_sha = short_sha, vb_efuse = ram_efuse, vb_hal = ram_hal, vb_registers = ram_registers,
       vb_iram_end = 0, vb_data_start = 0, vb_root = [], vb_scope = [], vb_hook = usb_hook example_build one_request_usb\<rparr>,
     fb_hid = example_build, fb_usb = one_request_usb, fb_call = \<lambda>payload x. ((True, [0]), x), fb_signed_ab = True,
     fb_confirm = False, fb_version = [0x31], fb_secure_version = 0, fb_descriptor = 0x3f000020\<rparr>"

definition example_fido_device :: "(ram_hw, bytes, u32 list \<times> u32 list \<times> u32 list, bool, nat \<Rightarrow> u32, unit) fido_device" where
  "example_fido_device = \<lparr>fd_vendor = \<lparr>vs_updater = vs_updater example_vendor, vs_attempted = False,
       vs_efuse = (example_block0, [], []), vs_hardware = hardware_new,
       vs_hook = runtime_new one_request_usb True example_engine (Some IS_Idle), vs_registers = \<lambda>_. 0\<rparr>,
     fd_authenticator = (), fd_request = replicate 1024 0\<rparr>"

lemma example_law: "authenticator_law example_fido"
  by (auto simp: authenticator_law_def example_fido_def example_build_def intro: hook_reaches.stays)

lemma example_resting: "resting example_fido example_fido_device"
  using example_wf
  by (simp add: resting_def vendor_rest_def runtime_rest_def runtime_wf_def flag_idle_def settled_def hardware_new_def
      example_fido_def example_fido_device_def runtime_new_def one_request_usb_def example_build_def)

lemma example_ingest:
  "\<exists>s'. ingest example_build example_engine (to_be32 2 @ 0x90 # to_be16 1 @ [4] @ replicate 56 0) 7 = Some (Ev_Cbor 2 1, s')"
  by (simp add: ingest_def ingest_start_def dispatch_def from_number_def is_allocated_def active_channel_def example_engine_def
      example_build_def hid_new_def hid_consts subslice_def copy_from_slice_def index_def codec_simps zeroize_def nth_append
      RESERVED_CHANNEL_def BROADCAST_CHANNEL_def Let_def)

lemma example_poll:
  "\<exists>r. runtime_poll (fb_hid example_fido) (fb_usb example_fido) (fd_runtime example_fido_device) = Some (Ev_Cbor 2 1, r)"
proof -
  let ?F = example_fido and ?s = example_fido_device
  let ?r = "(fd_runtime ?s)"
  obtain h where h: "ingest example_build example_engine (to_be32 2 @ 0x90 # to_be16 1 @ [4] @ replicate 56 0) 7 = Some (Ev_Cbor 2 1, h)"
    using example_ingest by blast
  obtain e r where p: "runtime_poll (fb_hid ?F) (fb_usb ?F) ?r = Some (e, r)" using polled [OF example_resting] by blast
  have "e = Ev_Cbor 2 1"
    using p h
    by (auto simp: runtime_poll_def now_ms_def poll_at_def receive_report_def usb_receive_def ingest_report_def
        ingest_with_interruption_def send_pending_def usb_send_def example_fido_def example_fido_device_def runtime_new_def
        one_request_usb_def REPORT_SIZE_def hid_consts Let_def bind_eq_Some_conv split: option.splits if_splits)
  with p show ?thesis by blast
qed

lemma example_iteration: "\<exists>s'. loop_iteration example_fido 0 [] example_fido_device = Some (Returns s')"
proof -
  let ?F = example_fido and ?s = example_fido_device
  obtain r where p: "runtime_poll (fb_hid ?F) (fb_usb ?F) (fd_runtime ?s) = Some (Ev_Cbor 2 1, r)" using example_poll by blast
  with polled [OF example_resting] obtain req where rest: "resting ?F (with_runtime r (ticked ?F ?s))"
    and req: "hid_app_request (ur_ctaphid r) = Some req" by auto
  have "hid_app_request (ur_ctaphid (fd_runtime (with_runtime r (ticked ?F ?s)))) = Some req"
    using req by (simp add: with_runtime_def)
  from serve_cbor_eq [OF example_law rest this] show ?thesis
    using p by (auto simp: loop_iteration_eq confirm_candidate_def example_fido_def split: if_splits)
qed

theorem iteration_leaves_rest_witness:
  "\<exists>s'. loop_iteration example_fido 0 [] example_fido_device = Some (Returns s') \<and> resting example_fido s'"
proof -
  obtain s' where it: "loop_iteration example_fido 0 [] example_fido_device = Some (Returns s')" using example_iteration by blast
  have "vb_hook (fb_vendor example_fido) = usb_hook (fb_hid example_fido) (fb_usb example_fido)" by (simp add: example_fido_def)
  from iteration_leaves_rest [OF example_law this example_resting it] it show ?thesis by blast
qed

text \<open>
  C16. A firmware candidate is confirmed by the loop exactly after a delivered success. When an
  iteration receives a CBOR request, the authenticator is called once on its payload, and the
  confirmation of the running image is attempted if and only if the call succeeded, its response
  starts with the success status and the request is still pending when it returns; otherwise the
  flash is left as the authenticator left it, and the iteration ends normally.
\<close>

theorem candidate_confirmed_after_success:
  assumes "authenticator_law F" and "resting F s"
    and "runtime_poll (fb_hid F) (fb_usb F) (fd_runtime s) = Some (Ev_Cbor c n, r)"
  shows "\<exists>len payload s0 ok response s1 s2. fetch_request (with_runtime r (ticked F s)) = Some (len, payload, s0)
    \<and> call_authenticator F len payload s0 = Some ((ok, response), s1) \<and> fd_flash s2 = fd_flash s1 \<and> resting F s2
    \<and> loop_iteration F now readings s =
        (if ok \<and> (\<exists>rest. response = 0 # rest) \<and> hid_app_request (ur_ctaphid (fd_runtime s1)) \<noteq> None
         then map_option Returns (confirm_candidate F s2) else Some (Returns s2))"
proof -
  obtain req where rest: "resting F (with_runtime r (ticked F s))" and req: "hid_app_request (ur_ctaphid r) = Some req"
    using polled [OF assms(2)] assms(3) by auto
  have "hid_app_request (ur_ctaphid (fd_runtime (with_runtime r (ticked F s)))) = Some req"
    using req by (simp add: with_runtime_def)
  from serve_cbor_eq [OF assms(1) rest this] assms(3) show ?thesis
    by (elim exE conjE) (intro exI conjI, assumption+, auto simp: loop_iteration_eq split: if_splits)
qed

theorem candidate_confirmed_after_success_witness:
  "\<exists>r len payload s0 ok response s1. runtime_poll example_build one_request_usb (fd_runtime example_fido_device) = Some (Ev_Cbor 2 1, r)
    \<and> fetch_request (with_runtime r (ticked example_fido example_fido_device)) = Some (len, payload, s0)
    \<and> call_authenticator example_fido len payload s0 = Some ((ok, response), s1)"
proof -
  obtain r where p: "runtime_poll (fb_hid example_fido) (fb_usb example_fido) (fd_runtime example_fido_device) = Some (Ev_Cbor 2 1, r)"
    using example_poll by blast
  from candidate_confirmed_after_success [OF example_law example_resting p, of 0 "[]"] p show ?thesis
    by (auto simp: example_fido_def)
qed

text \<open>
  C13. No iteration of the loop opens an update session without a fresh press. After an iteration
  the updater has no session, or one that carries the approval of the session before it, or the
  button was released and pressed anew while the USB runtime, as it was when the vendor request
  arrived, was polled and not cancelled.
\<close>

theorem iteration_session_needs_press:
  assumes "authenticator_law F" and "vb_hook (fb_vendor F) = usb_hook (fb_hid F) (fb_usb F)" and "resting F s"
    and "loop_iteration F now readings s = Some (Returns s')"
  shows "uu_session (vs_updater (fd_vendor s')) = None
    \<or> (\<exists>old new. uu_session (vs_updater (fd_vendor s)) = Some old \<and> uu_session (vs_updater (fd_vendor s')) = Some new
         \<and> approval new = approval old)
    \<or> (\<exists>c n r. runtime_poll (fb_hid F) (fb_usb F) (fd_runtime s) = Some (Ev_Update c n, r)
         \<and> fresh_press (usb_hook (fb_hid F) (fb_usb F)) r now readings)"
proof -
  let ?u = "\<lambda>s. vs_updater (fd_vendor s)"
  obtain ev r where p: "runtime_poll (fb_hid F) (fb_usb F) (fd_runtime s) = Some (ev, r)"
    "resting F (with_runtime r (ticked F s))" "announces ev \<longrightarrow> (\<exists>req. hid_app_request (ur_ctaphid r) = Some req)"
    using polled [OF assms(3)] by blast
  let ?s = "with_runtime r (ticked F s)"
  have rt: "fd_runtime ?s = r" by (simp add: with_runtime_def)
  have tick: "carried (?u s) (?u ?s)" by (simp add: with_runtime_def ticked_def carried_poll)
  note it = assms(4) [unfolded loop_iteration_eq p(1)]
  have "carried (?u ?s) (?u s') \<or> (\<exists>c n. ev = Ev_Update c n) \<and> fresh_press (usb_hook (fb_hid F) (fb_usb F)) r now readings"
  proof (cases ev)
    case (Ev_Cbor c n)
    with p(3) obtain req where req: "hid_app_request (ur_ctaphid (fd_runtime ?s)) = Some req" by (auto simp: rt)
    obtain s2 where s2: "uu_session (?u s2) = uu_session (?u ?s)" "serve_cbor F ?s \<in> {confirm_candidate F s2, Some s2}"
      using serve_cbor_eq [OF assms(1) p(2) req] by (auto split: if_splits)
    have "uu_session (?u s3) = uu_session (?u s2)" if "Some s3 = confirm_candidate F s2" for s3
      using that by (auto simp: confirm_candidate_def with_flash_def split: if_splits option.splits sum.splits)
    with s2 it Ev_Cbor have "uu_session (?u s') = uu_session (?u ?s)" by auto
    then show ?thesis by (simp add: carried_same_session)
  next
    case (Ev_Update c n)
    with p(3) obtain req where req: "hid_app_request (ur_ctaphid (fd_runtime ?s)) = Some req" by (auto simp: rt)
    obtain payload reply v where v: "vendor_handle (fb_vendor F) payload (fb_descriptor F) (fb_secure_version F) now readings
        (replicate 64 0) (fd_vendor ?s) = Some (Returns reply, v)" "?u s' = vs_updater v"
      using serve_update_rests [OF assms(2) p(2) req, of now readings s'] it Ev_Update by auto
    have "runtime_rest (fb_hid F) (vs_hook (fd_vendor ?s))" using p(2) by (simp add: resting_def vendor_rest_def)
    with s2.dispatch_keeps [OF v(1) [unfolded vendor_handle_def]] usb_rest.waiting_hook_axioms v(2) rt assms(2) Ev_Update
    show ?thesis by auto
  qed (use it in auto)
  with tick p(1) show ?thesis by (cases "uu_session (?u s')") (fastforce dest: carried_trans simp: carried_def)+
qed

theorem iteration_session_needs_press_witness:
  "\<exists>s'. loop_iteration example_fido 0 [] example_fido_device = Some (Returns s') \<and> uu_session (vs_updater (fd_vendor s')) = None"
proof -
  obtain s' where it: "loop_iteration example_fido 0 [] example_fido_device = Some (Returns s')" using example_iteration by blast
  have hook: "vb_hook (fb_vendor example_fido) = usb_hook (fb_hid example_fido) (fb_usb example_fido)" by (simp add: example_fido_def)
  have none: "uu_session (vs_updater (fd_vendor example_fido_device)) = None"
    by (simp add: example_fido_device_def example_vendor_def)
  from iteration_session_needs_press [OF example_law hook example_resting it] none it example_poll show ?thesis by auto
qed

end
