(* ===== verification/Identity.thy ===== *)
theory Identity
  imports Signed_Image
begin

text \<open>
  The public identity of the device and the checks on provisioned key material:
  \<^verbatim>\<open>src/identity.rs\<close>, \<^verbatim>\<open>src/usb_identity.rs\<close>, \<^verbatim>\<open>src/platform/attestation_import.rs\<close>,
  \<^verbatim>\<open>src/platform/rng_health.rs\<close> with the startup check of \<^verbatim>\<open>src/platform/rng.rs\<close>, and the
  extension identifiers of \<^verbatim>\<open>src/platform/dispatch.rs\<close>. A \<^verbatim>\<open>str\<close> is the list of its UTF-8 bytes, as
  characters. The hardware random generator is a parameter; SHA-256 is the record of the image
  verifier.
\<close>

section \<open>Attestation identity\<close>

definition DEVELOPMENT_AAGUID :: bytes where
  "DEVELOPMENT_AAGUID = [0x98, 0x9e, 0x2c, 0xc2, 0x05, 0xdf, 0x4e, 0x64, 0x80, 0x68, 0x22, 0x68, 0x38, 0x86, 0xe8, 0xb3]"

definition AAGUID_EXTENSION_PREFIX :: bytes where
  "AAGUID_EXTENSION_PREFIX = [0x06, 0x0b, 0x2b, 0x06, 0x01, 0x04, 0x01, 0x82, 0xe5, 0x1c, 0x01, 0x01, 0x04, 0x04, 0x12,
     0x04, 0x10]"

definition P256_GROUP_ORDER :: bytes where
  "P256_GROUP_ORDER = [0xff, 0xff, 0xff, 0xff, 0x00, 0x00, 0x00, 0x00, 0xff, 0xff, 0xff, 0xff, 0xff, 0xff, 0xff, 0xff,
     0xbc, 0xe6, 0xfa, 0xad, 0xa7, 0x17, 0x9e, 0x84, 0xf3, 0xb9, 0xca, 0xc2, 0xfc, 0x63, 0x25, 0x51]"

text \<open>\<^verbatim>\<open>windows(p.len()).position(|w| w == p)\<close>, for a pattern that is not empty.\<close>

fun window_position :: "bytes \<Rightarrow> bytes \<Rightarrow> nat option" where
  "window_position p [] = None"
| "window_position p (x # xs) =
     (if take (length p) (x # xs) = p then Some 0 else map_option Suc (window_position p xs))"

definition certificate_aaguid :: "bytes \<Rightarrow> bytes option" where
  "certificate_aaguid der = do {
     prefix_start \<leftarrow> window_position AAGUID_EXTENSION_PREFIX der;
     let value_start = prefix_start + length AAGUID_EXTENSION_PREFIX;
     subslice der value_start (value_start + 16)
   }"

text \<open>The order of Rust arrays, which compares element by element.\<close>

fun bytes_less :: "bytes \<Rightarrow> bytes \<Rightarrow> bool" where
  "bytes_less [] ys = (ys \<noteq> [])"
| "bytes_less (x # xs) [] = False"
| "bytes_less (x # xs) (y # ys) = (x < y \<or> x = y \<and> bytes_less xs ys)"

definition is_valid_p256_scalar :: "bytes \<Rightarrow> bool" where
  "is_valid_p256_scalar raw \<longleftrightarrow> list_ex (\<lambda>b. b \<noteq> 0) raw \<and> bytes_less raw P256_GROUP_ORDER"

section \<open>USB identity\<close>

definition MAX_USB_SERIAL_LENGTH :: nat where "MAX_USB_SERIAL_LENGTH = 32"

datatype identity_error = EmptySerial | InvalidNumber | InvalidSerial | ReservedProductId | ReservedVendorId

record usb_identity =
  ui_vid :: u16
  ui_pid :: u16
  ui_serial :: string

definition is_ascii_alphanumeric :: "char \<Rightarrow> bool" where
  "is_ascii_alphanumeric c \<longleftrightarrow> (let n = (of_char c :: nat) in 48 \<le> n \<and> n \<le> 57 \<or> 65 \<le> n \<and> n \<le> 90 \<or> 97 \<le> n \<and> n \<le> 122)"

definition is_valid_usb_serial :: "string \<Rightarrow> bool" where
  "is_valid_usb_serial serial \<longleftrightarrow> serial \<noteq> [] \<and> length serial \<le> MAX_USB_SERIAL_LENGTH
     \<and> list_all (\<lambda>c. is_ascii_alphanumeric c \<or> c \<in> {CHR ''-'', CHR ''_'', CHR ''.''}) serial"

definition identity_new :: "u16 \<Rightarrow> u16 \<Rightarrow> string \<Rightarrow> identity_error + usb_identity" where
  "identity_new vid pid serial =
     (if vid = 0 \<or> vid = 0xffff then Inl ReservedVendorId
      else if pid = 0 \<or> pid = 0xffff then Inl ReservedProductId
      else if serial = [] then Inl EmptySerial
      else if \<not> is_valid_usb_serial serial then Inl InvalidSerial
      else Inr \<lparr>ui_vid = vid, ui_pid = pid, ui_serial = serial\<rparr>)"

text \<open>
  \<^verbatim>\<open>u16::from_str_radix\<close> of the standard library: an optional plus sign that is not the whole text,
  then digits of the radix, accumulated with checked arithmetic. All its errors are one here,
  since the caller maps them to \<open>InvalidNumber\<close>.
\<close>

definition to_digit :: "nat \<Rightarrow> char \<Rightarrow> nat option" where
  "to_digit radix c = (let n = (of_char c :: nat);
       d = (if 48 \<le> n \<and> n \<le> 57 then n - 48 else if 97 \<le> n \<and> n \<le> 122 then n - 87
            else if 65 \<le> n \<and> n \<le> 90 then n - 55 else radix)
     in if d < radix then Some d else None)"

definition checked_mul :: "'a::len word \<Rightarrow> 'a word \<Rightarrow> 'a word option" where
  "checked_mul a b = (if unat a * unat b < 2 ^ LENGTH('a) then Some (a * b) else None)"

fun parse_digits :: "nat \<Rightarrow> u16 \<Rightarrow> string \<Rightarrow> u16 option" where
  "parse_digits radix acc [] = Some acc"
| "parse_digits radix acc (c # cs) = do {
     digit \<leftarrow> to_digit radix c;
     acc \<leftarrow> checked_mul acc (of_nat radix);
     acc \<leftarrow> checked_add acc (of_nat digit);
     parse_digits radix acc cs
   }"

fun strip_sign :: "string \<Rightarrow> string" where
  "strip_sign (c # d # cs) = (if c = CHR ''+'' then d # cs else c # d # cs)"
| "strip_sign cs = cs"

definition from_str_radix :: "string \<Rightarrow> nat \<Rightarrow> u16 option" where
  "from_str_radix src radix = (if src = [] then None else parse_digits radix 0 (strip_sign src))"

definition strip_prefix :: "string \<Rightarrow> string \<Rightarrow> string option" where
  "strip_prefix p s = (if take (length p) s = p then Some (drop (length p) s) else None)"

definition split_radix :: "string \<Rightarrow> string \<times> nat" where
  "split_radix value = (case strip_prefix ''0x'' value of
       Some digits \<Rightarrow> (digits, 16)
     | None \<Rightarrow> (case strip_prefix ''0X'' value of Some digits \<Rightarrow> (digits, 16) | None \<Rightarrow> (value, 10)))"

definition parse_u16 :: "string \<Rightarrow> identity_error + u16" where
  "parse_u16 value = (case split_radix value of (digits, radix) \<Rightarrow>
     case from_str_radix digits radix of None \<Rightarrow> Inl InvalidNumber | Some n \<Rightarrow> Inr n)"

definition from_build_values :: "string \<Rightarrow> string \<Rightarrow> string \<Rightarrow> identity_error + usb_identity" where
  "from_build_values vid pid serial = (case parse_u16 vid of
       Inl e \<Rightarrow> Inl e
     | Inr vid \<Rightarrow> (case parse_u16 pid of Inl e \<Rightarrow> Inl e | Inr pid \<Rightarrow> identity_new vid pid serial))"

section \<open>Staged attestation identity\<close>

definition STAGING_BYTES :: nat where "STAGING_BYTES = 4096"
definition MAX_CERTIFICATE_BYTES :: nat where "MAX_CERTIFICATE_BYTES = 1024"
definition STAGING_MAGIC :: bytes where
  "STAGING_MAGIC = [0x52, 0x4b, 0x41, 0x54, 0x53, 0x54, 0x30, 0x31]"

record attestation_identity =
  ai_key :: bytes
  ai_certificate :: bytes

datatype invalid_payload = IP_Format | IP_Certificate | IP_Key

definition parse_staged :: "'x sha256 \<Rightarrow> bytes \<Rightarrow> bytes \<Rightarrow> (invalid_payload + attestation_identity) option" where
  "parse_staged H data expected_certificate = do {
     magic \<leftarrow> subslice data 0 8;
     reserved \<leftarrow> subslice data 12 16;
     if magic \<noteq> STAGING_MAGIC \<or> reserved \<noteq> [0, 0, 0, 0] then Some (Inl IP_Format)
     else do {
       len \<leftarrow> Option.bind (subslice data 8 12) from_le32;
       let len = unat len;
       if len = 0 \<or> MAX_CERTIFICATE_BYTES < len then Some (Inl IP_Format)
       else do {
         padding \<leftarrow> subslice data (48 + len) (length data);
         if list_ex (\<lambda>b. b \<noteq> 0) padding then Some (Inl IP_Format)
         else do {
           certificate \<leftarrow> subslice data 48 (48 + len);
           if sha_digest H certificate \<noteq> expected_certificate
              \<or> certificate_aaguid certificate \<noteq> Some DEVELOPMENT_AAGUID
           then Some (Inl IP_Certificate)
           else do {
             key \<leftarrow> subslice data 16 48;
             if \<not> is_valid_p256_scalar key then Some (Inl IP_Key)
             else Some (Inr \<lparr>ai_key = key, ai_certificate = certificate\<rparr>)
           }
         }
       }
     }
   }"

section \<open>Startup check of the random generator\<close>

datatype startup_sanity_error = AllZero | RepeatedBlock

definition SANITY_BLOCK_SIZE :: nat where "SANITY_BLOCK_SIZE = 32"

definition check_blocks :: "bytes \<Rightarrow> bytes \<Rightarrow> startup_sanity_error + unit" where
  "check_blocks first second =
     (if list_all (\<lambda>b. b = 0) (first @ second) then Inl AllZero
      else if first = second then Inl RepeatedBlock else Inr ())"

definition startup_sanity_check :: "(nat \<Rightarrow> 'g \<Rightarrow> bytes \<times> 'g) \<Rightarrow> 'g \<Rightarrow> (startup_sanity_error + unit) \<times> 'g" where
  "startup_sanity_check read g = (case read SANITY_BLOCK_SIZE g of (first, g) \<Rightarrow>
     case read SANITY_BLOCK_SIZE g of (second, g) \<Rightarrow> (check_blocks first second, g))"

section \<open>Extension identifiers\<close>

datatype fido_extension_id = FsInfo | Hkdf

fun extension_number :: "fido_extension_id \<Rightarrow> u8" where
  "extension_number FsInfo = 0"
| "extension_number Hkdf = 1"

definition extension_try_from :: "u8 \<Rightarrow> fido_extension_id option" where
  "extension_try_from value = (if value = 0 then Some FsInfo else if value = 1 then Some Hkdf else None)"

section \<open>Lemmas\<close>

text \<open>The number a big-endian byte string denotes.\<close>

fun be_value :: "bytes \<Rightarrow> nat" where
  "be_value [] = 0"
| "be_value (b # bs) = unat b * 256 ^ length bs + be_value bs"

lemma be_value_less: "be_value bs < 256 ^ length bs"
proof (induction bs)
  case (Cons b bs)
  have "unat b < 256" using unsigned_less [of b] by simp
  then have "(unat b + 1) * 256 ^ length bs \<le> 256 * 256 ^ length bs" by (intro mult_right_mono) simp_all
  moreover have "be_value (b # bs) < (unat b + 1) * 256 ^ length bs" using Cons by (simp add: algebra_simps)
  ultimately have "be_value (b # bs) < 256 * 256 ^ length bs" by linarith
  then show ?case by simp
qed simp

lemma be_value_zero: "be_value bs = 0 \<longleftrightarrow> \<not> list_ex (\<lambda>b. b \<noteq> 0) bs"
  by (induction bs) (auto simp: unat_eq_0)

lemma be_value_high: "x < y \<Longrightarrow> length xs = length ys \<Longrightarrow> be_value (x # xs) < be_value (y # ys)"
proof -
  assume "x < y" and "length xs = length ys"
  then have "(unat x + 1) * 256 ^ length ys \<le> unat y * 256 ^ length ys"
    by (intro mult_right_mono) (simp_all add: word_less_nat_alt)
  with be_value_less [of xs] \<open>length xs = length ys\<close> show ?thesis by (simp add: algebra_simps)
qed

lemma bytes_less_iff: "length xs = length ys \<Longrightarrow> bytes_less xs ys \<longleftrightarrow> be_value xs < be_value ys"
proof (induction xs ys rule: list_induct2)
  case (Cons x xs y ys)
  show ?case
  proof (cases x y rule: linorder_cases)
    case less
    with be_value_high [OF less Cons.hyps] show ?thesis by simp
  next
    case greater
    with be_value_high [OF greater Cons.hyps [symmetric]] show ?thesis by auto
  qed (use Cons in simp)
qed simp

text \<open>A first window that equals the pattern splits the text there, and no earlier window does.\<close>

lemma window_position_Some:
  assumes "window_position p xs = Some n" and "p \<noteq> []"
  shows "n + length p \<le> length xs \<and> take (length p) (drop n xs) = p \<and> (\<forall>m < n. take (length p) (drop m xs) \<noteq> p)"
  using assms
proof (induction xs arbitrary: n)
  case (Cons x xs)
  show ?case
  proof (cases "take (length p) (x # xs) = p")
    case True
    then have "length p \<le> length (x # xs)" by (metis length_take min_def nat_le_linear)
    with Cons.prems True show ?thesis by simp
  next
    case False
    with Cons.prems obtain k where k: "window_position p xs = Some k" "n = Suc k" by auto
    with Cons.IH [OF k(1) Cons.prems(2)] False show ?thesis by (auto simp: less_Suc_eq_0_disj)
  qed
qed simp

lemma window_position_None:
  assumes "window_position p xs = None" and "p \<noteq> []"
  shows "take (length p) (drop n xs) \<noteq> p"
  using assms
proof (induction xs arbitrary: n)
  case (Cons x xs)
  then show ?case by (cases n) (auto split: if_splits)
qed simp

text \<open>The number a text denotes, without a bound.\<close>

definition digits_value :: "nat \<Rightarrow> string \<Rightarrow> nat option" where
  "digits_value radix = foldl (\<lambda>acc c. do { a \<leftarrow> acc; d \<leftarrow> to_digit radix c; Some (a * radix + d) }) (Some 0)"

definition number_value :: "string \<Rightarrow> nat option" where
  "number_value text = (case split_radix text of (digits, radix) \<Rightarrow>
     if digits = [] then None else digits_value radix (strip_sign digits))"

lemma digits_fold_None: "foldl (\<lambda>acc c. do { a \<leftarrow> acc; d \<leftarrow> to_digit radix c; Some (a * radix + d) }) None cs = None"
  by (induction cs) simp_all

lemma digits_fold_mono:
  "foldl (\<lambda>acc c. do { a \<leftarrow> acc; d \<leftarrow> to_digit radix c; Some (a * radix + d) }) (Some n) cs = Some v \<Longrightarrow> 0 < radix \<Longrightarrow> n \<le> v"
proof (induction cs arbitrary: n)
  case (Cons c cs)
  then obtain d where d: "to_digit radix c = Some d" by (cases "to_digit radix c") (auto simp: digits_fold_None)
  with Cons have "n * radix + d \<le> v" by simp
  moreover have "n \<le> n * radix" using Cons.prems(2) by simp
  ultimately show ?case by linarith
qed simp

text \<open>Checked accumulation gives the value when it fits and fails when it does not.\<close>

lemma parse_digits_value:
  assumes "0 < radix" and "radix \<le> 36"
  shows "parse_digits radix acc cs =
    (case foldl (\<lambda>acc c. do { a \<leftarrow> acc; d \<leftarrow> to_digit radix c; Some (a * radix + d) }) (Some (unat acc)) cs of
       None \<Rightarrow> None | Some v \<Rightarrow> if v < 65536 then Some (of_nat v) else None)"
proof (induction cs arbitrary: acc)
  case Nil
  then show ?case using unsigned_less [of acc] by simp
next
  case (Cons c cs)
  let ?f = "\<lambda>acc c. do { a \<leftarrow> acc; d \<leftarrow> to_digit radix c; Some (a * radix + d) }"
  show ?case
  proof (cases "to_digit radix c")
    case (Some d)
    have d: "d < radix" using Some by (auto simp: to_digit_def Let_def split: if_splits)
    have r: "unat (of_nat radix :: u16) = radix" "unat (of_nat d :: u16) = d"
      using assms(2) d by (simp_all add: unsigned_of_nat take_bit_nat_eq_self)
    show ?thesis
    proof (cases "unat acc * radix + d < 65536")
      case True
      then have fit: "unat (acc * of_nat radix) = unat acc * radix" "unat acc * radix < 65536"
        using r by (simp_all add: unat_word_ariths)
      then have sum: "unat (acc * of_nat radix + of_nat d) = unat acc * radix + d"
        using True r by (simp add: unat_word_ariths)
      with fit r True Some Cons.IH [of "acc * of_nat radix + of_nat d"] show ?thesis
        by (simp add: checked_mul_def checked_add_def)
    next
      case False
      have "v \<ge> 65536" if "foldl ?f (Some (unat acc * radix + d)) cs = Some v" for v
        using digits_fold_mono [OF that assms(1)] False by linarith
      moreover have "parse_digits radix acc (c # cs) = None"
        using False Some r by (auto simp: checked_mul_def checked_add_def unat_word_ariths split: bind_splits)
      ultimately show ?thesis using Some by (auto split: option.splits simp: not_less)
    qed
  qed (simp add: digits_fold_None)
qed

lemma split_radix_bound: "split_radix text = (digits, radix) \<Longrightarrow> 0 < radix \<and> radix \<le> 36"
  by (auto simp: split_radix_def split: option.splits)

lemma parse_u16_value:
  "parse_u16 text = (case number_value text of
     None \<Rightarrow> Inl InvalidNumber | Some v \<Rightarrow> if v < 65536 then Inr (of_nat v) else Inl InvalidNumber)"
proof -
  obtain digits radix where sp: "split_radix text = (digits, radix)" by (cases "split_radix text")
  from parse_digits_value [of radix 0 "strip_sign digits"] split_radix_bound [OF sp] show ?thesis
    by (auto simp: parse_u16_def number_value_def sp from_str_radix_def digits_value_def split: option.splits)
qed

lemma split_fields: "xs = take a xs @ take b (drop a xs) @ take c (drop (a + b) xs) @ drop (a + b + c) xs"
proof -
  have "drop (a + b) xs = take c (drop (a + b) xs) @ drop (a + b + c) xs"
    using append_take_drop_id [of c "drop (a + b) xs"] by (simp add: add.commute)
  then have "drop a xs = take b (drop a xs) @ take c (drop (a + b) xs) @ drop (a + b + c) xs"
    using append_take_drop_id [of b "drop a xs"] by (simp add: add.commute)
  then show ?thesis using append_take_drop_id [of a xs] by simp
qed

section \<open>Properties\<close>

text \<open>
  C37. The scalar check is arithmetic. For a key of 32 bytes the byte-wise comparison with the
  group order accepts exactly the numbers from one to the order of the P-256 group minus one,
  the valid private keys.
\<close>

theorem p256_scalar_range:
  assumes "length raw = 32"
  shows "is_valid_p256_scalar raw \<longleftrightarrow> 0 < be_value raw
    \<and> be_value raw < 115792089210356248762697446949407573529996955224135760342422259061068512044369"
proof -
  have order: "be_value P256_GROUP_ORDER = 115792089210356248762697446949407573529996955224135760342422259061068512044369"
    "length P256_GROUP_ORDER = 32" by (simp_all add: P256_GROUP_ORDER_def)
  have "bytes_less raw P256_GROUP_ORDER \<longleftrightarrow> be_value raw < be_value P256_GROUP_ORDER"
    using assms order(2) by (intro bytes_less_iff) simp
  moreover have "list_ex (\<lambda>b. b \<noteq> 0) raw \<longleftrightarrow> 0 < be_value raw" using be_value_zero [of raw] by auto
  ultimately show ?thesis unfolding is_valid_p256_scalar_def order(1) by simp
qed

theorem p256_scalar_range_witness:
  "is_valid_p256_scalar (replicate 31 0 @ [1]) \<and> \<not> is_valid_p256_scalar (replicate 32 0)"
proof -
  have one: "be_value (replicate n 0 @ [1]) = 1" for n by (induction n) simp_all
  have zero: "be_value (replicate 32 0) = 0" by (simp add: be_value_zero list_ex_iff)
  show ?thesis
    using p256_scalar_range [of "replicate 31 0 @ [1]"] p256_scalar_range [of "replicate 32 0"] one [of 31] zero by simp
qed


text \<open>
  The AAGUID of a certificate is the sixteen bytes after the first occurrence of the
  extension header, and a certificate without the header or that ends inside the value has none.
\<close>

theorem certificate_aaguid_first:
  "certificate_aaguid der = Some a \<longleftrightarrow> length a = 16 \<and> (\<exists>pre post. der = pre @ AAGUID_EXTENSION_PREFIX @ a @ post
     \<and> (\<nexists>pre' post'. length pre' < length pre \<and> der = pre' @ AAGUID_EXTENSION_PREFIX @ post'))"
  (is "?l = ?r")
proof
  have p: "AAGUID_EXTENSION_PREFIX \<noteq> []" "length AAGUID_EXTENSION_PREFIX = 17" by (simp_all add: AAGUID_EXTENSION_PREFIX_def)
  let ?P = AAGUID_EXTENSION_PREFIX
  {
    assume ?l
    then obtain n where n: "window_position ?P der = Some n" "subslice der (n + 17) (33 + n) = Some a"
      by (auto simp: certificate_aaguid_def p(2) bind_eq_Some_conv Let_def)
    note w = window_position_Some [OF n(1) p(1), unfolded p(2)]
    have a: "a = take 16 (drop (n + 17) der)" "n + 33 \<le> length der" using n(2) by (auto simp: subslice_def split: if_splits)
    have "der = take n der @ take 17 (drop n der) @ take 16 (drop (n + 17) der) @ drop (n + 33) der"
      using split_fields [of der n 17 16] by (simp add: add.commute)
    then have "der = take n der @ ?P @ a @ drop (n + 33) der" using w a(1) by simp
    moreover have "\<not> (length pre' < length (take n der) \<and> der = pre' @ ?P @ post')" for pre' post'
    proof
      assume e: "length pre' < length (take n der) \<and> der = pre' @ ?P @ post'"
      then have "take 17 (drop (length pre') der) = ?P" and "length pre' < n" using p(2) by simp_all
      with w show False by blast
    qed
    moreover have "length a = 16" using a by simp
    ultimately show ?r by blast
  next
    assume ?r
    then obtain pre post where d: "der = pre @ ?P @ a @ post" and l: "length a = 16"
      and first: "\<And>pre' post'. length pre' < length pre \<Longrightarrow> der \<noteq> pre' @ ?P @ post'" by blast
    have here: "take 17 (drop (length pre) der) = ?P" using p(2) by (simp add: d)
    obtain n where n: "window_position ?P der = Some n"
      using window_position_None [OF _ p(1), of der "length pre", unfolded p(2)] here
      by (cases "window_position ?P der") auto
    note w = window_position_Some [OF n p(1), unfolded p(2)]
    have "der = take n der @ ?P @ drop (n + 17) der"
      using w by (metis append_take_drop_id drop_drop add.commute)
    then have "\<not> length (take n der) < length pre" using first by blast
    then have "length pre \<le> n" by simp
    with w here have "n = length pre" by (metis le_neq_implies_less)
    then show ?l using n l p(2) by (simp add: certificate_aaguid_def d subslice_def)
  }
qed

lemma parse_staged_iff:
  assumes "length data = STAGING_BYTES"
  shows "parse_staged H data expected \<noteq> None
    \<and> (parse_staged H data expected = Some (Inr i) \<longleftrightarrow>
       data = STAGING_MAGIC @ to_le32 (of_nat (length (ai_certificate i))) @ [0, 0, 0, 0] @ ai_key i @ ai_certificate i
         @ replicate (4048 - length (ai_certificate i)) 0
       \<and> length (ai_key i) = 32 \<and> 1 \<le> length (ai_certificate i) \<and> length (ai_certificate i) \<le> 1024
       \<and> sha_digest H (ai_certificate i) = expected \<and> certificate_aaguid (ai_certificate i) = Some DEVELOPMENT_AAGUID
       \<and> is_valid_p256_scalar (ai_key i))"
proof -
  define magic lenb reserved rest where f: "magic = take 8 data" "lenb = take 4 (drop 8 data)"
    "reserved = take 4 (drop 12 data)" "rest = drop 16 data"
  have data: "data = magic @ lenb @ reserved @ rest"
    unfolding f using split_fields [of data 8 4 4] by simp
  have len: "length magic = 8" "length lenb = 4" "length reserved = 4" "length rest = 4080"
    using assms by (simp_all add: f STAGING_BYTES_def)
  obtain w where w: "from_le32 lenb = Some w" "lenb = to_le32 w" using le32.dec_total [OF len(2)] by blast
  let ?n = "unat w"
  have sl: "subslice data 0 8 = Some magic" "subslice data 12 16 = Some reserved" "subslice data 8 12 = Some lenb"
    "subslice data 16 48 = Some (take 32 rest)" "length data = 4096"
    using len by (simp_all add: data subslice_def)
  have body: "subslice data (48 + ?n) 4096 = Some (drop (32 + ?n) rest)" "subslice data 48 (48 + ?n) = Some (take ?n (drop 32 rest))"
    if "?n \<le> 1024" using that len by (simp_all add: data subslice_def)
  have "parse_staged H data expected =
    (if magic \<noteq> STAGING_MAGIC \<or> reserved \<noteq> [0, 0, 0, 0] \<or> ?n = 0 \<or> 1024 < ?n \<or> list_ex (\<lambda>b. b \<noteq> 0) (drop (32 + ?n) rest)
     then Some (Inl IP_Format)
     else if sha_digest H (take ?n (drop 32 rest)) \<noteq> expected \<or> certificate_aaguid (take ?n (drop 32 rest)) \<noteq> Some DEVELOPMENT_AAGUID
     then Some (Inl IP_Certificate)
     else if \<not> is_valid_p256_scalar (take 32 rest) then Some (Inl IP_Key)
     else Some (Inr \<lparr>ai_key = take 32 rest, ai_certificate = take ?n (drop 32 rest)\<rparr>))"
    using sl body w(1) by (cases "?n \<le> 1024") (auto simp: parse_staged_def MAX_CERTIFICATE_BYTES_def Let_def)
  moreover have "(magic = STAGING_MAGIC \<and> reserved = [0, 0, 0, 0] \<and> ?n \<noteq> 0 \<and> ?n \<le> 1024 \<and> \<not> list_ex (\<lambda>b. b \<noteq> 0) (drop (32 + ?n) rest)
      \<and> i = \<lparr>ai_key = take 32 rest, ai_certificate = take ?n (drop 32 rest)\<rparr>) \<longleftrightarrow>
      (data = STAGING_MAGIC @ to_le32 (of_nat (length (ai_certificate i))) @ [0, 0, 0, 0] @ ai_key i @ ai_certificate i
         @ replicate (4048 - length (ai_certificate i)) 0
       \<and> length (ai_key i) = 32 \<and> 1 \<le> length (ai_certificate i) \<and> length (ai_certificate i) \<le> 1024)" (is "?canon = ?form")
  proof
    assume c: ?canon
    have cert: "length (take ?n (drop 32 rest)) = ?n" using c len by simp
    have "set (drop (32 + ?n) rest) \<subseteq> {0}" using c by (auto simp: list_ex_iff)
    then have pad: "drop (32 + ?n) rest = replicate (4048 - ?n) 0" using len(4) by (intro replicate_eqI) auto
    have "rest = take 32 rest @ take ?n (drop 32 rest) @ drop (32 + ?n) rest"
      using split_fields [of rest 32 ?n 0] by simp
    with c cert pad data w(2) len show ?form by auto
  next
    assume fm: ?form
    let ?c = "ai_certificate i"
    define z :: bytes where z: "z = [0, 0, 0, 0]"
    have "length STAGING_MAGIC = 8" "length z = 4" by (simp_all add: STAGING_MAGIC_def z)
    moreover have "magic @ lenb @ reserved @ rest = STAGING_MAGIC @ to_le32 (of_nat (length ?c)) @ z @ ai_key i @ ?c
        @ replicate (4048 - length ?c) 0" using fm data by (simp add: z)
    ultimately have e: "magic = STAGING_MAGIC" "lenb = to_le32 (of_nat (length ?c))" "reserved = [0, 0, 0, 0]"
      "rest = ai_key i @ ?c @ replicate (4048 - length ?c) 0"
      using len by (simp_all add: z [symmetric])
    then have "w = of_nat (length ?c)" using w(2) by (simp add: le32.enc_inject)
    then have "?n = length ?c" using fm by (simp add: unsigned_of_nat take_bit_nat_eq_self)
    with e fm show ?canon by (auto simp: list_ex_iff)
  qed
  ultimately show ?thesis by (auto simp: not_less split: if_splits)
qed

text \<open>A certificate that is only the extension, under a hash that keeps its input.\<close>

text \<open>
  C36. A staged identity is accepted exactly in its canonical form. The parser never panics on the
  4096 bytes of the staging sector, and it returns a key and a certificate if and only if the
  sector is the marker, the certificate's length, four zero bytes, the key, the certificate and
  zeros to the end, the certificate has between one and 1024 bytes, hashes to the expected digest
  and carries the device's AAGUID, and the key is a valid private key.
\<close>

theorem staged_identity_canonical:
  assumes "length data = STAGING_BYTES"
  shows "parse_staged H data expected \<noteq> None
    \<and> (parse_staged H data expected = Some (Inr i) \<longleftrightarrow>
       data = STAGING_MAGIC @ to_le32 (of_nat (length (ai_certificate i))) @ [0, 0, 0, 0] @ ai_key i @ ai_certificate i
         @ replicate (4048 - length (ai_certificate i)) 0
       \<and> length (ai_key i) = 32 \<and> 1 \<le> length (ai_certificate i) \<and> length (ai_certificate i) \<le> 1024
       \<and> sha_digest H (ai_certificate i) = expected \<and> certificate_aaguid (ai_certificate i) = Some DEVELOPMENT_AAGUID
       \<and> is_valid_p256_scalar (ai_key i))"
  using parse_staged_iff [OF assms] by blast

definition example_certificate :: bytes where
  "example_certificate = AAGUID_EXTENSION_PREFIX @ DEVELOPMENT_AAGUID"

theorem staged_identity_canonical_witness:
  "parse_staged \<lparr>sha_new = [], sha_update = (@), sha_finalize = id\<rparr>
      (STAGING_MAGIC @ to_le32 33 @ [0, 0, 0, 0] @ (replicate 31 0 @ [1]) @ example_certificate @ replicate 4015 0)
      example_certificate
    = Some (Inr \<lparr>ai_key = replicate 31 0 @ [1], ai_certificate = example_certificate\<rparr>)"
proof -
  let ?H = "\<lparr>sha_new = [] :: bytes, sha_update = (@), sha_finalize = id\<rparr>"
  let ?i = "\<lparr>ai_key = replicate 31 0 @ [1], ai_certificate = example_certificate\<rparr>"
  have len: "length example_certificate = 33" by (simp add: example_certificate_def AAGUID_EXTENSION_PREFIX_def DEVELOPMENT_AAGUID_def)
  have "replicate 31 (0 :: u8) @ [1] = 0 # replicate 30 0 @ [1]" using replicate_Suc [of 30 "0 :: u8"] by simp
  then have valid: "is_valid_p256_scalar (replicate 31 0 @ [1])"
    by (simp add: is_valid_p256_scalar_def P256_GROUP_ORDER_def word_less_nat_alt)
  have id: "certificate_aaguid example_certificate = Some DEVELOPMENT_AAGUID"
    by (simp add: certificate_aaguid_def example_certificate_def AAGUID_EXTENSION_PREFIX_def DEVELOPMENT_AAGUID_def subslice_def)
  show ?thesis
    using staged_identity_canonical [of "STAGING_MAGIC @ to_le32 33 @ [0, 0, 0, 0] @ (replicate 31 0 @ [1]) @ example_certificate
      @ replicate 4015 0" ?H example_certificate ?i] len valid id
    by (simp add: STAGING_BYTES_def STAGING_MAGIC_def sha_digest_def)
qed

text \<open>
  A working generator passes the startup check and the two obvious failures do not: the check
  reads two blocks of 32 bytes, and fails exactly when all their bytes are zero or the blocks
  are equal.
\<close>

theorem startup_check_decision:
  "startup_sanity_check read g = (Inr (), g2) \<longleftrightarrow> (\<exists>first g1 second. read 32 g = (first, g1) \<and> read 32 g1 = (second, g2)
     \<and> first \<noteq> second \<and> \<not> set (first @ second) \<subseteq> {0})"
  by (auto simp: startup_sanity_check_def check_blocks_def SANITY_BLOCK_SIZE_def list_all_iff split: prod.splits if_splits)

lemma extension_number_round_trip:
  "extension_try_from v = Some e \<longleftrightarrow> v = extension_number e"
  by (cases e) (auto simp: extension_try_from_def)

end
