(* ===== verification/Storage.thy ===== *)
theory Storage
  imports Update_Backend Identity
begin

text \<open>
  Persistent storage of the authenticator: \<^verbatim>\<open>src/platform/storage_layout.rs\<close>, the block device of
  \<^verbatim>\<open>src/platform/storage.rs\<close>, the mounting and provisioning checks of
  \<^verbatim>\<open>src/platform/storage_init.rs\<close> and the attestation check of \<^verbatim>\<open>src/platform/attestation.rs\<close>. A
  \<^verbatim>\<open>usize\<close> that is an offset of the device is a word of 32 bits, as on the target. The littlefs
  filesystem is the parameter \<open>littlefs\<close>: its operations on a state that holds the mounted tree,
  with the error type and the three error values the code names; the unencrypted flash driver is
  the record \<open>nor_flash\<close>. \<open>Key::try_deserialize\<close> of Trussed is a function to the three fields the
  code inspects.
\<close>


section \<open>The partition\<close>

definition FLASH_SIZE :: u32 where "FLASH_SIZE = 4 * 1024 * 1024"
definition FIDO_STORE_SIZE :: u32 where "FIDO_STORE_SIZE = 128 * 1024"
definition FIDO_STORE_OFFSET :: u32 where "FIDO_STORE_OFFSET = FLASH_SIZE - FIDO_STORE_SIZE"
definition ERASE_SIZE :: u32 where "ERASE_SIZE = 4096"
definition FIDO_STORE_BLOCK_COUNT :: u32 where "FIDO_STORE_BLOCK_COUNT = FIDO_STORE_SIZE div ERASE_SIZE"

definition checked_absolute_range :: "u32 \<Rightarrow> u32 \<Rightarrow> (u32 \<times> u32) option" where
  "checked_absolute_range offset len = do {
     e \<leftarrow> checked_add offset len;
     if FIDO_STORE_SIZE < e then None
     else do {
       absolute_start \<leftarrow> checked_add FIDO_STORE_OFFSET offset;
       absolute_end \<leftarrow> checked_add FIDO_STORE_OFFSET e;
       Some (absolute_start, absolute_end)
     }
   }"

section \<open>The block device\<close>

record 'f nor_flash =
  nf_read :: "u32 \<Rightarrow> nat \<Rightarrow> 'f \<Rightarrow> (unit + bytes) \<times> 'f"
  nf_write :: "u32 \<Rightarrow> bytes \<Rightarrow> 'f \<Rightarrow> (unit + unit) \<times> 'f"
  nf_erase :: "u32 \<Rightarrow> u32 \<Rightarrow> 'f \<Rightarrow> (unit + unit) \<times> 'f"

datatype storage_backend_error = SE_FlashEncryption

text \<open>\<^verbatim>\<open>enc\<close> is the feature \<^verbatim>\<open>release-flash-encryption\<close>, \<open>io\<close> the value \<^verbatim>\<open>Error::IO\<close>.\<close>

definition storage_new :: "bool \<Rightarrow> 'f rom \<Rightarrow> ('f fe_state, storage_backend_error, unit) rust" where
  "storage_new enc R = (if enc then map_err (\<lambda>_. SE_FlashEncryption) (initialize R) else rust_ok ())"

definition absolute_range :: "'e \<Rightarrow> u32 \<Rightarrow> u32 \<Rightarrow> ('s, 'e, u32 \<times> u32) rust" where
  "absolute_range io offset len = ok_or io (checked_absolute_range offset len)"

definition storage_read :: "bool \<Rightarrow> 'f rom \<Rightarrow> 'f nor_flash \<Rightarrow> 'e \<Rightarrow> u32 \<Rightarrow> u32 \<Rightarrow> ('f fe_state, 'e, bytes) rust" where
  "storage_read enc R N io offset len =
     try_then (absolute_range io offset len) (\<lambda>(start, _).
     if enc then map_err (\<lambda>_. io) (fe_read R start (unat len))
     else map_err (\<lambda>_. io) (hw_result (nf_read N start (unat len))))"

definition storage_write :: "bool \<Rightarrow> 'f rom \<Rightarrow> 'f nor_flash \<Rightarrow> 'e \<Rightarrow> u32 \<Rightarrow> bytes \<Rightarrow> ('f fe_state, 'e, nat) rust" where
  "storage_write enc R N io offset data =
     try_then (absolute_range io offset (of_nat (length data))) (\<lambda>(start, _).
     try_then (if enc then map_err (\<lambda>_. io) (fe_write R start data)
               else map_err (\<lambda>_. io) (hw_result (nf_write N start data))) (\<lambda>_.
     rust_ok (length data)))"

definition storage_erase :: "bool \<Rightarrow> 'f rom \<Rightarrow> 'f nor_flash \<Rightarrow> 'e \<Rightarrow> u32 \<Rightarrow> u32 \<Rightarrow> ('f fe_state, 'e, u32) rust" where
  "storage_erase enc R N io offset len =
     try_then (absolute_range io offset len) (\<lambda>(start, e).
     try_then (if enc then map_err (\<lambda>_. io) (fe_erase R start (unat len))
               else map_err (\<lambda>_. io) (hw_result (nf_erase N start e))) (\<lambda>_.
     rust_ok len))"

section \<open>The filesystem\<close>

record ('s, 'e) littlefs =
  lf_mount :: "'s \<Rightarrow> ('e + unit) \<times> 's"
  lf_format :: "'s \<Rightarrow> ('e + unit) \<times> 's"
  lf_read :: "nat \<Rightarrow> string \<Rightarrow> 's \<Rightarrow> ('e + bytes) \<times> 's"
  lf_write :: "string \<Rightarrow> bytes \<Rightarrow> 's \<Rightarrow> ('e + unit) \<times> 's"
  lf_create_dir_all :: "string \<Rightarrow> 's \<Rightarrow> ('e + unit) \<times> 's"
  lf_read_dir :: "string \<Rightarrow> 's \<Rightarrow> ('e + ('e + string) list) \<times> 's"
  lf_exists :: "string \<Rightarrow> 's \<Rightarrow> bool \<times> 's"
  lf_rename :: "string \<Rightarrow> string \<Rightarrow> 's \<Rightarrow> ('e + unit) \<times> 's"
  lf_io :: 'e
  lf_corruption :: 'e
  lf_dir_not_empty :: 'e

definition fs_call :: "('s \<Rightarrow> ('e + 'a) \<times> 's) \<Rightarrow> ('s, 'e, 'a) rust" where
  "fs_call op s = Some (op s)"

definition ascii :: "string \<Rightarrow> bytes" where "ascii = map (\<lambda>c. of_nat (of_char c))"

definition STORAGE_FORMAT_VERSION :: bytes where
  "STORAGE_FORMAT_VERSION = ascii ''rissokey-fido-store-v1'' @ [10]"
definition PERSISTENT_STATE_INITIALIZATION_MARKER :: bytes where
  "PERSISTENT_STATE_INITIALIZATION_MARKER = ascii ''rissokey-persistent-state-init-v1'' @ [10]"
definition STORAGE_FORMAT_VERSION_PATH :: string where
  "STORAGE_FORMAT_VERSION_PATH = ''/.rissokey-storage-format''"
definition PERSISTENT_STATE_INITIALIZATION_MARKER_PATH :: string where
  "PERSISTENT_STATE_INITIALIZATION_MARKER_PATH = ''/fido/dat/persistent-state.init''"

datatype 'e storage_version_error = SV_Filesystem 'e | SV_VersionMismatch
datatype 'e mount_existing_error = ME_Mount 'e | ME_Version "'e storage_version_error"

definition verify_storage_version :: "('s, 'e) littlefs \<Rightarrow> ('s, 'e storage_version_error, unit) rust" where
  "verify_storage_version L =
     try_then (map_err SV_Filesystem (fs_call (lf_read L 32 STORAGE_FORMAT_VERSION_PATH))) (\<lambda>stored.
     if stored = STORAGE_FORMAT_VERSION then rust_ok () else rust_err SV_VersionMismatch)"

definition write_storage_version :: "('s, 'e) littlefs \<Rightarrow> ('s, 'e storage_version_error, unit) rust" where
  "write_storage_version L =
     try_then (map_err SV_Filesystem (fs_call (lf_write L STORAGE_FORMAT_VERSION_PATH STORAGE_FORMAT_VERSION))) (\<lambda>_.
     verify_storage_version L)"

definition write_persistent_state_initialization_marker :: "('s, 'e) littlefs \<Rightarrow> ('s, 'e, unit) rust" where
  "write_persistent_state_initialization_marker L =
     try_then (fs_call (lf_create_dir_all L ''/fido/dat'')) (\<lambda>_.
     try_then (fs_call (lf_write L PERSISTENT_STATE_INITIALIZATION_MARKER_PATH PERSISTENT_STATE_INITIALIZATION_MARKER)) (\<lambda>_.
     try_then (fs_call (lf_read L 64 PERSISTENT_STATE_INITIALIZATION_MARKER_PATH)) (\<lambda>stored.
     if stored = PERSISTENT_STATE_INITIALIZATION_MARKER then rust_ok () else rust_err (lf_corruption L))))"

definition mount_existing :: "('s, 'e) littlefs \<Rightarrow> ('s, 'e mount_existing_error, unit) rust" where
  "mount_existing L =
     try_then (map_err ME_Mount (fs_call (lf_mount L))) (\<lambda>_.
     map_err ME_Version (verify_storage_version L))"

text \<open>The loop over the entries of a directory, with the count of the entries that are allowed.\<close>

fun check_entries :: "'e \<Rightarrow> string list \<Rightarrow> nat \<Rightarrow> ('e + string) list \<Rightarrow> 'e + nat" where
  "check_entries not_empty allowed count [] = Inr count"
| "check_entries not_empty allowed count (Inl e # entries) = Inl e"
| "check_entries not_empty allowed count (Inr name # entries) =
     (if name = ''.'' \<or> name = ''..'' then check_entries not_empty allowed count entries
      else if name \<notin> set allowed then Inl not_empty
      else check_entries not_empty allowed (count + 1) entries)"

definition check_directory :: "('s, 'e) littlefs \<Rightarrow> string \<Rightarrow> string list \<Rightarrow> ('s, 'e, unit) rust" where
  "check_directory L path allowed =
     try_then (fs_call (lf_read_dir L path)) (\<lambda>entries.
     case check_entries (lf_dir_not_empty L) allowed 0 entries of
       Inl e \<Rightarrow> rust_err e
     | Inr count \<Rightarrow> if count = length allowed then rust_ok () else rust_err (lf_dir_not_empty L))"

definition verify_empty_identity_import_target :: "('s, 'e) littlefs \<Rightarrow> ('s, 'e, unit) rust" where
  "verify_empty_identity_import_target L =
     try_then (check_directory L ''/'' [''.rissokey-storage-format'', ''fido'']) (\<lambda>_.
     try_then (check_directory L ''/fido'' [''dat'']) (\<lambda>_.
     try_then (check_directory L ''/fido/dat'' [''persistent-state.init'']) (\<lambda>_.
     try_then (fs_call (lf_read L 64 PERSISTENT_STATE_INITIALIZATION_MARKER_PATH)) (\<lambda>marker.
     if marker = PERSISTENT_STATE_INITIALIZATION_MARKER then rust_ok () else rust_err (lf_corruption L)))))"

section \<open>The attestation check\<close>

definition ATTESTATION_KEY_PATH :: string where "ATTESTATION_KEY_PATH = ''fido/sec/00''"
definition ATTESTATION_CERT_PATH :: string where "ATTESTATION_CERT_PATH = ''fido/x5c/00''"

datatype 'e development_attestation_error = DA_Filesystem 'e | DA_InvalidKey | DA_MissingAaguid | DA_UnexpectedAaguid

record trussed_key =
  tk_sensitive :: bool
  tk_p256 :: bool
  tk_material :: bytes

definition verify_development_attestation ::
  "('s, 'e) littlefs \<Rightarrow> (bytes \<Rightarrow> trussed_key option) \<Rightarrow> nat \<Rightarrow> ('s, 'e development_attestation_error, unit) rust" where
  "verify_development_attestation L try_deserialize MAX_MESSAGE_LENGTH =
     try_then (map_err DA_Filesystem (fs_call (lf_read L 64 ATTESTATION_KEY_PATH))) (\<lambda>serialized_key.
     try_then (ok_or DA_InvalidKey (try_deserialize serialized_key)) (\<lambda>key.
     let valid_scalar = (length (tk_material key) = 32 \<and> is_valid_p256_scalar (tk_material key));
         valid = (tk_sensitive key \<and> tk_p256 key \<and> length (tk_material key) = 32 \<and> valid_scalar)
     in
     try_then (guard_err (\<not> valid) DA_InvalidKey) (\<lambda>_.
     try_then (map_err DA_Filesystem (fs_call (lf_read L MAX_MESSAGE_LENGTH ATTESTATION_CERT_PATH))) (\<lambda>certificate.
     try_then (ok_or DA_MissingAaguid (certificate_aaguid certificate)) (\<lambda>aaguid.
     if aaguid \<noteq> DEVELOPMENT_AAGUID then rust_err DA_UnexpectedAaguid else rust_ok ())))))"

section \<open>Contracts\<close>

text \<open>The flash driver reads without changing anything and writes and erases only what it is told to.\<close>

definition nor_law :: "'f nor_flash \<Rightarrow> ('f \<Rightarrow> nat \<Rightarrow> u8) \<Rightarrow> bool" where
  "nor_law N mem \<longleftrightarrow> (\<forall>a n f. mem (snd (nf_read N a n f)) = mem f)
     \<and> (\<forall>a d f. only_within mem (unat a) (unat a + length d) f (snd (nf_write N a d f)))
     \<and> (\<forall>a e f. only_within mem (unat a) (unat e) f (snd (nf_erase N a e f)))"

text \<open>
  The filesystem: \<open>files\<close> is the content of each path and \<open>names\<close> the listing of each directory.
  Mounting, reading and listing change neither; what is read is what is stored, and a listing
  without an error has every name once.
\<close>

definition fs_law :: "('s, 'e) littlefs \<Rightarrow> ('s \<Rightarrow> string \<Rightarrow> bytes option) \<Rightarrow> ('s \<Rightarrow> string \<Rightarrow> string list) \<Rightarrow> bool" where
  "fs_law L files names \<longleftrightarrow>
     (\<forall>s. files (snd (lf_mount L s)) = files s \<and> names (snd (lf_mount L s)) = names s)
     \<and> (\<forall>n p s. files (snd (lf_read L n p s)) = files s \<and> names (snd (lf_read L n p s)) = names s)
     \<and> (\<forall>p s. files (snd (lf_read_dir L p s)) = files s \<and> names (snd (lf_read_dir L p s)) = names s)
     \<and> (\<forall>n p s bs. fst (lf_read L n p s) = Inr bs \<longrightarrow> files s p = Some bs)
     \<and> (\<forall>p s es. fst (lf_read_dir L p s) = Inr es \<longrightarrow> list_all (\<lambda>e. \<not> isl e) es \<longrightarrow> map projr es = names s p)
     \<and> (\<forall>p s. distinct (names s p))"

section \<open>Lemmas\<close>

lemmas store_consts = FLASH_SIZE_def FIDO_STORE_SIZE_def FIDO_STORE_OFFSET_def

lemma absolute_range_iff:
  "checked_absolute_range offset len = Some (a, b) \<longleftrightarrow>
     unat offset + unat len \<le> 0x20000 \<and> unat a = 0x3e0000 + unat offset \<and> unat b = 0x3e0000 + unat offset + unat len"
proof (cases "unat offset + unat len \<le> 0x20000")
  case True
  have e: "unat (offset + len) = unat offset + unat len" using True by (simp add: unat_word_ariths)
  have "checked_absolute_range offset len = Some (0x3e0000 + offset, 0x3e0000 + (offset + len))"
    using True e by (simp add: checked_absolute_range_def store_consts checked_add_def word_less_nat_alt)
  moreover have "unat (0x3e0000 + offset) = 0x3e0000 + unat offset"
    "unat (0x3e0000 + (offset + len)) = 0x3e0000 + unat offset + unat len"
    using True e by (simp_all add: unat_word_ariths)
  ultimately show ?thesis using True by (metis Pair_inject option.inject word_eq_iff_unsigned)
next
  case False
  then show ?thesis
    by (auto simp: checked_absolute_range_def store_consts word_less_nat_alt split: bind_splits if_splits dest!: checked_add_SomeD)
qed

lemma absolute_range_confined: "confined mem 0 0 s (absolute_range io offset len s)"
  by (simp add: confined_def absolute_range_def ok_or_def rust_ok_def rust_err_def split: option.splits)

lemma try_range_confined:
  assumes "\<And>start e s'. unat offset + unat len \<le> 0x20000 \<Longrightarrow> unat start = 0x3e0000 + unat offset \<Longrightarrow>
      unat e = 0x3e0000 + unat offset + unat len \<Longrightarrow> confined mem 0x3e0000 0x400000 s' (f (start, e) s')"
  shows "confined mem 0x3e0000 0x400000 s (try_then (absolute_range io offset len) f s)"
proof (rule confined_try_then [OF confined_none [OF absolute_range_confined]])
  fix a s' assume "absolute_range io offset len s = Some (Inr a, s')"
  then have "checked_absolute_range offset len = Some (fst a, snd a)"
    by (auto simp: absolute_range_def ok_or_def rust_ok_def rust_err_def split: option.splits)
  then show "confined mem 0x3e0000 0x400000 s' (f a s')" using assms [of "fst a" "snd a" s'] absolute_range_iff [of offset len "fst a" "snd a"] by simp
qed

lemma hw_confined:
  "only_within mem lo hi (fe_hw s) (snd (op (fe_hw s))) \<Longrightarrow> confined mem lo hi s (hw_result op s)"
  by (auto simp: confined_def hw_result_def on_hw_def split: prod.splits)

lemma ok_confined: "confined mem lo hi s (rust_ok a s)"
  by (simp add: confined_def rust_ok_def)

lemma fe_read_confined: "confined mem 0 0 s (fe_read R a n s)"
  by (simp add: fe_read_def confined_def ok_or_def try_then_def rust_ok_def rust_err_def split: option.splits)

lemma storage_confined:
  assumes C: "rom_contract enc R mem page" and N: "nor_law N mem"
  shows "confined mem 0x3e0000 0x400000 s (storage_read b R N io offset len s)"
    and "length data < 2 ^ 32 \<Longrightarrow> confined mem 0x3e0000 0x400000 s (storage_write b R N io offset data s)"
    and "confined mem 0x3e0000 0x400000 s (storage_erase b R N io offset len s)"
proof -
  note n = N [unfolded nor_law_def]
  show "confined mem 0x3e0000 0x400000 s (storage_read b R N io offset len s)"
    unfolding storage_read_def
    by (rule try_range_confined, cases b)
      (use n in \<open>auto intro!: confined_map_err confined_none [OF fe_read_confined] hw_confined\<close>)
  show "confined mem 0x3e0000 0x400000 s (storage_erase b R N io offset len s)"
    unfolding storage_erase_def
  proof (rule try_range_confined, simp only: prod.case, rule confined_try_then)
    fix start e :: u32 and s' assume r: "unat offset + unat len \<le> 0x20000" "unat start = 0x3e0000 + unat offset"
      "unat e = 0x3e0000 + unat offset + unat len"
    have "confined mem (unat start) (unat start + unat len) s' (fe_erase R start (unat len) s')"
      unfolding fe_erase_def using r by (intro erase_inner_confined [OF C]) simp
    then have "confined mem 0x3e0000 0x400000 s' (fe_erase R start (unat len) s')"
      by (rule confined_mono) (use r in simp_all)
    moreover have "confined mem 0x3e0000 0x400000 s' (hw_result (nf_erase N start e) s')"
      by (rule hw_confined, rule only_within_mono [of _ "unat start" "unat e"]) (use n in blast, use r in simp_all)
    ultimately show "confined mem 0x3e0000 0x400000 s' ((if b then map_err (\<lambda>_. io) (fe_erase R start (unat len))
        else map_err (\<lambda>_. io) (hw_result (nf_erase N start e))) s')"
      by (simp add: confined_map_err)
  qed (rule ok_confined)
  assume len: "length data < 2 ^ 32"
  then have ul: "unat (of_nat (length data) :: u32) = length data" by (simp add: unsigned_of_nat take_bit_nat_eq_self)
  show "confined mem 0x3e0000 0x400000 s (storage_write b R N io offset data s)"
    unfolding storage_write_def
  proof (rule try_range_confined, simp only: prod.case, rule confined_try_then)
    fix start e :: u32 and s' assume r: "unat offset + unat (of_nat (length data) :: u32) \<le> 0x20000" "unat start = 0x3e0000 + unat offset"
    have "confined mem (unat start) (unat start + length data) s' (fe_write R start data s')"
      unfolding fe_write_def using r ul by (intro write_inner_confined [OF C]) simp
    then have "confined mem 0x3e0000 0x400000 s' (fe_write R start data s')"
      by (rule confined_mono) (use r ul in simp_all)
    moreover have "confined mem 0x3e0000 0x400000 s' (hw_result (nf_write N start data) s')"
      by (rule hw_confined, rule only_within_mono [of _ "unat start" "unat start + length data"])
        (use n in blast, use r ul in simp_all)
    ultimately show "confined mem 0x3e0000 0x400000 s' ((if b then map_err (\<lambda>_. io) (fe_write R start data)
        else map_err (\<lambda>_. io) (hw_result (nf_write N start data))) s')"
      by (simp add: confined_map_err)
  qed (rule ok_confined)
qed

text \<open>A change inside the store reaches neither the slots nor the boot records.\<close>

lemma store_apart:
  "only_within mem 0x3e0000 0x400000 (fe_hw s) (fe_hw s') \<Longrightarrow> slot_content mem s' = slot_content mem s"
  by (auto simp: slot_content_def only_within_def update_slot_offset_def ota_consts fun_eq_iff split: option.splits)

text \<open>Operations of the filesystem that change nothing: \<open>reads_only\<close> says that a check returns and keeps the tree.\<close>

definition reads_only ::
  "('s \<Rightarrow> string \<Rightarrow> bytes option) \<Rightarrow> ('s \<Rightarrow> string \<Rightarrow> string list) \<Rightarrow> 's \<Rightarrow> ('e + 'a \<Rightarrow> bool) \<Rightarrow> ('s, 'e, 'a) rust \<Rightarrow> bool" where
  "reads_only files names s0 P m \<longleftrightarrow> (\<forall>s. files s = files s0 \<longrightarrow> names s = names s0 \<longrightarrow>
     yields m s (\<lambda>r s'. P r \<and> files s' = files s0 \<and> names s' = names s0))"

lemma reads_only_bind:
  assumes "reads_only files names s0 P m" and "\<And>e. P (Inl e) \<Longrightarrow> Q (Inl e)"
    and "\<And>a. P (Inr a) \<Longrightarrow> reads_only files names s0 Q (f a)"
  shows "reads_only files names s0 Q (try_then m f)"
  unfolding reads_only_def
proof (intro allI impI)
  fix s assume s: "files s = files s0" "names s = names s0"
  have "yields m s (\<lambda>r s'. P r \<and> files s' = files s0 \<and> names s' = names s0)" using assms(1) s unfolding reads_only_def by blast
  then show "yields (try_then m f) s (\<lambda>r s'. Q r \<and> files s' = files s0 \<and> names s' = names s0)"
    by (rule yields_bind) (use assms(2,3) in \<open>auto simp: reads_only_def\<close>)
qed

lemma reads_only_pure [simp]:
  "reads_only files names s0 P (rust_ok a) = P (Inr a)" "reads_only files names s0 P (rust_err e) = P (Inl e)"
  by (auto simp: reads_only_def)

lemma try_then_stop [simp]:
  "try_then (ok_or e None) f = rust_err e" "try_then (guard_err True e) g = rust_err e"
  by (auto simp: fun_eq_iff rust_err_def)

lemma reads_only_map_err:
  assumes "reads_only files names s0 P m" and "\<And>e. P (Inl e) \<Longrightarrow> Q (Inl (g e))" and "\<And>a. P (Inr a) \<Longrightarrow> Q (Inr a)"
  shows "reads_only files names s0 Q (map_err g m)"
  unfolding reads_only_def
proof (intro allI impI)
  fix s assume s: "files s = files s0" "names s = names s0"
  have "yields m s (\<lambda>r s'. P r \<and> files s' = files s0 \<and> names s' = names s0)"
    using assms(1) s unfolding reads_only_def by blast
  then show "yields (map_err g m) s (\<lambda>r s'. Q r \<and> files s' = files s0 \<and> names s' = names s0)"
    unfolding yields_map_err by (rule yields_mono) (use assms(2,3) in \<open>auto split: sum.splits\<close>)
qed

lemma reads_only_mono:
  "reads_only files names s0 P m \<Longrightarrow> (\<And>r. P r \<Longrightarrow> Q r) \<Longrightarrow> reads_only files names s0 Q m"
  unfolding reads_only_def by (blast intro: yields_mono)

lemma reads_onlyD:
  "reads_only files names s P m \<Longrightarrow> \<exists>r s'. m s = Some (r, s') \<and> P r \<and> files s' = files s \<and> names s' = names s"
  by (auto simp: reads_only_def yields_def)

lemma fs_reads:
  assumes "fs_law L files names"
  shows "reads_only files names s0 (\<lambda>_. True) (fs_call (lf_mount L))"
    and "reads_only files names s0 (\<lambda>r. \<forall>bs. r = Inr bs \<longrightarrow> files s0 p = Some bs) (fs_call (lf_read L n p))"
    and "reads_only files names s0 (\<lambda>r. \<forall>es. r = Inr es \<longrightarrow> list_all (\<lambda>e. \<not> isl e) es \<longrightarrow> map projr es = names s0 p)
      (fs_call (lf_read_dir L p))"
  using assms unfolding reads_only_def yields_def fs_call_def fs_law_def by (metis prod.collapse)+

lemma mapped_read:
  "fs_law L files names \<Longrightarrow>
   reads_only files names s0 (\<lambda>r. \<forall>bs. r = Inr bs \<longrightarrow> files s0 p = Some bs) (map_err g (fs_call (lf_read L n p)))"
  by (rule reads_only_map_err [OF fs_reads(2)]) auto

lemma version_reads:
  assumes "fs_law L files names"
  shows "reads_only files names s0 (\<lambda>r. r = Inr () \<longrightarrow> files s0 STORAGE_FORMAT_VERSION_PATH = Some STORAGE_FORMAT_VERSION)
    (verify_storage_version L)"
  unfolding verify_storage_version_def by (rule reads_only_bind [OF mapped_read [OF assms]]) auto

lemma mount_reads:
  assumes "fs_law L files names"
  shows "reads_only files names s0 (\<lambda>r. r = Inr () \<longrightarrow> files s0 STORAGE_FORMAT_VERSION_PATH = Some STORAGE_FORMAT_VERSION)
    (mount_existing L)"
  unfolding mount_existing_def
  by (rule reads_only_bind, rule reads_only_map_err [OF fs_reads(1) [OF assms], where Q = "\<lambda>_. True"])
    (auto intro: reads_only_map_err [OF version_reads [OF assms]])

text \<open>The loop counts the names that are not the two directory links, all of them allowed.\<close>

definition listed :: "string list \<Rightarrow> string set" where
  "listed ns = set ns - {''.'', ''..''}"

lemma check_entries_Inr:
  assumes "check_entries e allowed count es = Inr n"
  shows "list_all (\<lambda>x. \<not> isl x) es \<and> listed (map projr es) \<subseteq> set allowed
    \<and> n = count + length (filter (\<lambda>x. x \<noteq> ''.'' \<and> x \<noteq> ''..'') (map projr es))"
  using assms
  by (induction e allowed count es rule: check_entries.induct) (auto simp: listed_def split: if_splits)

lemma directory_reads:
  assumes L: "fs_law L files names" and d: "distinct allowed"
  shows "reads_only files names s0 (\<lambda>r. r = Inr () \<longrightarrow> listed (names s0 p) = set allowed) (check_directory L p allowed)"
  unfolding check_directory_def
proof (rule reads_only_bind [OF fs_reads(3) [OF L]])
  fix es :: "('b + string) list"
  assume "\<forall>es'. (Inr es :: 'b + ('b + string) list) = Inr es' \<longrightarrow> list_all (\<lambda>e. \<not> isl e) es' \<longrightarrow> map projr es' = names s0 p"
  then have es: "list_all (\<lambda>e. \<not> isl e) es \<Longrightarrow> map projr es = names s0 p" by blast
  have "listed (names s0 p) = set allowed" if "check_entries (lf_dir_not_empty L) allowed 0 es = Inr (length allowed)"
  proof -
    note c = check_entries_Inr [OF that]
    let ?f = "filter (\<lambda>x. x \<noteq> ''.'' \<and> x \<noteq> ''..'') (names s0 p)"
    have eq: "map projr es = names s0 p" using es c by blast
    have "distinct (names s0 p)" using L by (simp add: fs_law_def)
    then have "distinct ?f" by simp
    then have "card (set ?f) = card (set allowed)" using c d eq by (simp add: distinct_card del: set_filter)
    moreover have "set ?f = listed (names s0 p)" by (auto simp: listed_def)
    ultimately show ?thesis using c eq by (intro card_subset_eq) auto
  qed
  then show "reads_only files names s0 (\<lambda>r. r = Inr () \<longrightarrow> listed (names s0 p) = set allowed)
      (case check_entries (lf_dir_not_empty L) allowed 0 es of Inl e \<Rightarrow> rust_err e
       | Inr count \<Rightarrow> if count = length allowed then rust_ok () else rust_err (lf_dir_not_empty L))"
    by (auto split: sum.splits)
qed simp

definition fresh_target :: "(string \<Rightarrow> bytes option) \<Rightarrow> (string \<Rightarrow> string list) \<Rightarrow> bool" where
  "fresh_target files names \<longleftrightarrow> listed (names ''/'') = {''.rissokey-storage-format'', ''fido''}
     \<and> listed (names ''/fido'') = {''dat''} \<and> listed (names ''/fido/dat'') = {''persistent-state.init''}
     \<and> files PERSISTENT_STATE_INITIALIZATION_MARKER_PATH = Some PERSISTENT_STATE_INITIALIZATION_MARKER"

lemma empty_target_reads:
  assumes L: "fs_law L files names"
  shows "reads_only files names s0 (\<lambda>r. r = Inr () \<longrightarrow> fresh_target (files s0) (names s0)) (verify_empty_identity_import_target L)"
  unfolding verify_empty_identity_import_target_def
  by (rule reads_only_bind [OF directory_reads [OF L]], simp, simp,
      rule reads_only_bind [OF directory_reads [OF L]], simp, simp,
      rule reads_only_bind [OF directory_reads [OF L]], simp, simp,
      rule reads_only_bind [OF fs_reads(2) [OF L]], simp)
    (auto simp: fresh_target_def)

definition attested :: "(bytes \<Rightarrow> trussed_key option) \<Rightarrow> (string \<Rightarrow> bytes option) \<Rightarrow> bool" where
  "attested try_deserialize files \<longleftrightarrow> (\<exists>raw key der. files ATTESTATION_KEY_PATH = Some raw \<and> try_deserialize raw = Some key
     \<and> tk_sensitive key \<and> tk_p256 key \<and> length (tk_material key) = 32 \<and> is_valid_p256_scalar (tk_material key)
     \<and> files ATTESTATION_CERT_PATH = Some der \<and> certificate_aaguid der = Some DEVELOPMENT_AAGUID)"

lemma certificate_reads:
  assumes L: "fs_law L files names"
  shows "reads_only files names s0
    (\<lambda>r. r = Inr () \<longrightarrow> (\<exists>der. files s0 ATTESTATION_CERT_PATH = Some der \<and> certificate_aaguid der = Some DEVELOPMENT_AAGUID))
    (try_then (map_err DA_Filesystem (fs_call (lf_read L n ATTESTATION_CERT_PATH))) (\<lambda>certificate.
     try_then (ok_or DA_MissingAaguid (certificate_aaguid certificate)) (\<lambda>aaguid.
     if aaguid \<noteq> DEVELOPMENT_AAGUID then rust_err DA_UnexpectedAaguid else rust_ok ())))"
proof (rule reads_only_bind [OF mapped_read [OF L]], simp)
  fix der assume "\<forall>bs. Inr der = Inr bs \<longrightarrow> files s0 ATTESTATION_CERT_PATH = Some bs"
  then show "reads_only files names s0
     (\<lambda>r. r = Inr () \<longrightarrow> (\<exists>der. files s0 ATTESTATION_CERT_PATH = Some der \<and> certificate_aaguid der = Some DEVELOPMENT_AAGUID))
     (try_then (ok_or DA_MissingAaguid (certificate_aaguid der)) (\<lambda>aaguid.
       if aaguid \<noteq> DEVELOPMENT_AAGUID then rust_err DA_UnexpectedAaguid else rust_ok ()))"
    by (cases "certificate_aaguid der") auto
qed

lemma attestation_reads:
  assumes L: "fs_law L files names"
  shows "reads_only files names s0 (\<lambda>r. r = Inr () \<longrightarrow> attested D (files s0)) (verify_development_attestation L D n)"
  unfolding verify_development_attestation_def Let_def
proof (rule reads_only_bind [OF mapped_read [OF L]], simp)
  fix raw assume "\<forall>bs. Inr raw = Inr bs \<longrightarrow> files s0 ATTESTATION_KEY_PATH = Some bs"
  then have raw: "files s0 ATTESTATION_KEY_PATH = Some raw" by simp
  note c = certificate_reads [OF L, of s0 n]
  show "reads_only files names s0 (\<lambda>r. r = Inr () \<longrightarrow> attested D (files s0)) (try_then (ok_or DA_InvalidKey (D raw)) (\<lambda>key.
     try_then (guard_err (\<not> (tk_sensitive key \<and> tk_p256 key \<and> length (tk_material key) = 32
         \<and> length (tk_material key) = 32 \<and> is_valid_p256_scalar (tk_material key))) DA_InvalidKey) (\<lambda>_.
     try_then (map_err DA_Filesystem (fs_call (lf_read L n ATTESTATION_CERT_PATH))) (\<lambda>certificate.
     try_then (ok_or DA_MissingAaguid (certificate_aaguid certificate)) (\<lambda>aaguid.
     if aaguid \<noteq> DEVELOPMENT_AAGUID then rust_err DA_UnexpectedAaguid else rust_ok ())))))"
  proof (cases "D raw")
    case (Some key)
    then show ?thesis
      by (cases "tk_sensitive key \<and> tk_p256 key \<and> length (tk_material key) = 32 \<and> is_valid_p256_scalar (tk_material key)")
        (auto simp: attested_def raw intro: reads_only_mono [OF c])
  qed simp
qed

section \<open>An example flash and filesystem\<close>

definition ram_nor :: "ram_hw nor_flash" where
  "ram_nor = \<lparr>nf_read = \<lambda>a n f. (Inr (map (\<lambda>i. rh_mem f (unat a + i)) [0..<n]), f),
     nf_write = \<lambda>a d f. (Inr (), f\<lparr>rh_mem := \<lambda>x.
        if unat a \<le> x \<and> x < unat a + length d then rh_mem f x AND d ! (x - unat a) else rh_mem f x\<rparr>),
     nf_erase = \<lambda>a e f. (Inr (), f\<lparr>rh_mem := \<lambda>x. if unat a \<le> x \<and> x < unat e then 0xff else rh_mem f x\<rparr>)\<rparr>"

lemma ram_nor_law: "nor_law ram_nor rh_mem"
  by (auto simp: nor_law_def ram_nor_def only_within_def)

text \<open>A filesystem in memory: the files by their path and the listings of the directories.\<close>

record ram_tree =
  rt_files :: "(string \<times> bytes) list"
  rt_dirs :: "(string \<times> string list) list"

definition ram_files :: "ram_tree \<Rightarrow> string \<Rightarrow> bytes option" where
  "ram_files t = map_of (rt_files t)"

definition ram_names :: "ram_tree \<Rightarrow> string \<Rightarrow> string list" where
  "ram_names t p = (case map_of (rt_dirs t) p of None \<Rightarrow> [] | Some ns \<Rightarrow> remdups ns)"

definition ram_fs :: "(ram_tree, int) littlefs" where
  "ram_fs = \<lparr>lf_mount = \<lambda>t. (Inr (), t), lf_format = \<lambda>t. (Inr (), \<lparr>rt_files = [], rt_dirs = [(''/'', [])]\<rparr>),
     lf_read = \<lambda>n p t. (case ram_files t p of None \<Rightarrow> Inl (-2) | Some bs \<Rightarrow> if n < length bs then Inl (-27) else Inr bs, t),
     lf_write = \<lambda>p bs t. (Inr (), t\<lparr>rt_files := (p, bs) # rt_files t\<rparr>),
     lf_create_dir_all = \<lambda>p t. (Inr (), t),
     lf_read_dir = \<lambda>p t. (Inr (map Inr (ram_names t p)), t),
     lf_exists = \<lambda>p t. (ram_files t p \<noteq> None, t),
     lf_rename = \<lambda>p q t. (case ram_files t p of None \<Rightarrow> (Inl (-2), t)
        | Some bs \<Rightarrow> (Inr (), t\<lparr>rt_files := (q, bs) # filter (\<lambda>f. fst f \<noteq> p) (rt_files t)\<rparr>)),
     lf_io = -5, lf_corruption = -84, lf_dir_not_empty = -39\<rparr>"

lemma ram_fs_law: "fs_law ram_fs ram_files ram_names"
  by (auto simp: fs_law_def ram_fs_def ram_names_def comp_def split: option.splits if_splits)

definition fresh_fs :: ram_tree where
  "fresh_fs = \<lparr>rt_files = [(STORAGE_FORMAT_VERSION_PATH, STORAGE_FORMAT_VERSION),
       (PERSISTENT_STATE_INITIALIZATION_MARKER_PATH, PERSISTENT_STATE_INITIALIZATION_MARKER)],
     rt_dirs = [(''/'', [''.'', ''..'', ''.rissokey-storage-format'', ''fido'']), (''/fido'', [''.'', ''..'', ''dat'']),
       (''/fido/dat'', [''.'', ''..'', ''persistent-state.init''])]\<rparr>"

definition raw_key :: "bytes \<Rightarrow> trussed_key option" where
  "raw_key bs = Some \<lparr>tk_sensitive = True, tk_p256 = True, tk_material = bs\<rparr>"

definition attested_fs :: ram_tree where
  "attested_fs = fresh_fs\<lparr>rt_files := [(ATTESTATION_KEY_PATH, replicate 31 0 @ [1]),
     (ATTESTATION_CERT_PATH, AAGUID_EXTENSION_PREFIX @ DEVELOPMENT_AAGUID)] @ rt_files fresh_fs\<rparr>"

section \<open>Properties\<close>

text \<open>
  C34. A range of the FIDO store is translated exactly when it lies inside the 128 KiB partition,
  end included, to the absolute range that starts at 0x3e0000 plus the offset; every other range,
  also one whose end overflows a 32-bit \<^verbatim>\<open>usize\<close>, is refused.
\<close>

theorem store_range_translation:
  "checked_absolute_range offset len =
     (if unat offset + unat len \<le> unat FIDO_STORE_SIZE
      then Some (FIDO_STORE_OFFSET + offset, FIDO_STORE_OFFSET + offset + len) else None)"
proof (cases "checked_absolute_range offset len")
  case None
  then show ?thesis
    using absolute_range_iff [of offset len "FIDO_STORE_OFFSET + offset" "FIDO_STORE_OFFSET + offset + len"]
    by (auto simp: store_consts unat_word_ariths)
next
  case (Some ab)
  then have r: "unat offset + unat len \<le> 0x20000" "unat (fst ab) = 0x3e0000 + unat offset"
    "unat (snd ab) = 0x3e0000 + unat offset + unat len"
    using absolute_range_iff [of offset len "fst ab" "snd ab"] by auto
  then have "fst ab = FIDO_STORE_OFFSET + offset" "snd ab = FIDO_STORE_OFFSET + offset + len"
    by (auto simp: word_unat_eq_iff store_consts unat_word_ariths)
  then show ?thesis using Some r by (cases ab) (simp add: store_consts)
qed

definition outside_store_kept :: "('f \<Rightarrow> nat \<Rightarrow> u8) \<Rightarrow> 'f fe_state \<Rightarrow> (('e + 'a) \<times> 'f fe_state) option \<Rightarrow> bool" where
  "outside_store_kept mem s result \<longleftrightarrow> (\<exists>r s'. result = Some (r, s') \<and> slot_content mem s' = slot_content mem s
     \<and> (\<forall>a. a < unat FIDO_STORE_OFFSET \<or> unat FLASH_SIZE \<le> a \<longrightarrow> mem (fe_hw s') a = mem (fe_hw s) a))"

lemma confined_outside: "confined mem 0x3e0000 0x400000 s result \<Longrightarrow> outside_store_kept mem s result"
proof -
  assume "confined mem 0x3e0000 0x400000 s result"
  then obtain r s' where r: "result = Some (r, s')" and o: "only_within mem 0x3e0000 0x400000 (fe_hw s) (fe_hw s')"
    by (auto simp: confined_def)
  have "unat FIDO_STORE_OFFSET = 0x3e0000" "unat FLASH_SIZE = 0x400000" by (simp_all add: store_consts)
  then show ?thesis using r o store_apart [OF o] unfolding outside_store_kept_def only_within_def by auto
qed

text \<open>
  C19. Whatever the filesystem asks of the block device, with or without flash encryption and
  whether it succeeds or fails, the call returns and no byte outside the 128 KiB partition
  changes, so the content of both firmware slots is kept.
\<close>

theorem storage_stays_in_partition:
  assumes "rom_contract enc R mem page" and "nor_law N mem" and "length data < 2 ^ 32"
  shows "outside_store_kept mem s (storage_read b R N io offset len s)
     \<and> outside_store_kept mem s (storage_write b R N io offset data s)
     \<and> outside_store_kept mem s (storage_erase b R N io offset len s)"
  by (intro conjI confined_outside storage_confined [OF assms(1,2)] assms(3))

theorem storage_stays_in_partition_witness:
  "let s = \<lparr>fe_initialized = True, fe_hw = \<lparr>rh_mem = \<lambda>_. 0xff, rh_page = \<lambda>_. None\<rparr>\<rparr>;
       d = replicate 64 (7 :: u8)
   in outside_store_kept rh_mem s (storage_read True ram_rom ram_nor () 0x1000 64 s)
    \<and> outside_store_kept rh_mem s (storage_write True ram_rom ram_nor () 0x1000 d s)
    \<and> outside_store_kept rh_mem s (storage_erase True ram_rom ram_nor () 0x1000 64 s)"
  unfolding Let_def
  by (rule storage_stays_in_partition [OF ram_rom_contract [of True] ram_nor_law]) simp

text \<open>
  C30. Mounting the store in the normal firmware is read-only and fails closed: whatever the
  filesystem reports, the mount returns with every file and every directory as it was, and it
  succeeds only when the format file holds exactly the version of this firmware; a mismatch or an
  error of the filesystem is returned to the caller.
\<close>

theorem mount_existing_read_only:
  assumes "fs_law L files names"
  shows "\<exists>r s'. mount_existing L s = Some (r, s') \<and> files s' = files s \<and> names s' = names s
     \<and> (r = Inr () \<longrightarrow> files s STORAGE_FORMAT_VERSION_PATH = Some STORAGE_FORMAT_VERSION)"
  using reads_onlyD [OF mount_reads [OF assms]] by blast

theorem mount_existing_read_only_witness:
  "mount_existing ram_fs fresh_fs = Some (Inr (), fresh_fs)
   \<and> (\<exists>r s'. mount_existing ram_fs fresh_fs = Some (r, s') \<and> ram_files s' = ram_files fresh_fs
     \<and> ram_names s' = ram_names fresh_fs
     \<and> (r = Inr () \<longrightarrow> ram_files fresh_fs STORAGE_FORMAT_VERSION_PATH = Some STORAGE_FORMAT_VERSION))"
  by (rule conjI [OF _ mount_existing_read_only [OF ram_fs_law]]) code_simp

text \<open>
  C32. The check before an identity import accepts only a store with exactly the tree that the
  storage provisioner leaves: the root with the format file and one directory, one directory in
  that, one file in it, and the unused initialization marker as its content. It writes nothing.
\<close>

theorem import_target_is_fresh:
  assumes "fs_law L files names"
  shows "\<exists>r s'. verify_empty_identity_import_target L s = Some (r, s') \<and> files s' = files s \<and> names s' = names s
     \<and> (r = Inr () \<longrightarrow> fresh_target (files s) (names s))"
  using reads_onlyD [OF empty_target_reads [OF assms]] by blast

theorem import_target_is_fresh_witness:
  "verify_empty_identity_import_target ram_fs fresh_fs = Some (Inr (), fresh_fs)
   \<and> (\<exists>r s'. verify_empty_identity_import_target ram_fs fresh_fs = Some (r, s') \<and> ram_files s' = ram_files fresh_fs
     \<and> ram_names s' = ram_names fresh_fs \<and> (r = Inr () \<longrightarrow> fresh_target (ram_files fresh_fs) (ram_names fresh_fs)))"
  by (rule conjI [OF _ import_target_is_fresh [OF ram_fs_law]]) code_simp

text \<open>
  The attestation check accepts only a store whose key file is a sensitive P-256 key with a
  scalar in range and whose certificate carries the development AAGUID, and it writes nothing.
\<close>

theorem attestation_check_sound:
  assumes "fs_law L files names"
  shows "\<exists>r s'. verify_development_attestation L D n s = Some (r, s') \<and> files s' = files s \<and> names s' = names s
     \<and> (r = Inr () \<longrightarrow> attested D (files s))"
  using reads_onlyD [OF attestation_reads [OF assms]] by blast

theorem attestation_check_sound_witness:
  "verify_development_attestation ram_fs raw_key 1024 attested_fs = Some (Inr (), attested_fs)
   \<and> (\<exists>r s'. verify_development_attestation ram_fs raw_key 1024 attested_fs = Some (r, s')
     \<and> ram_files s' = ram_files attested_fs \<and> ram_names s' = ram_names attested_fs
     \<and> (r = Inr () \<longrightarrow> attested raw_key (ram_files attested_fs)))"
  by (rule conjI [OF _ attestation_check_sound [OF ram_fs_law]]) code_simp

end
