(* ===== verification/Provisioning.thy ===== *)
theory Provisioning
  imports Presence Storage
begin

text \<open>
  The images that provision a device, \<^verbatim>\<open>src/bin/provision-storage.rs\<close>
  and \<^verbatim>\<open>src/bin/import-attestation.rs\<close>. An image never returns: it ends in the
  blinking loop of \<^verbatim>\<open>signal_result\<close> (\<open>IE_Signal\<close> with the number of pulses), or still waits for the
  button when the given polls are used up (\<open>IE_Arming\<close>), or stops in a failed \<^verbatim>\<open>expect\<close> (\<open>IE_Panic\<close>, with
  the state it leaves). The Trussed
  service and its client are the record \<open>trussed_client\<close> of the calls the images make, over the
  stores the service is given: the RAM side alone for the proof service, the flash and the RAM side for
  the persistent one. The RAM side \<^typ>\<open>'v\<close> holds the volatile filesystem and the random source.
\<close>

section \<open>The arming loop\<close>

datatype image_end = IE_Arming | IE_Signal u32 | IE_Panic

definition ARMING_WINDOW_US :: u64 where "ARMING_WINDOW_US = 30000000"
definition REQUIRED_HOLD_MS :: u64 where "REQUIRED_HOLD_MS = 5000"

datatype arming = Still_Waiting | Window_Expired | Hold_Confirmed

text \<open>
  One iteration reads the time since the start in microseconds, the button, and the time since
  the epoch in milliseconds. The second component of the result is the LED.
\<close>

fun arming_loop :: "provisioning_gesture \<Rightarrow> bool \<Rightarrow> (u64 \<times> bool \<times> u64) list \<Rightarrow> arming \<times> bool" where
  "arming_loop gesture led [] = (Still_Waiting, led)"
| "arming_loop gesture led ((elapsed, pressed, now_ms) # polls) =
     (if ARMING_WINDOW_US \<le> elapsed then (Window_Expired, led)
      else let led = pressed; (confirmed, gesture) = provisioning_sample gesture (pressed, now_ms) in
        if confirmed then (Hold_Confirmed, led) else arming_loop gesture led polls)"

section \<open>The storage provisioner\<close>

record 'f provisioner =
  pr_device :: "'f fe_state"
  pr_led :: bool
  pr_diagnostic :: "u32 list"

definition milestone :: "u32 \<Rightarrow> u32 \<Rightarrow> ('f provisioner, 'e, unit) rust" where
  "milestone stage detail p =
     (let magic = 0x52504431;
          d = (pr_diagnostic p)[0 := 0];
          d = d[1 := stage];
          d = d[2 := detail];
          d = d[3 := magic XOR stage XOR detail];
          d = d[0 := magic]
      in Some (Inr (), p\<lparr>pr_diagnostic := d\<rparr>))"

definition signal_result :: "u32 \<Rightarrow> ('s, image_end, 'a) rust" where
  "signal_result pulses = rust_err (IE_Signal pulses)"

definition on_device :: "('f fe_state, 'e, 'a) rust \<Rightarrow> ('f provisioner, 'e, 'a) rust" where
  "on_device m p = map_option (\<lambda>(r, d). (r, p\<lparr>pr_device := d\<rparr>)) (m (pr_device p))"

text \<open>A call whose error is reported: a milestone, then the pulses.\<close>

definition or_signal ::
  "('e \<Rightarrow> u32 \<times> u32) \<Rightarrow> u32 \<Rightarrow> ('f provisioner, 'e, 'a) rust \<Rightarrow> ('f provisioner, image_end, 'a) rust" where
  "or_signal report pulses m p = (case m p of
       None \<Rightarrow> None
     | Some (Inl e, p') \<Rightarrow> (case report e of (stage, detail) \<Rightarrow>
         try_then (milestone stage detail) (\<lambda>_. signal_result pulses) p')
     | Some (Inr a, p') \<Rightarrow> Some (Inr a, p'))"

fun encryption_milestone :: "flash_encryption_error \<Rightarrow> u32 \<times> u32" where
  "encryption_milestone FE_Disabled = (101, 0)"
| "encryption_milestone (FE_MappingFailed code) = (102, code)"
| "encryption_milestone FE_UnmappedRange = (103, 0)"
| "encryption_milestone FE_NotAligned = (104, 0)"
| "encryption_milestone (FE_UnlockFailed code) = (105, code)"
| "encryption_milestone (FE_EraseFailed code) = (106, code)"
| "encryption_milestone (FE_WriteFailed code) = (107, code)"

definition initialize_encrypted_storage :: "'f rom \<Rightarrow> ('f provisioner, image_end, unit) rust" where
  "initialize_encrypted_storage R = or_signal encryption_milestone 3 (on_device (initialize R))"

definition ROUNDTRIP_ADDRESS :: u32 where "ROUNDTRIP_ADDRESS = 0x003ff000"

definition roundtrip_pattern :: bytes where
  "roundtrip_pattern = map (\<lambda>i. of_nat i XOR 0xa5) [0..<256]"

fun roundtrip_steps :: "'f rom \<Rightarrow> nat list \<Rightarrow> ('f provisioner, image_end, unit) rust" where
  "roundtrip_steps R [] = rust_ok ()"
| "roundtrip_steps R (i # rest) =
     try_then (or_signal (\<lambda>_. (122, of_nat i)) 9 (on_device
       (fe_write R (ROUNDTRIP_ADDRESS + of_nat i * 32) (take 32 (drop (i * 32) roundtrip_pattern))))) (\<lambda>_.
     let len = (i + 1) * 32 in
     try_then (or_signal (\<lambda>_. (123, of_nat i)) 11 (on_device (fe_read R ROUNDTRIP_ADDRESS len))) (\<lambda>actual.
     try_then (if actual \<noteq> take len roundtrip_pattern
               then try_then (milestone 124 (of_nat i)) (\<lambda>_. signal_result 10) else rust_ok ()) (\<lambda>_.
     roundtrip_steps R rest)))"

definition verify_encrypted_roundtrip :: "'f rom \<Rightarrow> ('f provisioner, image_end, unit) rust" where
  "verify_encrypted_roundtrip R =
     try_then (milestone 120 0) (\<lambda>_.
     try_then (or_signal (\<lambda>_. (121, 0)) 8 (on_device (fe_erase R ROUNDTRIP_ADDRESS 4096))) (\<lambda>_.
     try_then (roundtrip_steps R [0..<8]) (\<lambda>_.
     try_then (or_signal (\<lambda>_. (125, 0)) 8 (on_device (fe_erase R ROUNDTRIP_ADDRESS 4096))) (\<lambda>_.
     milestone 126 0))))"

text \<open>What follows the confirmed hold; \<open>enc\<close> is the feature \<^verbatim>\<open>release-flash-encryption\<close>.\<close>

definition create_store ::
  "bool \<Rightarrow> 'f rom \<Rightarrow> ('f fe_state, 'e) littlefs \<Rightarrow> ('e \<Rightarrow> u32) \<Rightarrow> ('f provisioner, image_end, unit) rust" where
  "create_store enc R L code =
     try_then (milestone 4 0) (\<lambda>_. try_then (milestone 5 0) (\<lambda>_.
     try_then (if enc then initialize_encrypted_storage R else rust_ok ()) (\<lambda>_.
     try_then (milestone 6 0) (\<lambda>_.
     try_then (if enc then verify_encrypted_roundtrip R else rust_ok ()) (\<lambda>_.
     try_then (or_signal (\<lambda>_. (114, 0)) 3 (on_device (storage_new enc R))) (\<lambda>_.
     try_then (milestone 7 0) (\<lambda>_.
     try_then (or_signal (\<lambda>e. (110, code e)) 4 (on_device (fs_call (lf_format L)))) (\<lambda>_.
     try_then (milestone 8 0) (\<lambda>_.
     try_then (or_signal (\<lambda>_. (111, 0)) 5 (on_device (fs_call (lf_mount L)))) (\<lambda>_.
     try_then (milestone 9 0) (\<lambda>_.
     try_then (or_signal (\<lambda>_. (112, 0)) 6 (on_device (write_storage_version L))) (\<lambda>_.
     try_then (milestone 10 0) (\<lambda>_.
     try_then (or_signal (\<lambda>_. (113, 0)) 7 (on_device (write_persistent_state_initialization_marker L))) (\<lambda>_.
     try_then (milestone 11 0) (\<lambda>_.
     milestone 12 0)))))))))))))))"

definition provision_storage ::
  "bool \<Rightarrow> 'f rom \<Rightarrow> ('f fe_state, 'e) littlefs \<Rightarrow> ('e \<Rightarrow> u32) \<Rightarrow> (u64 \<times> bool \<times> u64) list
     \<Rightarrow> ('f provisioner, image_end, unit) rust" where
  "provision_storage enc R L code polls =
     try_then (milestone 1 0) (\<lambda>_. try_then (milestone 2 0) (\<lambda>_. try_then (milestone 3 0) (\<lambda>_ p.
     case arming_loop (provisioning_new REQUIRED_HOLD_MS) (pr_led p) polls of
       (Still_Waiting, led) \<Rightarrow> rust_err IE_Arming (p\<lparr>pr_led := led\<rparr>)
     | (Window_Expired, led) \<Rightarrow> try_then (milestone 100 0) (\<lambda>_. signal_result 1) (p\<lparr>pr_led := led\<rparr>)
     | (Hold_Confirmed, led) \<Rightarrow>
         try_then (create_store enc R L code) (\<lambda>_. signal_result 2) (p\<lparr>pr_led := False\<rparr>))))"

section \<open>The identity import\<close>

type_synonym key_id = "128 word"

datatype location = Loc_Volatile | Loc_Internal

record 'x trussed_client =
  tc_start :: "bytes \<Rightarrow> 'x \<Rightarrow> 'x"
  tc_split :: bool
  tc_unsafe_inject_key :: "location \<Rightarrow> bytes \<Rightarrow> 'x \<Rightarrow> (unit + key_id) \<times> 'x"
  tc_derive_key :: "key_id \<Rightarrow> 'x \<Rightarrow> (unit + key_id) \<times> 'x"
  tc_serialize_key :: "key_id \<Rightarrow> 'x \<Rightarrow> (unit + bytes) \<times> 'x"
  tc_delete :: "key_id \<Rightarrow> 'x \<Rightarrow> (unit + unit) \<times> 'x"
  tc_write_certificate :: "location \<Rightarrow> bytes \<Rightarrow> 'x \<Rightarrow> (unit + key_id) \<times> 'x"
  tc_exists :: "key_id \<Rightarrow> 'x \<Rightarrow> (unit + bool) \<times> 'x"
  tc_read_certificate :: "key_id \<Rightarrow> 'x \<Rightarrow> (unit + bytes) \<times> 'x"
  tc_from_special :: "u8 \<Rightarrow> key_id"
  tc_legacy_hex_path :: "key_id \<Rightarrow> string"

record ('f, 'e, 'v, 'h) import_platform =
  ip_rom :: "'f rom"
  ip_sha :: "'h sha256"
  ip_filesystem :: "('f fe_state, 'e) littlefs"
  ip_volatile :: "('v, 'e) littlefs"
  ip_trng_enabled :: bool
  ip_rng_read :: "nat \<Rightarrow> 'v \<Rightarrow> bytes \<times> 'v"
  ip_proof :: "'v trussed_client"
  ip_persistent :: "('f fe_state \<times> 'v) trussed_client"
  ip_try_deserialize :: "bytes \<Rightarrow> trussed_key option"
  ip_max_message_length :: nat
  ip_expected_certificate :: bytes
  ip_expected_public_key :: bytes

record ('f, 'v) importer =
  ir_device :: "'f fe_state"
  ir_ram :: 'v
  ir_led :: bool
  ir_payload :: bytes

definition STAGING_ADDRESS :: u32 where "STAGING_ADDRESS = 0x00200000"

definition import_device :: "('f fe_state, 'e, 'a) rust \<Rightarrow> (('f, 'v) importer, 'e, 'a) rust" where
  "import_device m p = map_option (\<lambda>(r, d). (r, p\<lparr>ir_device := d\<rparr>)) (m (ir_device p))"

definition import_ram :: "('v, 'e, 'a) rust \<Rightarrow> (('f, 'v) importer, 'e, 'a) rust" where
  "import_ram m p = map_option (\<lambda>(r, v). (r, p\<lparr>ir_ram := v\<rparr>)) (m (ir_ram p))"

definition import_stores :: "('f fe_state \<times> 'v, 'e, 'a) rust \<Rightarrow> (('f, 'v) importer, 'e, 'a) rust" where
  "import_stores m p = map_option (\<lambda>(r, d, v). (r, p\<lparr>ir_device := d, ir_ram := v\<rparr>)) (m (ir_device p, ir_ram p))"

text \<open>How the body stops: with the number of pulses to show, or in a failed \<^verbatim>\<open>expect\<close>.\<close>

datatype import_stop = Stop u32 | Panic

definition expect :: "('s, 'e, 'a) rust \<Rightarrow> ('s, import_stop, 'a) rust" where
  "expect = map_err (\<lambda>_. Panic)"

definition with_code :: "u32 \<Rightarrow> ('s, 'e, 'a) rust \<Rightarrow> ('s, import_stop, 'a) rust" where
  "with_code code = map_err (\<lambda>_. Stop code)"

definition key_path :: "'x trussed_client \<Rightarrow> key_id \<Rightarrow> string" where
  "key_path T i = ''fido/sec/'' @ tc_legacy_hex_path T i"

definition cert_path :: "'x trussed_client \<Rightarrow> key_id \<Rightarrow> string" where
  "cert_path T i = ''fido/x5c/'' @ tc_legacy_hex_path T i"

text \<open>The staged identity, then the mounted and empty target.\<close>

definition import_staged :: "('f, 'e, 'v, 'h) import_platform \<Rightarrow> (('f, 'v) importer, import_stop, attestation_identity) rust" where
  "import_staged X =
     try_then (with_code 3 (import_device (initialize (ip_rom X)))) (\<lambda>_.
     try_then (with_code 3 (import_device (fe_read (ip_rom X) STAGING_ADDRESS STAGING_BYTES))) (\<lambda>staged p.
     (let p = p\<lparr>ir_payload := staged\<rparr> in
     case parse_staged (ip_sha X) staged (ip_expected_certificate X) of
       None \<Rightarrow> None
     | Some (Inl _) \<Rightarrow> rust_err (Stop 4) p
     | Some (Inr identity) \<Rightarrow>
         if ip_expected_public_key X ! 0 \<noteq> 4 then rust_err (Stop 4) p else rust_ok identity p)))"

definition import_target :: "('f, 'e, 'v, 'h) import_platform \<Rightarrow> (('f, 'v) importer, import_stop, unit) rust" where
  "import_target X =
     try_then (with_code 3 (import_device (storage_new True (ip_rom X)))) (\<lambda>_.
     try_then (with_code 5 (import_device (mount_existing (ip_filesystem X)))) (\<lambda>_.
     with_code 6 (import_device (verify_empty_identity_import_target (ip_filesystem X)))))"

definition start_service ::
  "('f, 'e, 'v, 'h) import_platform \<Rightarrow> 'x trussed_client \<Rightarrow> ((bytes \<Rightarrow> 'x \<Rightarrow> 'x) \<Rightarrow> bytes \<Rightarrow> ('f, 'v) importer \<Rightarrow> ('f, 'v) importer)
     \<Rightarrow> (('f, 'v) importer, import_stop, unit) rust" where
  "start_service X T lift p =
     (case ip_rng_read X 32 (ir_ram p) of (seed, ram) \<Rightarrow>
      let p = lift (tc_start T) seed (p\<lparr>ir_ram := ram\<rparr>)
      in if tc_split T then rust_ok () p else rust_err Panic p)"

definition on_proof :: "(bytes \<Rightarrow> 'v \<Rightarrow> 'v) \<Rightarrow> bytes \<Rightarrow> ('f, 'v) importer \<Rightarrow> ('f, 'v) importer" where
  "on_proof start seed p = p\<lparr>ir_ram := start seed (ir_ram p)\<rparr>"

definition on_persistent :: "(bytes \<Rightarrow> 'f fe_state \<times> 'v \<Rightarrow> 'f fe_state \<times> 'v) \<Rightarrow> bytes \<Rightarrow> ('f, 'v) importer \<Rightarrow> ('f, 'v) importer" where
  "on_persistent start seed p = (case start seed (ir_device p, ir_ram p) of (d, v) \<Rightarrow> p\<lparr>ir_device := d, ir_ram := v\<rparr>)"

text \<open>The RAM side: the volatile filesystem, the random source and the proof service.\<close>

definition import_start_proof :: "('f, 'e, 'v, 'h) import_platform \<Rightarrow> (('f, 'v) importer, import_stop, unit) rust" where
  "import_start_proof X =
     try_then (expect (import_ram (fs_call (lf_format (ip_volatile X))))) (\<lambda>_.
     try_then (expect (import_ram (fs_call (lf_mount (ip_volatile X))))) (\<lambda>_.
     try_then (guard_err (\<not> ip_trng_enabled X) Panic) (\<lambda>_.
     try_then (expect (import_ram (fs_call (startup_sanity_check (ip_rng_read X))))) (\<lambda>_.
     start_service X (ip_proof X) on_proof))))"

definition import_prove ::
  "('f, 'e, 'v, 'h) import_platform \<Rightarrow> attestation_identity \<Rightarrow> (('f, 'v) importer, import_stop, unit) rust" where
  "import_prove X identity = (let P = ip_proof X in
     try_then (with_code 7 (import_ram (fs_call (tc_unsafe_inject_key P Loc_Volatile (ai_key identity))))) (\<lambda>volatile_key.
     try_then (with_code 7 (import_ram (fs_call (tc_derive_key P volatile_key)))) (\<lambda>public.
     try_then (with_code 7 (import_ram (fs_call (tc_serialize_key P public)))) (\<lambda>public_bytes.
     try_then (guard_err (public_bytes \<noteq> drop 1 (ip_expected_public_key X)) (Stop 7)) (\<lambda>_.
     try_then (with_code 7 (import_ram (fs_call (tc_delete P public)))) (\<lambda>_.
     with_code 7 (import_ram (fs_call (tc_delete P volatile_key)))))))))"

definition fs_exists :: "('s, 'e) littlefs \<Rightarrow> string \<Rightarrow> ('s, 'd, bool) rust" where
  "fs_exists L path s = (case lf_exists L path s of (b, s') \<Rightarrow> Some (Inr b, s'))"

definition import_install ::
  "('f, 'e, 'v, 'h) import_platform \<Rightarrow> attestation_identity \<Rightarrow> (('f, 'v) importer, import_stop, unit) rust" where
  "import_install X identity = (let T = ip_persistent X; L = ip_filesystem X in
     try_then (start_service X T on_persistent) (\<lambda>_.
     try_then (with_code 8 (import_stores (fs_call (tc_unsafe_inject_key T Loc_Internal (ai_key identity))))) (\<lambda>temporary_key.
     try_then (with_code 8 (import_stores (fs_call (tc_write_certificate T Loc_Internal (ai_certificate identity))))) (\<lambda>temporary_cert.
     try_then (import_device (fs_exists L ATTESTATION_KEY_PATH)) (\<lambda>key_exists.
     try_then (if key_exists then rust_ok True else import_device (fs_exists L ATTESTATION_CERT_PATH)) (\<lambda>taken.
     try_then (guard_err taken (Stop 6)) (\<lambda>_.
     try_then (with_code 8 (import_device (fs_call (lf_rename L (key_path T temporary_key) ATTESTATION_KEY_PATH)))) (\<lambda>_.
     with_code 8 (import_device (fs_call (lf_rename L (cert_path T temporary_cert) ATTESTATION_CERT_PATH)))))))))))"

definition import_verify ::
  "('f, 'e, 'v, 'h) import_platform \<Rightarrow> attestation_identity \<Rightarrow> (('f, 'v) importer, import_stop, unit) rust" where
  "import_verify X identity = (let T = ip_persistent X in
     try_then (with_code 9 (import_stores (fs_call (tc_exists T (tc_from_special T 0))))) (\<lambda>exists.
     try_then (guard_err (\<not> exists) (Stop 9)) (\<lambda>_.
     try_then (with_code 9 (import_stores (fs_call (tc_read_certificate T (tc_from_special T 0))))) (\<lambda>installed_cert.
     try_then (guard_err (installed_cert \<noteq> ai_certificate identity) (Stop 9)) (\<lambda>_.
     with_code 9 (import_device (verify_development_attestation (ip_filesystem X) (ip_try_deserialize X) (ip_max_message_length X))))))))"

definition import_identity :: "('f, 'e, 'v, 'h) import_platform \<Rightarrow> (('f, 'v) importer, import_stop, unit) rust" where
  "import_identity X =
     try_then (import_staged X) (\<lambda>identity.
     try_then (import_target X) (\<lambda>_.
     try_then (import_start_proof X) (\<lambda>_.
     try_then (import_prove X identity) (\<lambda>_.
     try_then (import_install X identity) (\<lambda>_.
     try_then (import_verify X identity) (\<lambda>_.
     with_code 10 (import_device (fe_erase (ip_rom X) STAGING_ADDRESS STAGING_BYTES))))))))"

definition import_attestation ::
  "('f, 'e, 'v, 'h) import_platform \<Rightarrow> (u64 \<times> bool \<times> u64) list \<Rightarrow> (('f, 'v) importer, image_end, unit) rust" where
  "import_attestation X polls p =
     (case arming_loop (provisioning_new REQUIRED_HOLD_MS) (ir_led p) polls of
       (Still_Waiting, led) \<Rightarrow> rust_err IE_Arming (p\<lparr>ir_led := led\<rparr>)
     | (Window_Expired, led) \<Rightarrow> signal_result 1 (p\<lparr>ir_led := led\<rparr>)
     | (Hold_Confirmed, led) \<Rightarrow>
         (case import_identity X (p\<lparr>ir_led := False, ir_payload := replicate STAGING_BYTES 0\<rparr>) of
            None \<Rightarrow> None
          | Some (Inl Panic, p') \<Rightarrow> rust_err IE_Panic p'
          | Some (Inl (Stop e), p') \<Rightarrow> signal_result e (p'\<lparr>ir_payload := zeroize (ir_payload p')\<rparr>)
          | Some (Inr _, p') \<Rightarrow> signal_result 2 (p'\<lparr>ir_payload := zeroize (ir_payload p')\<rparr>)))"

section \<open>Contracts\<close>

text \<open>The filesystem reaches the flash only through its block device, so it stays in the store.\<close>

definition store_bound :: "('f \<Rightarrow> nat \<Rightarrow> u8) \<Rightarrow> 'f fe_state \<Rightarrow> 'f fe_state \<Rightarrow> bool" where
  "store_bound mem s s' \<longleftrightarrow> fe_initialized s' = fe_initialized s \<and> only_within mem 0x3e0000 0x400000 (fe_hw s) (fe_hw s')"

definition fs_bounded :: "('f fe_state, 'e) littlefs \<Rightarrow> ('f \<Rightarrow> nat \<Rightarrow> u8) \<Rightarrow> bool" where
  "fs_bounded L mem \<longleftrightarrow> (\<forall>s. store_bound mem s (snd (lf_mount L s)) \<and> store_bound mem s (snd (lf_format L s)))
     \<and> (\<forall>n p s. store_bound mem s (snd (lf_read L n p s))) \<and> (\<forall>p bs s. store_bound mem s (snd (lf_write L p bs s)))
     \<and> (\<forall>p s. store_bound mem s (snd (lf_create_dir_all L p s)) \<and> store_bound mem s (snd (lf_read_dir L p s))
        \<and> store_bound mem s (snd (lf_exists L p s)))
     \<and> (\<forall>p q s. store_bound mem s (snd (lf_rename L p q s)))"

text \<open>A write changes one file, and creating directories changes none.\<close>

definition fs_write_law :: "('s, 'e) littlefs \<Rightarrow> ('s \<Rightarrow> string \<Rightarrow> bytes option) \<Rightarrow> bool" where
  "fs_write_law L files \<longleftrightarrow> (\<forall>p bs s q. q \<noteq> p \<longrightarrow> files (snd (lf_write L p bs s)) q = files s q)
     \<and> (\<forall>p s. files (snd (lf_create_dir_all L p s)) = files s)"

text \<open>What the filesystem shows is determined by the bytes of the store.\<close>

definition store_view ::
  "('f fe_state \<Rightarrow> string \<Rightarrow> bytes option) \<Rightarrow> ('f fe_state \<Rightarrow> string \<Rightarrow> string list) \<Rightarrow> ('f \<Rightarrow> nat \<Rightarrow> u8) \<Rightarrow> bool" where
  "store_view files names mem \<longleftrightarrow> (\<forall>s s'. (\<forall>a. 0x3e0000 \<le> a \<and> a < 0x400000 \<longrightarrow> mem (fe_hw s') a = mem (fe_hw s) a)
     \<longrightarrow> files s' = files s \<and> names s' = names s)"

text \<open>The persistent service reaches the flash through the filesystem only.\<close>

definition client_bounded :: "('f fe_state \<times> 'v) trussed_client \<Rightarrow> ('f \<Rightarrow> nat \<Rightarrow> u8) \<Rightarrow> bool" where
  "client_bounded T mem \<longleftrightarrow> (\<forall>seed d v. store_bound mem d (fst (tc_start T seed (d, v))))
     \<and> (\<forall>l k d v. store_bound mem d (fst (snd (tc_unsafe_inject_key T l k (d, v))))
        \<and> store_bound mem d (fst (snd (tc_write_certificate T l k (d, v)))))
     \<and> (\<forall>i d v. store_bound mem d (fst (snd (tc_exists T i (d, v)))) \<and> store_bound mem d (fst (snd (tc_read_certificate T i (d, v)))))"

text \<open>
  The proof service: the serialized public key derived from an injected raw P-256 scalar is a
  function of the scalar.
\<close>

definition derivation_law :: "'v trussed_client \<Rightarrow> (bytes \<Rightarrow> bytes) \<Rightarrow> bool" where
  "derivation_law P public_of \<longleftrightarrow> (\<forall>k v kid v1 pid v2 bs v3. tc_unsafe_inject_key P Loc_Volatile k v = (Inr kid, v1)
     \<longrightarrow> tc_derive_key P kid v1 = (Inr pid, v2) \<longrightarrow> tc_serialize_key P pid v2 = (Inr bs, v3) \<longrightarrow> bs = public_of k)"

section \<open>Lemmas\<close>

lemma arming_abs:
  "fst (arming_loop (provisioning_abs required pre) led polls) = Hold_Confirmed \<longleftrightarrow>
     (\<exists>n < length polls. (\<forall>k \<le> n. fst (polls ! k) < ARMING_WINDOW_US)
        \<and> (case held_since (pre @ map snd (take (Suc n) polls)) of None \<Rightarrow> False
           | Some t \<Rightarrow> required \<le> saturating_sub (snd (snd (polls ! n))) t))"
proof (induction polls arbitrary: pre led)
  case (Cons e polls)
  obtain el b t where e: "e = (el, b, t)" by (cases e)
  have ex: "(\<exists>n < length (e # polls). Q n) \<longleftrightarrow> Q 0 \<or> (\<exists>n < length polls. Q (Suc n))" for Q
    by (auto simp: less_Suc_eq_0_disj)
  have all: "(\<forall>k \<le> Suc n. fst ((e # polls) ! k) < ARMING_WINDOW_US) \<longleftrightarrow>
      el < ARMING_WINDOW_US \<and> (\<forall>k \<le> n. fst (polls ! k) < ARMING_WINDOW_US)" for n
    by (simp only: less_Suc_eq_le [symmetric] All_less_Suc2) (simp add: e)
  show ?case
    unfolding ex all using Cons.IH [of "pre @ [(b, t)]" b]
    by (auto simp: e provisioning_sample_abs Let_def not_le split: option.splits prod.splits)
qed simp

definition fresh_hold :: "(u64 \<times> bool \<times> u64) list \<Rightarrow> bool" where
  "fresh_hold polls \<longleftrightarrow> (\<exists>n < length polls. (\<forall>k \<le> n. fst (polls ! k) < ARMING_WINDOW_US)
     \<and> (case held_since (map snd (take (Suc n) polls)) of None \<Rightarrow> False
        | Some t \<Rightarrow> REQUIRED_HOLD_MS \<le> saturating_sub (snd (snd (polls ! n))) t))"

lemma arming_fresh_hold:
  "fst (arming_loop (provisioning_new REQUIRED_HOLD_MS) led polls) = Hold_Confirmed \<longleftrightarrow> fresh_hold polls"
  unfolding provisioning_new_abs fresh_hold_def using arming_abs [of REQUIRED_HOLD_MS "[]" led polls] by simp

text \<open>Triples over a device: from every state with the first property the call returns with the second.\<close>

definition triple :: "('s \<Rightarrow> bool) \<Rightarrow> ('s, 'e, 'a) rust \<Rightarrow> ('e + 'a \<Rightarrow> 's \<Rightarrow> bool) \<Rightarrow> bool" where
  "triple I m Q \<longleftrightarrow> (\<forall>s. I s \<longrightarrow> yields m s Q)"

lemma triple_bind:
  assumes "triple I m P" and "\<And>e s. P (Inl e) s \<Longrightarrow> Q (Inl e) s" and "\<And>a. triple (P (Inr a)) (f a) Q"
  shows "triple I (try_then m f) Q"
  using assms unfolding triple_def by (blast intro: yields_bind)

lemma triple_mono: "triple I m P \<Longrightarrow> (\<And>s. J s \<Longrightarrow> I s) \<Longrightarrow> (\<And>r s. P r s \<Longrightarrow> Q r s) \<Longrightarrow> triple J m Q"
  unfolding triple_def by (blast intro: yields_mono)

lemma triple_pure [simp]:
  "triple I (rust_ok a) Q \<longleftrightarrow> (\<forall>s. I s \<longrightarrow> Q (Inr a) s)" "triple I (rust_err e) Q \<longleftrightarrow> (\<forall>s. I s \<longrightarrow> Q (Inl e) s)"
  "triple I (signal_result k) Q' \<longleftrightarrow> (\<forall>s. I s \<longrightarrow> Q' (Inl (IE_Signal k)) s)"
  by (simp_all add: triple_def signal_result_def)

text \<open>An invariant of the flash along the steps of the provisioner, none of which shows the two pulses of success.\<close>

definition keeps :: "('f fe_state \<Rightarrow> bool) \<Rightarrow> ('f provisioner, image_end, 'a) rust \<Rightarrow> bool" where
  "keeps I m \<longleftrightarrow> triple (\<lambda>p. I (pr_device p)) m (\<lambda>r p. I (pr_device p) \<and> r \<noteq> Inl (IE_Signal 2))"

lemma keeps_bind:
  assumes "keeps I m" and "\<And>a. keeps I (f a)"
  shows "keeps I (try_then m f)"
  unfolding keeps_def
  by (rule triple_bind [OF assms(1) [unfolded keeps_def]]) (use assms(2) in \<open>auto simp: keeps_def triple_def\<close>)

lemma keeps_milestone [simp]: "keeps I (milestone stage detail)"
  by (simp add: keeps_def triple_def yields_def milestone_def Let_def)

lemma milestone_returns: "\<exists>q. milestone stage detail p = Some (Inr (), q) \<and> pr_device q = pr_device p \<and> pr_led q = pr_led p"
  by (simp add: milestone_def Let_def)

lemma try_milestone:
  "milestone stage detail p = Some ((Inr () :: 'e + unit), q) \<Longrightarrow> try_then (milestone stage detail) f p = f () q"
  for f :: "unit \<Rightarrow> ('f provisioner, 'e, 'a) rust"
  by (simp add: try_then_def)

lemma keeps_pure [simp]: "keeps I (rust_ok a)" "k \<noteq> 2 \<Longrightarrow> keeps I (signal_result k)"
  by (simp_all add: keeps_def)

lemma device_triple: "triple I m Q \<Longrightarrow> triple (\<lambda>p. I (pr_device p)) (on_device m) (\<lambda>r p. Q r (pr_device p))"
  by (fastforce simp: triple_def yields_def on_device_def)

lemma signal_triple:
  assumes "triple I m (\<lambda>r p. (case r of Inl _ \<Rightarrow> J (pr_device p) | Inr a \<Rightarrow> Q (Inr a) p))"
    and "\<And>p. J (pr_device p) \<Longrightarrow> Q (Inl (IE_Signal pulses)) p"
  shows "triple I (or_signal report pulses m) Q"
  unfolding triple_def
proof (intro allI impI)
  fix s assume "I s"
  then obtain r p where m: "m s = Some (r, p)" "case r of Inl _ \<Rightarrow> J (pr_device p) | Inr a \<Rightarrow> Q (Inr a) p"
    using assms(1) by (auto simp: triple_def yields_def)
  then show "yields (or_signal report pulses m) s Q"
    using assms(2) by (cases r)
      (auto simp: or_signal_def yields_def milestone_def try_then_def signal_result_def rust_err_def Let_def split: prod.splits)
qed

lemma keeps_signal: "triple I m (\<lambda>_. I) \<Longrightarrow> pulses \<noteq> 2 \<Longrightarrow> keeps I (or_signal report pulses (on_device m))"
  unfolding keeps_def
  by (rule signal_triple [where J = I], drule device_triple, erule triple_mono) (auto split: sum.splits)

lemma map_regions_mem:
  "rom_contract enc R mem page \<Longrightarrow> yields (map_regions R ms) s (\<lambda>_ s'. mem (fe_hw s') = mem (fe_hw s))"
proof (induction ms arbitrary: s)
  case (Cons m ms)
  obtain result g where d: "map_drom R (mp_virtual_start m) (mp_physical_start m) (mp_size m div MMU_PAGE_SIZE) (fe_hw s) = (result, g)"
    by (meson surj_pair)
  then have "mem g = mem (fe_hw s)" using map_drom_effect(1) [OF Cons.prems] by blast
  then show ?case using Cons.IH [OF Cons.prems, of "s\<lparr>fe_hw := g\<rparr>"] d by (simp add: yields_def on_hw_def)
qed (simp add: yields_def)

lemma initialize_mem:
  "rom_contract enc R mem page \<Longrightarrow> yields (initialize R) s (\<lambda>_ s'. mem (fe_hw s') = mem (fe_hw s))"
  using map_regions_mem [of enc R mem page MAPPINGS s]
  by (auto simp: initialize_def yields_def map_release_regions_def try_then_def split: sum.splits)

text \<open>The bytes outside the store, relative to a first state.\<close>

definition apart :: "('f \<Rightarrow> nat \<Rightarrow> u8) \<Rightarrow> 'f fe_state \<Rightarrow> 'f fe_state \<Rightarrow> bool" where
  "apart mem s0 s \<longleftrightarrow> only_within mem 0x3e0000 0x400000 (fe_hw s0) (fe_hw s)"

lemma apart_refl [simp]: "apart mem s s"
  by (simp add: apart_def)

lemma apart_confined:
  "(\<And>s. confined mem 0x3e0000 0x400000 s (m s)) \<Longrightarrow> triple (apart mem s0) m (\<lambda>_. apart mem s0)"
  unfolding triple_def apart_def yields_def confined_def by (meson only_within_trans)

lemma apart_within:
  assumes "\<And>s. confined mem lo hi s (m s)" and "0x3e0000 \<le> lo" and "hi \<le> 0x400000"
  shows "triple (apart mem s0) m (\<lambda>_. apart mem s0)"
  by (rule apart_confined, rule confined_mono [OF assms(1) assms(2,3)])

lemma apart_initialize:
  assumes "rom_contract enc R mem page"
  shows "triple (apart mem s0) (initialize R) (\<lambda>_. apart mem s0)"
  unfolding triple_def apart_def only_within_def
  by (intro allI impI, rule yields_mono [OF initialize_mem [OF assms]]) simp

lemma apart_storage_new:
  assumes "rom_contract enc R mem page"
  shows "triple (apart mem s0) (storage_new b R) (\<lambda>_. apart mem s0)"
  using apart_initialize [OF assms, of s0]
  by (cases b) (auto simp: storage_new_def triple_def yields_map_err)

lemma apart_call: "(\<And>s. store_bound mem s (snd (op s))) \<Longrightarrow> triple (apart mem s0) (fs_call op) (\<lambda>_. apart mem s0)"
  by (rule apart_confined) (simp add: confined_def fs_call_def store_bound_def, metis prod.collapse)

lemma apart_exists:
  assumes "\<And>s. store_bound mem s (snd (lf_exists L p s))"
  shows "triple (apart mem s0) (fs_exists L p) (\<lambda>_. apart mem s0)"
proof (rule apart_confined)
  fix s show "confined mem 0x3e0000 0x400000 s (fs_exists L p s)"
    using assms [of s] by (cases "lf_exists L p s") (simp add: confined_def fs_exists_def store_bound_def)
qed

lemma apart_fs:
  assumes "fs_bounded L mem"
  shows "triple (apart mem s0) (fs_call (lf_mount L)) (\<lambda>_. apart mem s0)"
    and "triple (apart mem s0) (fs_call (lf_format L)) (\<lambda>_. apart mem s0)"
    and "triple (apart mem s0) (fs_call (lf_read L n p)) (\<lambda>_. apart mem s0)"
    and "triple (apart mem s0) (fs_call (lf_write L p bs)) (\<lambda>_. apart mem s0)"
    and "triple (apart mem s0) (fs_call (lf_create_dir_all L p)) (\<lambda>_. apart mem s0)"
    and "triple (apart mem s0) (fs_call (lf_read_dir L p)) (\<lambda>_. apart mem s0)"
    and "triple (apart mem s0) (fs_exists L p) (\<lambda>_. apart mem s0)"
    and "triple (apart mem s0) (fs_call (lf_rename L p q)) (\<lambda>_. apart mem s0)"
  using assms unfolding fs_bounded_def by (auto intro!: apart_call apart_exists)

lemma triple_map_err: "triple I m (\<lambda>_. J) \<Longrightarrow> triple I (map_err g m) (\<lambda>_. J)"
  by (auto simp: triple_def yields_map_err)

lemma triple_keep_bind:
  "triple I m (\<lambda>_. I) \<Longrightarrow> (\<And>a. triple I (f a) (\<lambda>_. I)) \<Longrightarrow> triple I (try_then m f) (\<lambda>_. I)"
  by (rule triple_bind)

lemma apart_version:
  assumes "fs_bounded L mem"
  shows "triple (apart mem s0) (verify_storage_version L) (\<lambda>_. apart mem s0)"
    and "triple (apart mem s0) (write_storage_version L) (\<lambda>_. apart mem s0)"
    and "triple (apart mem s0) (write_persistent_state_initialization_marker L) (\<lambda>_. apart mem s0)"
  unfolding verify_storage_version_def write_storage_version_def write_persistent_state_initialization_marker_def
  by (auto intro!: triple_keep_bind triple_map_err apart_fs [OF assms])

lemma roundtrip_flash:
  assumes C: "rom_contract enc R mem page"
  shows "i < 8 \<Longrightarrow> triple (apart mem s0) (fe_write R (ROUNDTRIP_ADDRESS + of_nat i * 32) (take 32 (drop (i * 32) roundtrip_pattern))) (\<lambda>_. apart mem s0)"
    and "triple (apart mem s0) (fe_read R a n) (\<lambda>_. apart mem s0)"
    and "triple (apart mem s0) (fe_erase R ROUNDTRIP_ADDRESS 4096) (\<lambda>_. apart mem s0)"
proof -
  show "triple (apart mem s0) (fe_read R a n) (\<lambda>_. apart mem s0)"
    by (rule apart_confined, rule confined_none [OF fe_read_confined])
  have "confined mem (unat ROUNDTRIP_ADDRESS) (unat ROUNDTRIP_ADDRESS + 4096) s (fe_erase R ROUNDTRIP_ADDRESS 4096 s)" for s
    unfolding fe_erase_def by (rule erase_inner_confined [OF C]) (simp add: ROUNDTRIP_ADDRESS_def)
  then show "triple (apart mem s0) (fe_erase R ROUNDTRIP_ADDRESS 4096) (\<lambda>_. apart mem s0)"
    by (rule apart_within) (simp_all only: ROUNDTRIP_ADDRESS_def, simp_all)
  assume i: "i < 8"
  let ?a = "ROUNDTRIP_ADDRESS + of_nat i * 32" and ?d = "take 32 (drop (i * 32) roundtrip_pattern)"
  have d: "length ?d = 32" using i by (simp add: roundtrip_pattern_def)
  have a: "unat ?a = 0x3ff000 + i * 32"
    using i by (simp add: ROUNDTRIP_ADDRESS_def unat_word_ariths unat_of_nat take_bit_nat_eq_self)
  have "confined mem (unat ?a) (unat ?a + 32) s (fe_write R ?a ?d s)" for s
    unfolding fe_write_def using write_inner_confined [OF C, of ?a ?d s True] d a i by simp
  then show "triple (apart mem s0) (fe_write R ?a ?d) (\<lambda>_. apart mem s0)"
    by (rule apart_within) (use a i in simp_all)
qed

lemma roundtrip_steps_keeps:
  assumes C: "rom_contract enc R mem page"
  shows "list_all (\<lambda>i. i < 8) is \<Longrightarrow> keeps (apart mem s0) (roundtrip_steps R is)"
proof (induction "is")
  case (Cons i "is")
  then have i: "i < 8" and IH: "keeps (apart mem s0) (roundtrip_steps R is)" by simp_all
  show ?case unfolding roundtrip_steps.simps Let_def
    by (intro keeps_bind keeps_signal roundtrip_flash [OF C] i) (simp_all add: IH keeps_bind)
qed simp

lemma encrypted_checks_keep:
  assumes C: "rom_contract enc R mem page"
  shows "keeps (apart mem s0) (initialize_encrypted_storage R)" and "keeps (apart mem s0) (verify_encrypted_roundtrip R)"
  unfolding initialize_encrypted_storage_def verify_encrypted_roundtrip_def
  by (intro keeps_bind keeps_signal keeps_milestone apart_initialize [OF C] roundtrip_flash [OF C] roundtrip_steps_keeps [OF C];
      simp add: list_all_iff)+

text \<open>The files a finished provisioner leaves.\<close>

definition provisioned :: "('s \<Rightarrow> string \<Rightarrow> bytes option) \<Rightarrow> 's \<Rightarrow> bool" where
  "provisioned files s \<longleftrightarrow> files s STORAGE_FORMAT_VERSION_PATH = Some STORAGE_FORMAT_VERSION
     \<and> files s PERSISTENT_STATE_INITIALIZATION_MARKER_PATH = Some PERSISTENT_STATE_INITIALIZATION_MARKER"

definition versioned :: "('s \<Rightarrow> string \<Rightarrow> bytes option) \<Rightarrow> 's \<Rightarrow> bool" where
  "versioned files s \<longleftrightarrow> files s STORAGE_FORMAT_VERSION_PATH = Some STORAGE_FORMAT_VERSION"

lemma triple_conj: "triple I m P \<Longrightarrow> triple I m Q \<Longrightarrow> triple I m (\<lambda>r s. P r s \<and> Q r s)"
  by (fastforce simp: triple_def yields_def)

lemma version_written:
  assumes "fs_law L files names"
  shows "triple (\<lambda>_. True) (write_storage_version L) (\<lambda>r s. r = Inr () \<longrightarrow> versioned files s)"
  unfolding write_storage_version_def
proof (rule triple_bind [where P = "\<lambda>r s. True"])
  fix a show "triple (\<lambda>s. True) (verify_storage_version L) (\<lambda>r s. r = Inr () \<longrightarrow> versioned files s)"
    unfolding triple_def using reads_onlyD [OF version_reads [OF assms]] by (fastforce simp: yields_def versioned_def)
qed (simp_all add: triple_def yields_def map_err_def fs_call_def split: prod.splits sum.splits)

lemma marker_written:
  assumes L: "fs_law L files names" and W: "fs_write_law L files"
  shows "triple (versioned files) (write_persistent_state_initialization_marker L) (\<lambda>r s. r = Inr () \<longrightarrow> provisioned files s)"
  unfolding write_persistent_state_initialization_marker_def
proof (rule triple_bind [where P = "\<lambda>_. versioned files"])
  have paths: "STORAGE_FORMAT_VERSION_PATH \<noteq> PERSISTENT_STATE_INITIALIZATION_MARKER_PATH"
    by (simp add: STORAGE_FORMAT_VERSION_PATH_def PERSISTENT_STATE_INITIALIZATION_MARKER_PATH_def)
  show "triple (versioned files) (fs_call (lf_create_dir_all L ''/fido/dat'')) (\<lambda>_. versioned files)"
    using W by (auto simp: triple_def yields_def fs_call_def fs_write_law_def versioned_def) (metis prod.collapse)
  have w: "triple (versioned files) (fs_call (lf_write L PERSISTENT_STATE_INITIALIZATION_MARKER_PATH b)) (\<lambda>_. versioned files)" for b
    using W paths by (auto simp: triple_def yields_def fs_call_def fs_write_law_def versioned_def) (metis prod.collapse)
  have r: "triple (versioned files) (fs_call (lf_read L 64 PERSISTENT_STATE_INITIALIZATION_MARKER_PATH))
      (\<lambda>r s. versioned files s \<and> (\<forall>bs. r = Inr bs \<longrightarrow> files s PERSISTENT_STATE_INITIALIZATION_MARKER_PATH = Some bs))"
    unfolding triple_def
    using reads_onlyD [OF fs_reads(2) [OF L, of _ PERSISTENT_STATE_INITIALIZATION_MARKER_PATH 64]]
    by (fastforce simp: yields_def versioned_def)
  fix a show "triple (versioned files) (try_then (fs_call (lf_write L PERSISTENT_STATE_INITIALIZATION_MARKER_PATH PERSISTENT_STATE_INITIALIZATION_MARKER)) (\<lambda>_.
     try_then (fs_call (lf_read L 64 PERSISTENT_STATE_INITIALIZATION_MARKER_PATH)) (\<lambda>stored.
     if stored = PERSISTENT_STATE_INITIALIZATION_MARKER then rust_ok () else rust_err (lf_corruption L))))
     (\<lambda>r s. r = Inr () \<longrightarrow> provisioned files s)"
    by (rule triple_bind [OF w], simp, rule triple_bind [OF r]) (auto simp: provisioned_def versioned_def)
qed simp

lemma keeps_then:
  assumes "keeps I m" and "\<And>a. triple (\<lambda>p. I (pr_device p)) (f a) Q" and "\<And>e p. I (pr_device p) \<Longrightarrow> e \<noteq> IE_Signal 2 \<Longrightarrow> Q (Inl e) p"
  shows "triple (\<lambda>p. I (pr_device p)) (try_then m f) Q"
  by (rule triple_bind [OF assms(1) [unfolded keeps_def]]) (use assms(2,3) in \<open>auto simp: triple_def\<close>)

lemma signal_device_triple:
  assumes "triple I m (\<lambda>_. J)" and "triple I m (\<lambda>r s. r = Inr () \<longrightarrow> K s)" and "pulses \<noteq> 2"
  shows "triple (\<lambda>p. I (pr_device p)) (or_signal report pulses (on_device m))
    (\<lambda>r p. J (pr_device p) \<and> r \<noteq> Inl (IE_Signal 2) \<and> (r = Inr () \<longrightarrow> K (pr_device p)))"
  by (rule signal_triple [where J = J], rule triple_mono [OF device_triple [OF triple_conj [OF assms(1,2)]]])
    (use assms(3) in \<open>auto split: sum.splits\<close>)

lemma create_store_triple:
  assumes C: "rom_contract enc' R mem page" and L: "fs_law L files names" and W: "fs_write_law L files"
    and B: "fs_bounded L mem"
  shows "triple (\<lambda>p. apart mem s0 (pr_device p)) (create_store enc R L code)
    (\<lambda>r p. apart mem s0 (pr_device p) \<and> r \<noteq> Inl (IE_Signal 2) \<and> (r = Inr () \<longrightarrow> provisioned files (pr_device p)))" (is "triple ?I _ ?Q")
proof -
  let ?v = "\<lambda>s. apart mem s0 s \<and> versioned files s"
  have version: "triple ?I (or_signal (\<lambda>_. (112, 0)) 6 (on_device (write_storage_version L)))
      (\<lambda>r p. apart mem s0 (pr_device p) \<and> r \<noteq> Inl (IE_Signal 2) \<and> (r = Inr () \<longrightarrow> versioned files (pr_device p)))"
    by (rule signal_device_triple, rule apart_version [OF B], rule triple_mono [OF version_written [OF L]]) simp_all
  have marker: "triple (\<lambda>p. ?v (pr_device p)) (or_signal (\<lambda>_. (113, 0)) 7 (on_device (write_persistent_state_initialization_marker L))) ?Q"
    by (rule signal_device_triple [where I = ?v], rule triple_mono [OF apart_version(3) [OF B, of s0]], simp, simp,
        rule triple_mono [OF marker_written [OF L W]]) simp_all
  have last: "triple (?Q (Inr a)) (try_then (milestone 11 0) (\<lambda>_. milestone 12 0)) ?Q" for a
    by (auto simp: triple_def yields_def try_then_def milestone_def Let_def)
  have tail: "triple ?I (try_then (or_signal (\<lambda>_. (112, 0)) 6 (on_device (write_storage_version L))) (\<lambda>_.
     try_then (milestone 10 0) (\<lambda>_.
     try_then (or_signal (\<lambda>_. (113, 0)) 7 (on_device (write_persistent_state_initialization_marker L))) (\<lambda>_.
     try_then (milestone 11 0) (\<lambda>_. milestone 12 0))))) ?Q"
    by (rule triple_bind [OF version], simp, rule triple_mono [OF keeps_then [OF keeps_milestone triple_bind [OF marker _ last]]]) auto
  show ?thesis unfolding create_store_def
    by (intro keeps_then [OF keeps_milestone] keeps_then [OF keeps_signal [OF apart_storage_new [OF C]]]
        keeps_then [OF keeps_signal [OF apart_fs(1) [OF B]]] keeps_then [OF keeps_signal [OF apart_fs(2) [OF B]]]
        keeps_then [where m = "if enc then initialize_encrypted_storage R else rust_ok ()"]
        keeps_then [where m = "if enc then verify_encrypted_roundtrip R else rust_ok ()"] tail)
      (simp_all add: encrypted_checks_keep [OF C])
qed

subsection \<open>The identity import\<close>

text \<open>A part of the body that keeps an invariant of the flash and stops only with the given codes.\<close>

definition part :: "import_stop set \<Rightarrow> ('f fe_state \<Rightarrow> bool) \<Rightarrow> (('f, 'v) importer, import_stop, 'a) rust \<Rightarrow> bool" where
  "part S I m \<longleftrightarrow> triple (\<lambda>p. I (ir_device p)) m (\<lambda>r p. I (ir_device p) \<and> (\<forall>e. r = Inl e \<longrightarrow> e \<in> S))"

lemma part_bind:
  assumes "part S I m" and "\<And>a. part S I (f a)"
  shows "part S I (try_then m f)"
  unfolding part_def
  by (rule triple_bind [OF assms(1) [unfolded part_def]]) (use assms(2) in \<open>auto simp: part_def triple_def\<close>)

lemma part_pure [simp]: "part S I (rust_ok a)" "e \<in> S \<Longrightarrow> part S I (guard_err b e)"
  by (auto simp: part_def guard_err_def)

lemma part_then:
  assumes "part S I m" and "\<And>a. triple (\<lambda>p. I (ir_device p)) (f a) Q"
    and "\<And>e p. I (ir_device p) \<Longrightarrow> e \<in> S \<Longrightarrow> Q (Inl e) p"
  shows "triple (\<lambda>p. I (ir_device p)) (try_then m f) Q"
  by (rule triple_bind [OF assms(1) [unfolded part_def]]) (use assms(2,3) in \<open>auto simp: triple_def\<close>)

lemma part_device:
  "triple I m (\<lambda>_. I) \<Longrightarrow> Stop c \<in> S \<Longrightarrow> part S I (with_code c (import_device m))"
  by (fastforce simp: part_def triple_def yields_def with_code_def map_err_def import_device_def split: sum.splits)

lemma part_exists: "triple I (fs_exists L path) (\<lambda>_. I) \<Longrightarrow> part S I (import_device (fs_exists L path))"
  by (fastforce simp: part_def triple_def yields_def import_device_def fs_exists_def split: prod.splits)

lemma part_ram:
  "Stop c \<in> S \<Longrightarrow> part S I (with_code c (import_ram (fs_call op)))"
  "Panic \<in> S \<Longrightarrow> part S I (expect (import_ram (fs_call op)))"
  by (auto simp: part_def triple_def yields_def with_code_def expect_def map_err_def import_ram_def fs_call_def
      split: sum.splits prod.splits)

lemma part_stores:
  assumes "\<And>d v. I d \<Longrightarrow> I (fst (snd (op (d, v))))" and "Stop c \<in> S"
  shows "part S I (with_code c (import_stores (fs_call op)))"
  unfolding part_def triple_def
proof (intro allI impI)
  fix p :: "('a, 'b) importer" assume "I (ir_device p)"
  moreover obtain r d v where "op (ir_device p, ir_ram p) = (r, d, v)" by (metis prod_cases3)
  ultimately show "yields (with_code c (import_stores (fs_call op))) p (\<lambda>r p. I (ir_device p) \<and> (\<forall>e. r = Inl e \<longrightarrow> e \<in> S))"
    using assms(1) [of "ir_device p" "ir_ram p"] assms(2)
    by (cases r) (simp_all add: yields_def with_code_def map_err_def import_stores_def fs_call_def)
qed

lemma part_start:
  assumes "Panic \<in> S"
  shows "part S I (start_service X P on_proof)"
    and "(\<And>seed d v. I d \<Longrightarrow> I (fst (tc_start T seed (d, v)))) \<Longrightarrow> part S I (start_service X T on_persistent)"
proof -
  show "part S I (start_service X P on_proof)"
    using assms by (auto simp: part_def triple_def yields_def start_service_def on_proof_def rust_ok_def rust_err_def Let_def split: prod.splits)
  assume start: "\<And>seed d v. I d \<Longrightarrow> I (fst (tc_start T seed (d, v)))"
  show "part S I (start_service X T on_persistent)"
    unfolding part_def triple_def
  proof (intro allI impI)
    fix p :: "('a, 'b) importer" assume "I (ir_device p)"
    moreover obtain seed ram where r: "ip_rng_read X 32 (ir_ram p) = (seed, ram)" by (meson surj_pair)
    moreover obtain d v where "tc_start T seed (ir_device p, ram) = (d, v)" by (meson surj_pair)
    ultimately show "yields (start_service X T on_persistent) p (\<lambda>r p. I (ir_device p) \<and> (\<forall>e. r = Inl e \<longrightarrow> e \<in> S))"
      using start [of "ir_device p" seed ram] assms
      by (simp add: yields_def start_service_def on_persistent_def rust_ok_def rust_err_def Let_def)
  qed
qed

definition untouched ::
  "('f fe_state \<Rightarrow> string \<Rightarrow> bytes option) \<Rightarrow> ('f fe_state \<Rightarrow> string \<Rightarrow> string list) \<Rightarrow> ('f \<Rightarrow> nat \<Rightarrow> u8)
     \<Rightarrow> 'f fe_state \<Rightarrow> 'f fe_state \<Rightarrow> bool" where
  "untouched files names mem d0 d \<longleftrightarrow> apart mem d0 d \<and> files d = files d0 \<and> names d = names d0"

lemma reads_only_triple:
  assumes "reads_only files names d0 P m" and "triple (apart mem d0) m (\<lambda>_. apart mem d0)"
  shows "triple (untouched files names mem d0) m (\<lambda>r d. P r \<and> untouched files names mem d0 d)"
proof -
  have c: "triple (untouched files names mem d0) m (\<lambda>r d. P r \<and> files d = files d0 \<and> names d = names d0)"
    using assms(1) by (auto simp: triple_def reads_only_def untouched_def)
  have "triple (untouched files names mem d0) m (\<lambda>_. apart mem d0)"
    by (rule triple_mono [OF assms(2)]) (simp_all add: untouched_def)
  from triple_conj [OF c this] show ?thesis by (rule triple_mono) (simp_all add: untouched_def)
qed

lemma apart_checks:
  assumes "fs_bounded L mem"
  shows "triple (apart mem d0) (mount_existing L) (\<lambda>_. apart mem d0)"
    and "triple (apart mem d0) (verify_empty_identity_import_target L) (\<lambda>_. apart mem d0)"
    and "triple (apart mem d0) (verify_development_attestation L D n) (\<lambda>_. apart mem d0)"
proof -
  note f = apart_fs [OF assms] apart_version(1) [OF assms]
  show "triple (apart mem d0) (mount_existing L) (\<lambda>_. apart mem d0)"
    unfolding mount_existing_def by (intro triple_keep_bind triple_map_err f)
  have d: "triple (apart mem d0) (check_directory L p names) (\<lambda>_. apart mem d0)" for p names
    unfolding check_directory_def by (rule triple_keep_bind [OF f(6)]) (simp split: sum.splits)
  show "triple (apart mem d0) (verify_empty_identity_import_target L) (\<lambda>_. apart mem d0)"
    unfolding verify_empty_identity_import_target_def by (intro triple_keep_bind d f) simp
  have p: "triple (apart mem d0) (ok_or e x) (\<lambda>_. apart mem d0)" "triple (apart mem d0) (guard_err b e) (\<lambda>_. apart mem d0)"
    for e :: "'b development_attestation_error" and x :: "'z option" and b
    by (simp_all add: ok_or_def guard_err_def split: option.splits)
  show "triple (apart mem d0) (verify_development_attestation L D n) (\<lambda>_. apart mem d0)"
    unfolding verify_development_attestation_def Let_def by (intro triple_keep_bind triple_map_err f p) simp
qed

lemma untouched_mem:
  assumes "store_view files names mem" and "\<And>d. yields m d (\<lambda>_ d'. mem (fe_hw d') = mem (fe_hw d))"
  shows "triple (untouched files names mem d0) m (\<lambda>_. untouched files names mem d0)"
  unfolding triple_def
proof (intro allI impI)
  fix d assume d: "untouched files names mem d0 d"
  show "yields m d (\<lambda>_. untouched files names mem d0)"
  proof (rule yields_mono [OF assms(2)])
    fix d' :: "'a fe_state" assume m: "mem (fe_hw d') = mem (fe_hw d)"
    then have "files d' = files d \<and> names d' = names d" using assms(1) unfolding store_view_def by metis
    then show "untouched files names mem d0 d'" using d m by (simp add: untouched_def apart_def only_within_def)
  qed
qed

lemma fe_read_result:
  assumes "rom_contract enc R mem page"
  shows "yields (fe_read R a n) d (\<lambda>r d'. d' = d \<and> (\<forall>bs. r = Inr bs \<longrightarrow> length bs = n))"
  using rom_contractD(10) [OF assms]
  by (auto simp: yields_def fe_read_def ok_or_def try_then_def rust_ok_def rust_err_def split: option.splits)

definition certified :: "('f, 'e, 'v, 'h) import_platform \<Rightarrow> attestation_identity \<Rightarrow> bool" where
  "certified X i \<longleftrightarrow> length (ai_key i) = 32 \<and> is_valid_p256_scalar (ai_key i)
     \<and> sha_digest (ip_sha X) (ai_certificate i) = ip_expected_certificate X
     \<and> certificate_aaguid (ai_certificate i) = Some DEVELOPMENT_AAGUID"

text \<open>The laws of the parts the import relies on.\<close>

definition import_law ::
  "bool \<Rightarrow> ('f, 'e, 'v, 'h) import_platform \<Rightarrow> ('f \<Rightarrow> nat \<Rightarrow> u8) \<Rightarrow> ('f \<Rightarrow> u32 \<Rightarrow> u32 option)
     \<Rightarrow> ('f fe_state \<Rightarrow> string \<Rightarrow> bytes option) \<Rightarrow> ('f fe_state \<Rightarrow> string \<Rightarrow> string list) \<Rightarrow> (bytes \<Rightarrow> bytes) \<Rightarrow> bool" where
  "import_law enc X mem page files names public_of \<longleftrightarrow> rom_contract enc (ip_rom X) mem page
     \<and> fs_law (ip_filesystem X) files names \<and> fs_bounded (ip_filesystem X) mem \<and> store_view files names mem
     \<and> client_bounded (ip_persistent X) mem \<and> derivation_law (ip_proof X) public_of"

lemma staged_read:
  assumes "rom_contract enc R mem page"
  shows "triple (\<lambda>p. I (ir_device p)) (with_code c (import_device (fe_read R a n)))
    (\<lambda>r p. I (ir_device p) \<and> (\<forall>e. r = Inl e \<longrightarrow> e = Stop c) \<and> (\<forall>bs. r = Inr bs \<longrightarrow> length bs = n))"
  unfolding triple_def
proof (intro allI impI)
  fix p :: "('a, 'b) importer" assume "I (ir_device p)"
  moreover obtain r where "fe_read R a n (ir_device p) = Some (r, ir_device p)" "\<forall>bs. r = Inr bs \<longrightarrow> length bs = n"
    using fe_read_result [OF assms, of a n "ir_device p"] by (auto simp: yields_def)
  ultimately show "yields (with_code c (import_device (fe_read R a n))) p
      (\<lambda>r p. I (ir_device p) \<and> (\<forall>e. r = Inl e \<longrightarrow> e = Stop c) \<and> (\<forall>bs. r = Inr bs \<longrightarrow> length bs = n))"
    by (cases r) (auto simp: yields_def with_code_def map_err_def import_device_def)
qed

lemma import_lawD:
  assumes "import_law enc X mem page files names public_of"
  shows "rom_contract enc (ip_rom X) mem page" "fs_law (ip_filesystem X) files names" "fs_bounded (ip_filesystem X) mem"
    "store_view files names mem" "client_bounded (ip_persistent X) mem" "derivation_law (ip_proof X) public_of"
  using assms by (simp_all add: import_law_def)

lemma initialize_untouched:
  assumes "import_law enc X mem page files names public_of"
  shows "triple (untouched files names mem d0) (initialize (ip_rom X)) (\<lambda>_. untouched files names mem d0)"
  by (rule untouched_mem [OF import_lawD(4) [OF assms] initialize_mem [OF import_lawD(1) [OF assms]]])

lemma staged_triple:
  assumes law: "import_law enc X mem page files names public_of"
  shows "triple (\<lambda>p. untouched files names mem d0 (ir_device p)) (import_staged X)
    (\<lambda>r p. untouched files names mem d0 (ir_device p) \<and> (\<forall>e. r = Inl e \<longrightarrow> e \<in> {Stop 3, Stop 4}) \<and> (\<forall>i. r = Inr i \<longrightarrow> certified X i))"
  unfolding import_staged_def
proof (rule part_then [OF part_device [OF initialize_untouched [OF law], where S = "{Stop 3, Stop 4}"]], simp,
    rule triple_bind [OF staged_read [OF import_lawD(1) [OF law]]])
  fix staged
  have "certified X i" if "length staged = STAGING_BYTES" "parse_staged (ip_sha X) staged (ip_expected_certificate X) = Some (Inr i)" for i
    using parse_staged_iff [OF that(1), of "ip_sha X" "ip_expected_certificate X" i] that(2) by (simp add: certified_def)
  moreover have "parse_staged (ip_sha X) staged (ip_expected_certificate X) \<noteq> None" if "length staged = STAGING_BYTES"
    using parse_staged_iff [OF that, of "ip_sha X" "ip_expected_certificate X"] by blast
  ultimately show "triple (\<lambda>p. untouched files names mem d0 (ir_device p) \<and> (\<forall>e. (Inr staged :: import_stop + bytes) = Inl e \<longrightarrow> e = Stop 3)
      \<and> (\<forall>bs. (Inr staged :: import_stop + bytes) = Inr bs \<longrightarrow> length bs = STAGING_BYTES))
    (\<lambda>p. let p = p\<lparr>ir_payload := staged\<rparr> in case parse_staged (ip_sha X) staged (ip_expected_certificate X) of None \<Rightarrow> None
      | Some (Inl _) \<Rightarrow> rust_err (Stop 4) p
      | Some (Inr identity) \<Rightarrow> if ip_expected_public_key X ! 0 \<noteq> 4 then rust_err (Stop 4) p else rust_ok identity p)
    (\<lambda>r p. untouched files names mem d0 (ir_device p) \<and> (\<forall>e. r = Inl e \<longrightarrow> e \<in> {Stop 3, Stop 4}) \<and> (\<forall>i. r = Inr i \<longrightarrow> certified X i))"
    by (auto simp: triple_def yields_def rust_err_def rust_ok_def Let_def split: option.splits sum.splits)
qed auto

lemma target_part:
  assumes law: "import_law enc X mem page files names public_of"
  shows "part {Stop 3, Stop 5, Stop 6} (untouched files names mem d0) (import_target X)"
proof -
  let ?U = "untouched files names mem d0"
  note L = import_lawD(2) [OF law] and B = import_lawD(3) [OF law]
  have new: "triple ?U (storage_new True (ip_rom X)) (\<lambda>_. ?U)"
    using initialize_untouched [OF law] by (simp add: storage_new_def triple_map_err)
  have mount: "triple ?U (mount_existing (ip_filesystem X)) (\<lambda>_. ?U)"
    by (rule triple_mono [OF reads_only_triple [OF mount_reads [OF L] apart_checks(1) [OF B]]]) auto
  have target: "triple ?U (verify_empty_identity_import_target (ip_filesystem X)) (\<lambda>_. ?U)"
    by (rule triple_mono [OF reads_only_triple [OF empty_target_reads [OF L] apart_checks(2) [OF B]]]) auto
  show ?thesis unfolding import_target_def by (intro part_bind part_device new mount target) simp_all
qed

lemma start_proof_part: "part {Panic} I (import_start_proof X)"
  unfolding import_start_proof_def by (intro part_bind part_ram part_start) simp_all

lemma prove_triple:
  assumes "derivation_law (ip_proof X) public_of"
  shows "triple (\<lambda>p. I (ir_device p)) (import_prove X i)
    (\<lambda>r p. I (ir_device p) \<and> (\<forall>e. r = Inl e \<longrightarrow> e = Stop 7) \<and> (r = Inr () \<longrightarrow> public_of (ai_key i) = drop 1 (ip_expected_public_key X)))"
  using assms unfolding triple_def import_prove_def Let_def derivation_law_def
  by (fastforce simp: yields_def try_then_def with_code_def map_err_def import_ram_def fs_call_def guard_err_def rust_err_def rust_ok_def
      split: prod.splits sum.splits)

lemma apart_store_bound: "apart mem d0 d \<Longrightarrow> store_bound mem d d' \<Longrightarrow> apart mem d0 d'"
  unfolding apart_def store_bound_def by (blast intro: only_within_trans)

lemma client_apart:
  assumes "client_bounded T mem" and "apart mem d0 d"
  shows "apart mem d0 (fst (tc_start T seed (d, v)))" "apart mem d0 (fst (snd (tc_unsafe_inject_key T l k (d, v))))"
    "apart mem d0 (fst (snd (tc_write_certificate T l k (d, v))))" "apart mem d0 (fst (snd (tc_exists T i (d, v))))"
    "apart mem d0 (fst (snd (tc_read_certificate T i (d, v))))"
  using assms unfolding client_bounded_def by (blast intro: apart_store_bound)+

lemma install_part:
  assumes law: "import_law enc X mem page files names public_of"
  shows "part {Panic, Stop 6, Stop 8} (apart mem d0) (import_install X i)"
  unfolding import_install_def Let_def
proof (intro part_bind part_start part_stores client_apart [OF import_lawD(5) [OF law]])
  fix key_exists
  show "part {Panic, Stop 6, Stop 8} (apart mem d0)
      (if key_exists then rust_ok True else import_device (fs_exists (ip_filesystem X) ATTESTATION_CERT_PATH))"
    by (simp add: part_exists apart_fs [OF import_lawD(3) [OF law]])
qed (simp_all add: part_exists part_device apart_fs [OF import_lawD(3) [OF law]])

lemma verify_triple:
  assumes law: "import_law enc X mem page files names public_of"
  shows "triple (\<lambda>p. apart mem d0 (ir_device p)) (import_verify X i)
    (\<lambda>r p. apart mem d0 (ir_device p) \<and> (\<forall>e. r = Inl e \<longrightarrow> e = Stop 9)
       \<and> (r = Inr () \<longrightarrow> attested (ip_try_deserialize X) (files (ir_device p))))" (is "triple ?I _ ?Q")
proof -
  let ?V = "verify_development_attestation (ip_filesystem X) (ip_try_deserialize X) (ip_max_message_length X)"
  note c = client_apart [OF import_lawD(5) [OF law]]
  have a: "triple (apart mem d0) ?V (\<lambda>r d. apart mem d0 d \<and> (r = Inr () \<longrightarrow> attested (ip_try_deserialize X) (files d)))"
  proof (rule triple_conj [OF apart_checks(3) [OF import_lawD(3) [OF law]]])
    show "triple (apart mem d0) ?V (\<lambda>r d. r = Inr () \<longrightarrow> attested (ip_try_deserialize X) (files d))"
      unfolding triple_def yields_def using reads_onlyD [OF attestation_reads [OF import_lawD(2) [OF law]]] by metis
  qed
  have last: "triple ?I (with_code 9 (import_device ?V)) ?Q"
    unfolding triple_def
  proof (intro allI impI)
    fix p :: "('a, 'c) importer" assume "?I p"
    then obtain r d where "?V (ir_device p) = Some (r, d)" "apart mem d0 d"
      "r = Inr () \<longrightarrow> attested (ip_try_deserialize X) (files d)"
      using a unfolding triple_def yields_def by blast
    then show "yields (with_code 9 (import_device ?V)) p ?Q"
      by (cases r) (auto simp: yields_def with_code_def map_err_def import_device_def)
  qed
  show ?thesis unfolding import_verify_def Let_def
    by (intro part_then [where S = "{Stop 9}"] part_stores c last) simp_all
qed

lemma erase_staging:
  assumes law: "import_law enc X mem page files names public_of"
  shows "yields (with_code 10 (import_device (fe_erase (ip_rom X) STAGING_ADDRESS STAGING_BYTES))) p
    (\<lambda>r p'. files (ir_device p') = files (ir_device p) \<and> (r = Inr () \<or> r = Inl (Stop 10))
       \<and> only_within mem 0x200000 0x201000 (fe_hw (ir_device p)) (fe_hw (ir_device p')))"
proof -
  have a: "unat STAGING_ADDRESS = 0x200000" and b: "STAGING_BYTES = 4096" by (simp_all add: STAGING_ADDRESS_def STAGING_BYTES_def)
  have "confined mem (unat STAGING_ADDRESS) (unat STAGING_ADDRESS + 4096) (ir_device p)
      (fe_erase (ip_rom X) STAGING_ADDRESS 4096 (ir_device p))"
    unfolding fe_erase_def by (rule erase_inner_confined [OF import_lawD(1) [OF law]]) (simp add: a)
  then obtain r d where e: "fe_erase (ip_rom X) STAGING_ADDRESS 4096 (ir_device p) = Some (r, d)"
    and o: "only_within mem 0x200000 0x201000 (fe_hw (ir_device p)) (fe_hw d)"
    by (auto simp: confined_def a)
  have "files d = files (ir_device p)" using import_lawD(4) [OF law] o unfolding store_view_def only_within_def by simp
  with e o show ?thesis by (cases r) (auto simp: b yields_def with_code_def map_err_def import_device_def)
qed

text \<open>An identity with the expected certificate whose key derives the expected public key.\<close>

definition proven :: "('f, 'e, 'v, 'h) import_platform \<Rightarrow> (bytes \<Rightarrow> bytes) \<Rightarrow> attestation_identity \<Rightarrow> bool" where
  "proven X public_of i \<longleftrightarrow> certified X i \<and> public_of (ai_key i) = drop 1 (ip_expected_public_key X)"

text \<open>What the body of the import leaves, from the device \<open>d0\<close>, by how it stops.\<close>

definition import_post ::
  "('f, 'e, 'v, 'h) import_platform \<Rightarrow> ('f \<Rightarrow> nat \<Rightarrow> u8) \<Rightarrow> ('f fe_state \<Rightarrow> string \<Rightarrow> bytes option)
     \<Rightarrow> ('f fe_state \<Rightarrow> string \<Rightarrow> string list) \<Rightarrow> (bytes \<Rightarrow> bytes) \<Rightarrow> 'f fe_state \<Rightarrow> import_stop + unit \<Rightarrow> 'f fe_state \<Rightarrow> bool" where
  "import_post X mem files names public_of d0 r d \<longleftrightarrow>
     (files d = files d0 \<and> names d = names d0
        \<or> (\<exists>i. proven X public_of i))
     \<and> (\<forall>a. mem (fe_hw d) a \<noteq> mem (fe_hw d0) a \<longrightarrow> 0x3e0000 \<le> a \<and> a < 0x400000
        \<or> 0x200000 \<le> a \<and> a < 0x201000 \<and> (r = Inr () \<or> r = Inl (Stop 10)))
     \<and> (r = Inr () \<longrightarrow> attested (ip_try_deserialize X) (files d))
     \<and> (\<forall>k. r = Inl (Stop k) \<longrightarrow> 3 \<le> k \<and> k \<le> 10)"

lemma post_untouched:
  assumes "untouched files names mem d0 d" and "e \<in> {Panic, Stop 3, Stop 4, Stop 5, Stop 6, Stop 7}"
  shows "import_post X mem files names public_of d0 (Inl e) d"
  using assms unfolding import_post_def untouched_def apart_def only_within_def by (auto simp: not_le)

lemma post_apart:
  assumes "proven X public_of i" and "apart mem d0 d" and "e \<in> {Panic, Stop 6, Stop 8, Stop 9}"
  shows "import_post X mem files names public_of d0 (Inl e) d"
  using assms unfolding import_post_def apart_def only_within_def by (auto simp: not_le)

lemma post_erased:
  assumes "proven X public_of i" and "apart mem d0 d1" and "attested (ip_try_deserialize X) (files d1)" and "files d = files d1"
    and "only_within mem 0x200000 0x201000 (fe_hw d1) (fe_hw d)" and "r = Inr () \<or> r = Inl (Stop 10)"
  shows "import_post X mem files names public_of d0 r d"
proof -
  have "0x3e0000 \<le> a \<and> a < 0x400000 \<or> 0x200000 \<le> a \<and> a < 0x201000" if "mem (fe_hw d) a \<noteq> mem (fe_hw d0) a" for a
    using assms(2,5) that unfolding apart_def only_within_def by (metis not_le)
  then show ?thesis using assms(1,3,4,6) unfolding import_post_def by auto
qed

lemma import_identity_post:
  assumes law: "import_law enc X mem page files names public_of"
  shows "yields (import_identity X) p (\<lambda>r p'. import_post X mem files names public_of (ir_device p) r (ir_device p'))"
proof -
  let ?d = "ir_device p" and ?Q = "\<lambda>r p'. import_post X mem files names public_of (ir_device p) r (ir_device p')"
  let ?U = "untouched files names mem ?d" and ?A = "apart mem ?d"
  let ?erase = "with_code 10 (import_device (fe_erase (ip_rom X) STAGING_ADDRESS STAGING_BYTES))"
  let ?install = "\<lambda>i. try_then (import_install X i) (\<lambda>_. try_then (import_verify X i) (\<lambda>_. ?erase))"
  let ?prove = "\<lambda>i. try_then (import_prove X i) (\<lambda>_. ?install i)"
  let ?target = "\<lambda>i. try_then (import_target X) (\<lambda>_. try_then (import_start_proof X) (\<lambda>_. ?prove i))"
  have install: "triple (\<lambda>p'. ?A (ir_device p')) (?install i) ?Q" if i: "proven X public_of i" for i
  proof (rule part_then [OF install_part [OF law]], rule triple_bind [OF verify_triple [OF law]])
    fix u
    show "triple (\<lambda>p'. ?A (ir_device p') \<and> (\<forall>e. (Inr u :: import_stop + unit) = Inl e \<longrightarrow> e = Stop 9)
        \<and> ((Inr u :: import_stop + unit) = Inr () \<longrightarrow> attested (ip_try_deserialize X) (files (ir_device p')))) ?erase ?Q"
      unfolding triple_def
      by (intro allI impI, rule yields_mono [OF erase_staging [OF law]], rule post_erased [OF i]) auto
  qed (auto intro: post_apart [OF i])
  have prove: "triple (\<lambda>p'. ?U (ir_device p')) (?prove i) ?Q" if i: "certified X i" for i
  proof (rule triple_bind [OF prove_triple [OF import_lawD(6) [OF law], of ?U]])
    fix u
    show "triple (\<lambda>p'. ?U (ir_device p') \<and> (\<forall>e. (Inr u :: import_stop + unit) = Inl e \<longrightarrow> e = Stop 7)
        \<and> ((Inr u :: import_stop + unit) = Inr () \<longrightarrow> public_of (ai_key i) = drop 1 (ip_expected_public_key X))) (?install i) ?Q"
      using install [of i] i by (auto simp: triple_def proven_def untouched_def)
  qed (auto intro: post_untouched)
  have target: "triple (\<lambda>p'. ?U (ir_device p')) (?target i) ?Q" if "certified X i" for i
    by (intro part_then [OF target_part [OF law]] part_then [OF start_proof_part] prove that) (auto intro: post_untouched)
  have "triple (\<lambda>p'. ?U (ir_device p')) (import_identity X) ?Q"
    unfolding import_identity_def
    by (rule triple_bind [OF staged_triple [OF law]]) (use target in \<open>auto intro: post_untouched simp: triple_def\<close>)
  then show ?thesis unfolding triple_def by (simp add: untouched_def)
qed

lemma arming_cases:
  "fresh_hold polls \<and> (\<exists>led'. arming_loop (provisioning_new REQUIRED_HOLD_MS) led polls = (Hold_Confirmed, led'))
   \<or> \<not> fresh_hold polls \<and> (\<exists>led'. arming_loop (provisioning_new REQUIRED_HOLD_MS) led polls \<in> {(Still_Waiting, led'), (Window_Expired, led')})"
  using arming_fresh_hold [of led polls]
  by (cases "arming_loop (provisioning_new REQUIRED_HOLD_MS) led polls"; cases "fst (arming_loop (provisioning_new REQUIRED_HOLD_MS) led polls)") auto

section \<open>An example store and service\<close>

text \<open>A store in the example flash that can hold four files with a fixed content: a byte of the partition says whether a file is there.\<close>

definition flag_of :: "string \<Rightarrow> (nat \<times> bytes) option" where
  "flag_of = map_of [(STORAGE_FORMAT_VERSION_PATH, (0, STORAGE_FORMAT_VERSION)),
     (PERSISTENT_STATE_INITIALIZATION_MARKER_PATH, (1, PERSISTENT_STATE_INITIALIZATION_MARKER)),
     (ATTESTATION_KEY_PATH, (2, replicate 31 0 @ [1])),
     (ATTESTATION_CERT_PATH, (3, AAGUID_EXTENSION_PREFIX @ DEVELOPMENT_AAGUID))]"

definition flag_files :: "ram_hw fe_state \<Rightarrow> string \<Rightarrow> bytes option" where
  "flag_files s p = (case flag_of p of None \<Rightarrow> None
     | Some (i, bs) \<Rightarrow> if rh_mem (fe_hw s) (0x3e0000 + i) = 1 then Some bs else None)"

definition flag_set :: "nat \<Rightarrow> u8 \<Rightarrow> ram_hw fe_state \<Rightarrow> ram_hw fe_state" where
  "flag_set i b s = s\<lparr>fe_hw := (fe_hw s)\<lparr>rh_mem := (rh_mem (fe_hw s))(0x3e0000 + i := b)\<rparr>\<rparr>"

definition flag_fs :: "(ram_hw fe_state, int) littlefs" where
  "flag_fs = \<lparr>lf_mount = \<lambda>s. (Inr (), s), lf_format = \<lambda>s. (Inr (), fold (\<lambda>i. flag_set i 0xff) [0, 1, 2, 3] s),
     lf_read = \<lambda>n p s. (case flag_files s p of None \<Rightarrow> Inl (-2) | Some bs \<Rightarrow> Inr bs, s),
     lf_write = \<lambda>p bs s. (case flag_of p of None \<Rightarrow> (Inl (-28), s)
        | Some (i, cs) \<Rightarrow> if bs = cs then (Inr (), flag_set i 1 s) else (Inl (-28), s)),
     lf_create_dir_all = \<lambda>p s. (Inr (), s), lf_read_dir = \<lambda>p s. (Inr (map Inr (ram_names fresh_fs p)), s),
     lf_exists = \<lambda>p s. (flag_files s p \<noteq> None, s),
     lf_rename = \<lambda>p q s. (case flag_of q of None \<Rightarrow> (Inl (-2), s) | Some (i, cs) \<Rightarrow> (Inr (), flag_set i 1 s)),
     lf_io = -5, lf_corruption = -84, lf_dir_not_empty = -39\<rparr>"

lemma flag_of_bound: "flag_of p = Some (i, bs) \<Longrightarrow> i < 4"
  by (auto simp: flag_of_def split: if_splits)

lemma flag_of_inject: "flag_of p = Some (i, bs) \<Longrightarrow> flag_of q = Some (i, cs) \<Longrightarrow> p = q"
  by (auto simp: flag_of_def split: if_splits)

lemma flag_set_bound: "i < 4 \<Longrightarrow> store_bound rh_mem s (flag_set i b s)"
  by (simp add: store_bound_def flag_set_def only_within_def)

lemma store_bound_trans: "store_bound mem s t \<Longrightarrow> store_bound mem t u \<Longrightarrow> store_bound mem s u"
  unfolding store_bound_def using only_within_trans by fastforce

lemma flag_fs_law: "fs_law flag_fs flag_files (\<lambda>_. ram_names fresh_fs)"
  by (auto simp: fs_law_def flag_fs_def ram_names_def comp_def split: option.splits)

lemma flag_fs_bounded: "fs_bounded flag_fs rh_mem"
proof -
  have "store_bound rh_mem s s" for s by (simp add: store_bound_def)
  moreover have "store_bound rh_mem s (flag_set 3 b (flag_set 2 b (flag_set 1 b (flag_set 0 b s))))" for s b
    by (intro store_bound_trans [OF store_bound_trans [OF store_bound_trans [OF flag_set_bound flag_set_bound] flag_set_bound] flag_set_bound]) simp_all
  ultimately show ?thesis
    unfolding fs_bounded_def
    by (auto simp: flag_fs_def flag_set_bound dest: flag_of_bound split: option.splits)
qed

lemma flag_write_law: "fs_write_law flag_fs flag_files"
  by (auto simp: fs_write_law_def flag_fs_def flag_files_def flag_set_def dest: flag_of_inject split: option.splits)

lemma flag_store_view: "store_view flag_files (\<lambda>_. ram_names fresh_fs) rh_mem"
  unfolding store_view_def flag_files_def
  by (auto simp: fun_eq_iff dest: flag_of_bound split: option.splits)

definition held_polls :: "(u64 \<times> bool \<times> u64) list" where
  "held_polls = [(0, False, 0), (10, True, 10), (5000, True, 5010)]"

definition blank_device :: "ram_hw fe_state" where
  "blank_device = \<lparr>fe_initialized = False, fe_hw = \<lparr>rh_mem = \<lambda>_. 0, rh_page = \<lambda>_. None\<rparr>\<rparr>"

text \<open>A service that keeps the injected key in the RAM side and derives a public key by doubling it.\<close>

definition doubling_client :: "('x \<Rightarrow> bytes) \<Rightarrow> (bytes \<Rightarrow> 'x \<Rightarrow> 'x) \<Rightarrow> ('x \<Rightarrow> bytes option) \<Rightarrow> 'x trussed_client" where
  "doubling_client key set_key cert = \<lparr>tc_start = \<lambda>seed x. x, tc_split = True,
     tc_unsafe_inject_key = \<lambda>l k x. (Inr 5, set_key k x), tc_derive_key = \<lambda>i x. (Inr 6, x),
     tc_serialize_key = \<lambda>i x. (Inr (key x @ key x), x), tc_delete = \<lambda>i x. (Inr (), x),
     tc_write_certificate = \<lambda>l bs x. (Inr 7, x), tc_exists = \<lambda>i x. (Inr (cert x \<noteq> None), x),
     tc_read_certificate = \<lambda>i x. (case cert x of None \<Rightarrow> Inl () | Some bs \<Rightarrow> Inr bs, x),
     tc_from_special = ucast, tc_legacy_hex_path = \<lambda>i. ''05''\<rparr>"

definition idle_fs :: "(bytes, int) littlefs" where
  "idle_fs = \<lparr>lf_mount = \<lambda>s. (Inr (), s), lf_format = \<lambda>s. (Inr (), s), lf_read = \<lambda>n p s. (Inl (-2), s),
     lf_write = \<lambda>p bs s. (Inr (), s), lf_create_dir_all = \<lambda>p s. (Inr (), s), lf_read_dir = \<lambda>p s. (Inr [], s),
     lf_exists = \<lambda>p s. (False, s), lf_rename = \<lambda>p q s. (Inr (), s), lf_io = -5, lf_corruption = -84, lf_dir_not_empty = -39\<rparr>"

definition example_import :: "(ram_hw, int, bytes, bytes) import_platform" where
  "example_import = \<lparr>ip_rom = ram_rom, ip_sha = \<lparr>sha_new = [], sha_update = (@), sha_finalize = id\<rparr>,
     ip_filesystem = flag_fs, ip_volatile = idle_fs, ip_trng_enabled = True,
     ip_rng_read = \<lambda>n v. (replicate n (of_nat (length v)), 0 # v),
     ip_proof = doubling_client id (\<lambda>k _. k) (\<lambda>_. None),
     ip_persistent = doubling_client snd (\<lambda>k x. (fst x, k)) (\<lambda>x. flag_files (fst x) ATTESTATION_CERT_PATH),
     ip_try_deserialize = raw_key, ip_max_message_length = 1024,
     ip_expected_certificate = AAGUID_EXTENSION_PREFIX @ DEVELOPMENT_AAGUID,
     ip_expected_public_key = 4 # (replicate 31 0 @ [1]) @ (replicate 31 0 @ [1])\<rparr>"

lemma example_import_law:
  "import_law True example_import rh_mem rh_page flag_files (\<lambda>_. ram_names fresh_fs) (\<lambda>k. k @ k)"
  unfolding import_law_def
  using ram_rom_contract [of True] flag_fs_law flag_fs_bounded flag_store_view
  by (auto simp: example_import_def client_bounded_def derivation_law_def doubling_client_def store_bound_def)

lemma flag_paths:
  "flag_of STORAGE_FORMAT_VERSION_PATH = Some (0, STORAGE_FORMAT_VERSION)"
  "flag_of PERSISTENT_STATE_INITIALIZATION_MARKER_PATH = Some (1, PERSISTENT_STATE_INITIALIZATION_MARKER)"
  by (simp_all add: flag_of_def STORAGE_FORMAT_VERSION_PATH_def PERSISTENT_STATE_INITIALIZATION_MARKER_PATH_def)

lemma example_held: "arming_loop (provisioning_new REQUIRED_HOLD_MS) led held_polls = (Hold_Confirmed, True)"
  by code_simp

section \<open>Properties\<close>

text \<open>
  C22. The storage provisioner is destructive only on purpose and only in its partition. Whatever
  the polls of the button, it stops without a panic; without a fresh continuous hold of five
  seconds inside the arming window it only times out or waits, with the flash untouched; no
  byte outside the store changes in any case; and it shows the two pulses of success only
  with the format version and the initialization marker read back from the store.
\<close>

theorem provisioner_needs_hold_and_completes:
  assumes "rom_contract enc' R mem page" and "fs_law L files names" and "fs_write_law L files" and "fs_bounded L mem"
  shows "\<exists>e p'. provision_storage enc R L code polls p = Some (Inl e, p')
    \<and> (\<not> fresh_hold polls \<longrightarrow> e \<in> {IE_Arming, IE_Signal 1} \<and> pr_device p' = pr_device p)
    \<and> (\<forall>a. a < unat FIDO_STORE_OFFSET \<or> unat FLASH_SIZE \<le> a \<longrightarrow> mem (fe_hw (pr_device p')) a = mem (fe_hw (pr_device p)) a)
    \<and> (e = IE_Signal 2 \<longrightarrow> provisioned files (pr_device p'))"
proof -
  have c: "unat FIDO_STORE_OFFSET = 0x3e0000" "unat FLASH_SIZE = 0x400000" by (simp_all add: store_consts)
  obtain q1 q2 q' where m: "milestone 1 0 p = Some ((Inr () :: image_end + unit), q1)" "milestone 2 0 q1 = Some ((Inr () :: image_end + unit), q2)"
    "milestone 3 0 q2 = Some ((Inr () :: image_end + unit), q')" and q': "pr_device q' = pr_device p" "pr_led q' = pr_led p"
    by (metis milestone_returns)
  have run: "provision_storage enc R L code polls p = (case arming_loop (provisioning_new REQUIRED_HOLD_MS) (pr_led p) polls of
       (Still_Waiting, led) \<Rightarrow> rust_err IE_Arming (q'\<lparr>pr_led := led\<rparr>)
     | (Window_Expired, led) \<Rightarrow> try_then (milestone 100 0) (\<lambda>_. signal_result 1) (q'\<lparr>pr_led := led\<rparr>)
     | (Hold_Confirmed, led) \<Rightarrow> try_then (create_store enc R L code) (\<lambda>_. signal_result 2) (q'\<lparr>pr_led := False\<rparr>))"
    using q'(2) by (simp add: provision_storage_def try_milestone [OF m(1)] try_milestone [OF m(2)] try_milestone [OF m(3)])
  show ?thesis
  proof (cases "fresh_hold polls")
    case True
    then obtain led where led: "arming_loop (provisioning_new REQUIRED_HOLD_MS) (pr_led p) polls = (Hold_Confirmed, led)"
      using arming_cases [of polls "pr_led p"] by auto
    obtain r p' where r: "create_store enc R L code (q'\<lparr>pr_led := False\<rparr>) = Some (r, p')" "apart mem (pr_device p) (pr_device p')"
      "r \<noteq> Inl (IE_Signal 2)" "r = Inr () \<longrightarrow> provisioned files (pr_device p')"
      using create_store_triple [OF assms, of "pr_device p" enc code] q' unfolding triple_def yields_def by force
    then show ?thesis using True c
      by (cases r) (auto simp: run led try_then_def signal_result_def rust_err_def apart_def only_within_def)
  next
    case False
    then obtain led where "arming_loop (provisioning_new REQUIRED_HOLD_MS) (pr_led p) polls \<in> {(Still_Waiting, led), (Window_Expired, led)}"
      using arming_cases [of polls "pr_led p"] by blast
    then show ?thesis using q' by (auto simp: run signal_result_def rust_err_def try_then_def milestone_def Let_def)
  qed
qed

theorem provisioner_needs_hold_and_completes_witness:
  "map_option fst (provision_storage False ram_rom flag_fs (\<lambda>e. 0) held_polls
       \<lparr>pr_device = blank_device, pr_led = False, pr_diagnostic = [0, 0, 0, 0]\<rparr>) = Some (Inl (IE_Signal 2))
   \<and> (\<exists>e p'. provision_storage False ram_rom flag_fs (\<lambda>e. 0) held_polls
       \<lparr>pr_device = blank_device, pr_led = False, pr_diagnostic = [0, 0, 0, 0]\<rparr> = Some (Inl e, p')
    \<and> (\<not> fresh_hold held_polls \<longrightarrow> e \<in> {IE_Arming, IE_Signal 1} \<and> pr_device p' = blank_device)
    \<and> (\<forall>a. a < unat FIDO_STORE_OFFSET \<or> unat FLASH_SIZE \<le> a \<longrightarrow> rh_mem (fe_hw (pr_device p')) a = rh_mem (fe_hw blank_device) a)
    \<and> (e = IE_Signal 2 \<longrightarrow> provisioned flag_files (pr_device p')))"
proof (rule conjI)
  show "map_option fst (provision_storage False ram_rom flag_fs (\<lambda>e. 0) held_polls
      \<lparr>pr_device = blank_device, pr_led = False, pr_diagnostic = [0, 0, 0, 0]\<rparr>) = Some (Inl (IE_Signal 2))"
    by (simp add: provision_storage_def example_held create_store_def storage_new_def write_storage_version_def verify_storage_version_def
        write_persistent_state_initialization_marker_def or_signal_def on_device_def fs_call_def map_err_def
        try_then_def milestone_def signal_result_def rust_err_def rust_ok_def flag_fs_def flag_files_def flag_paths flag_set_def Let_def)
qed (use provisioner_needs_hold_and_completes [OF ram_rom_contract [of True] flag_fs_law flag_write_law flag_fs_bounded,
      of False "\<lambda>e. 0" held_polls "\<lparr>pr_device = blank_device, pr_led = False, pr_diagnostic = [0, 0, 0, 0]\<rparr>"] in simp)



end
