(* ===== verification/Spec2Isabelle.thy ===== *)
theory Spec2Isabelle
  imports Fido_Loop Provisioning
begin

text \<open>
  A verification development for Salpa, the FIDO2 security-key firmware for the ESP32-S2.

  \<^bold>\<open>The program.\<close> One polling loop (\<^verbatim>\<open>src/bin/startup/s2_fido.rs\<close>) serves USB reports. The CTAPHID
  engine (\<^verbatim>\<open>src/ctaphid.rs\<close>) assembles them into requests: CBOR requests go to the FIDO authenticator,
  vendor requests to the diagnostics and to the signed A/B updater (\<^verbatim>\<open>src/usb_update.rs\<close>), which
  verifies images (\<^verbatim>\<open>src/signed_image.rs\<close>), writes the inactive slot through the encrypted flash
  and switches the boot records. Both wait for the button through the presence gate. Separate
  images provision the store and import the attestation identity.

  \<^bold>\<open>Conventions.\<close> \<open>Salpa_Prelude\<close> holds the shared vocabulary. The crate is built with overflow
  checks, so an overflow, an index out of range and a slice of the wrong length are panics: the
  value \<open>None\<close> of the model. A fallible function over a device is of the type \<open>rust\<close>: from a state
  to \<open>None\<close>, or to an error or a value together with the state it leaves, so that partial effects of
  a failure stay visible. \<open>try_then\<close> is the question-mark operator, \<open>map_err\<close> and \<open>ok_or\<close> are the methods of
  \<^verbatim>\<open>Result\<close> and \<^verbatim>\<open>Option\<close>. Machine integers are words of their width; a \<^verbatim>\<open>usize\<close> that only counts bytes of
  a slice is a natural number. \<open>yields\<close> is total correctness: the call returns and its result and state
  satisfy the postcondition. Features of the build are boolean arguments; the polling loop is the one of the build
  with \<^verbatim>\<open>usb-signed-update\<close>.

  \<^bold>\<open>Theories, in the order of their imports.\<close>

  \<^item> \<open>Request_Completion\<close> (\<^verbatim>\<open>src/request_completion.rs\<close>): the disposition of a finished request, over the
    locale \<open>reply_transport\<close> of whatever carries the reply.
  \<^item> \<open>Ctaphid\<close> (\<^verbatim>\<open>src/ctaphid.rs\<close>): the transport engine as a record of its fields; reception, INIT, CANCEL,
    replies, keepalives, errors, timeouts. The invariant \<open>hid_wf\<close> holds in every run and no call sequence
    panics; a message that is sent packet by packet arrives as it was; other channels cannot
    disturb a transaction.
  \<^item> \<open>Signed_Image\<close> (\<^verbatim>\<open>src/signed_image.rs\<close>): image header, segments, digest, signature sector. The streaming
    verifier refines a specification over the whole content of the slot.
  \<^item> \<open>Usb_Update\<close> (\<^verbatim>\<open>src/usb_update.rs\<close>): the update protocol as a machine with an abstract backend that logs
    its mutations; every erase, write and activation is one the session permits.
  \<^item> \<open>Flash_Encryption\<close>, \<open>Ota\<close>, \<open>Update_Backend\<close> (\<^verbatim>\<open>src/platform/flash_encryption.rs\<close>, \<^verbatim>\<open>src/platform/ota.rs\<close>,
    \<^verbatim>\<open>src/platform/usb_update.rs\<close>): the flash of the board. Reads through the cache window return the
    stored bytes, changes stay in their range, activation and confirmation change exactly one boot record,
    and the backend fulfils the contract the protocol assumes.
  \<^item> \<open>Presence\<close>, \<open>User_Presence\<close> (\<^verbatim>\<open>src/platform/presence_gate.rs\<close>, \<^verbatim>\<open>maintenance_presence.rs\<close>, \<^verbatim>\<open>provisioning.rs\<close>,
    \<^verbatim>\<open>s2_user_presence.rs\<close>): the gestures and the waiting loop. An approval is stated over the history of polls
    (\<open>fresh_gesture\<close>): a debounced release, then a debounced press. The locale \<open>waiting_hook\<close> is the
    interface of whatever runs during a wait.
  \<^item> \<open>Memory_Protection\<close> (\<^verbatim>\<open>src/platform/memory_protection.rs\<close>): the SRAM permissions, write-xor-execute after a
    successful initialization.
  \<^item> \<open>Security_Epoch\<close>, \<open>Maintenance\<close> (\<^verbatim>\<open>src/platform/security_epoch*.rs\<close>, \<^verbatim>\<open>s2_epoch_programmer.rs\<close>,
    \<^verbatim>\<open>security_status.rs\<close>): the anti-rollback counter. Fuses change only by the bits of the approved plan, after
    qualification of both slots and a five-second hold.
  \<^item> \<open>Vendor_Commands\<close> (\<^verbatim>\<open>src/platform/vendor_commands.rs\<close>): dispatch and the presence retry, with the locale
    \<open>presence_protocol\<close> interpreted on the handlers of the board.
  \<^item> \<open>Usb_Runtime\<close>, \<open>Fido_Loop\<close> (\<^verbatim>\<open>src/platform/usb_runtime.rs\<close>, \<^verbatim>\<open>src/usb.rs\<close>, \<^verbatim>\<open>src/bin/startup/s2_fido.rs\<close>): the
    composition. The USB runtime is a \<open>waiting_hook\<close>; an approval belongs to the request that asked for it; one iteration
    of the loop returns to rest, confirms a candidate image only after a success, and opens an update session only after
    a press.
  \<^item> \<open>Identity\<close> (\<^verbatim>\<open>src/identity.rs\<close>, \<^verbatim>\<open>src/usb_identity.rs\<close>, \<^verbatim>\<open>src/platform/attestation_import.rs\<close>,
    \<^verbatim>\<open>rng_health.rs\<close>, \<^verbatim>\<open>rng.rs\<close>, \<^verbatim>\<open>dispatch.rs\<close>): the scalar check is the arithmetic range check, the staged identity
    is accepted in one canonical form only, the USB identity of a build is decided field by field.
  \<^item> \<open>Storage\<close> (\<^verbatim>\<open>src/platform/storage_layout.rs\<close>, \<^verbatim>\<open>storage.rs\<close>, \<^verbatim>\<open>storage_init.rs\<close>, \<^verbatim>\<open>attestation.rs\<close>): the partition of the
    store, its block device, mounting and the checks of its content; the block device never leaves the partition and
    the checks never write.
  \<^item> \<open>Provisioning\<close> (\<^verbatim>\<open>src/bin/provision-storage.rs\<close>, \<^verbatim>\<open>src/bin/import-attestation.rs\<close>): the two images from the arming
    loop to the displayed result; nothing changes without a fresh hold, and the import commits only an identity it has proven.

  \<^bold>\<open>Hypotheses.\<close> Code that is not part of the repository is a record of functions with a named law: the ROM and the
  cache of the chip (\<open>rom_contract\<close>), the hash (\<open>sha_contract\<close>), eFuses (\<open>efuse_law\<close>, \<open>fuse_law\<close>), permission registers
  (\<open>register_law\<close>), the plain flash driver (\<open>nor_law\<close>), littlefs (\<open>fs_law\<close>, \<open>fs_write_law\<close>, \<open>fs_bounded\<close>,
  \<open>store_view\<close>), Trussed (\<open>client_bounded\<close>, \<open>derivation_law\<close>), the authenticator (\<open>authenticator_law\<close>). Each law is
  satisfied by a concrete instance of the development, on which the witnesses evaluate.

  \<^bold>\<open>Bounds and fuel.\<close> The loops of the code are structural recursions over the data they consume, or have a measure
  (\<open>read_pages\<close>). Loops that poll hardware take the list of the readings: the result is that of the code after
  those readings. \<open>drain\<close> of \<open>Ctaphid\<close>, which sends the packets of a reply, has fuel, and more fuel than bytes to send is
  proved to be enough.

  \<^bold>\<open>Not modelled.\<close> Setup of peripherals and services before the loop, descriptors and transfers inside the USB
  crates, the authenticator and Trussed themselves, the GetInfo bring-up response and configuration constants, the
  development provisioner and the power-cut test image (variants of the modelled images for the bench), the build script
  and the tools of the host. The firmware polls on the one core of the chip, so the model is
  sequential. Timing enters through the readings of the clock only.
\<close>

end
